theory Spec2Isabelle
  imports Main "HOL-Library.Word"
begin

unbundle bit_operations_syntax

section \<open>Orders (order.hpp)\<close>

text \<open>
  The enums of \<^verbatim>\<open>order.hpp\<close> are datatypes and \<^verbatim>\<open>struct Order\<close> is a record.
  The unsigned 64-bit fields (\<^verbatim>\<open>id\<close>, \<^verbatim>\<open>sequence_number\<close>) are 64-bit words.  The
  signed fields \<^verbatim>\<open>price\<close>, \<^verbatim>\<open>quantity\<close> and \<^verbatim>\<open>filled_quantity\<close> of one
  order are \<^typ>\<open>int\<close>: signed overflow is undefined behaviour in C++, and the embedding
  describes the executions in which no sum or difference of the fields of one order leaves
  the 64-bit range.  The wall-clock \<^verbatim>\<open>timestamp\<close> is never read by the engine and is
  left out.  The field \<^verbatim>\<open>id\<close> is called \<open>order_id\<close> and \<^verbatim>\<open>type\<close> is called
  \<open>otype\<close>, since the source's names are taken in HOL.

  Orders are held by \<^verbatim>\<open>std::shared_ptr\<close>: the submitter, the event and the price level
  point to one object, and the engine mutates it in place.  The theory has two embeddings of
  the book and the engine.

  The first one, from here to the processing of events, passes orders by value.  Every
  function that writes to an order returns the written order, and a write to a resting
  order is a write to the copy stored in its price level.  This is the behaviour of the
  code as long as no order object is held twice, that is, as long as an event never carries
  an object that is resting in the book.  The total of a level is an \<^typ>\<open>int\<close> there.

  The second one, the section on shared order objects, keeps the pointers: a memory from
  addresses to orders, levels that hold addresses and events that carry addresses, so that
  one object can be submitted twice; and it wraps the total of a level to 64 bits.  The two
  are proved to agree on every state in which no address rests twice, for every event
  whose object does not rest in the book.  The claims about what one match or one event
  does (C1, C3, C7, C8, C10) are stated on the first embedding, the claims about what
  holds of the book and of the resting orders over a run (C2, C4, C5, C6) on the second.
  In both, nobody but the engine writes to an order while the engine holds it.
\<close>

datatype OrderSide = BUY | SELL

datatype OrderType = LIMIT | MARKET

datatype OrderStatus = NEW | PARTIALLY_FILLED | FILLED | CANCELLED | REJECTED

record Order =
  order_id :: "64 word"
  symbol :: string
  side :: OrderSide
  otype :: OrderType
  price :: int
  quantity :: int
  filled_quantity :: int
  status :: OrderStatus
  sequence_number :: "64 word"

text \<open>The constructor \<^verbatim>\<open>Order(id, symbol, side, type, price, quantity)\<close>.\<close>

definition new_order ::
  "64 word \<Rightarrow> string \<Rightarrow> OrderSide \<Rightarrow> OrderType \<Rightarrow> int \<Rightarrow> int \<Rightarrow> Order" where
  "new_order i smb sd ty p q =
     \<lparr>order_id = i, symbol = smb, side = sd, otype = ty, price = p, quantity = q,
      filled_quantity = 0, status = NEW, sequence_number = 0\<rparr>"

definition remaining_quantity :: "Order \<Rightarrow> int" where
  "remaining_quantity ord = quantity ord - filled_quantity ord"

definition is_filled :: "Order \<Rightarrow> bool" where
  "is_filled ord \<longleftrightarrow> filled_quantity ord \<ge> quantity ord"

definition is_active :: "Order \<Rightarrow> bool" where
  "is_active ord \<longleftrightarrow> status ord = NEW \<or> status ord = PARTIALLY_FILLED"

section \<open>Price levels (price_level.hpp)\<close>

text \<open>
  \<^verbatim>\<open>class PriceLevel\<close>: the private members \<^verbatim>\<open>price_\<close>, \<^verbatim>\<open>total_quantity_\<close> and
  \<^verbatim>\<open>orders_\<close> (a deque, oldest order first).
\<close>

record PriceLevel =
  level_price :: int
  total_quantity :: int
  orders :: "Order list"

definition new_level :: "int \<Rightarrow> PriceLevel" where
  "new_level p = \<lparr>level_price = p, total_quantity = 0, orders = []\<rparr>"

text \<open>\<^verbatim>\<open>PriceLevel::add_order\<close>: push to the back, add the remaining quantity.\<close>

definition level_add_order :: "PriceLevel \<Rightarrow> Order \<Rightarrow> PriceLevel" where
  "level_add_order l ord =
     l\<lparr>orders := orders l @ [ord],
       total_quantity := total_quantity l + remaining_quantity ord\<rparr>"

text \<open>\<^verbatim>\<open>PriceLevel::find_order\<close>: the first order with the id, or null.\<close>

definition find_order :: "PriceLevel \<Rightarrow> 64 word \<Rightarrow> Order option" where
  "find_order l i = find (\<lambda>x. order_id x = i) (orders l)"

text \<open>
  \<^verbatim>\<open>PriceLevel::remove_order\<close>: the loop stops at the first stored order whose id is the
  id of the argument, subtracts that stored order's remaining quantity and erases it.
\<close>

fun erase_first :: "64 word \<Rightarrow> Order list \<Rightarrow> Order list" where
  "erase_first i [] = []"
| "erase_first i (x # xs) = (if order_id x = i then xs else x # erase_first i xs)"

definition level_remove_order :: "PriceLevel \<Rightarrow> Order \<Rightarrow> PriceLevel" where
  "level_remove_order l ord =
     (case find_order l (order_id ord) of
        None \<Rightarrow> l
      | Some x \<Rightarrow>
          l\<lparr>total_quantity := total_quantity l - remaining_quantity x,
            orders := erase_first (order_id ord) (orders l)\<rparr>)"

definition front_order :: "PriceLevel \<Rightarrow> Order option" where
  "front_order l = (case orders l of [] \<Rightarrow> None | x # _ \<Rightarrow> Some x)"

definition level_empty :: "PriceLevel \<Rightarrow> bool" where
  "level_empty l \<longleftrightarrow> orders l = []"

definition update_total_quantity :: "PriceLevel \<Rightarrow> int \<Rightarrow> PriceLevel" where
  "update_total_quantity l delta = l\<lparr>total_quantity := total_quantity l + delta\<rparr>"

section \<open>The order book (order_book.hpp)\<close>

text \<open>
  A side of the book is a \<^verbatim>\<open>std::map<int64_t, PriceLevel>\<close>.  It is modelled by what an
  iteration from \<^verbatim>\<open>begin()\<close> to \<^verbatim>\<open>end()\<close> yields: the list of its entries, by
  ascending key.  \<open>side_emplace\<close> is \<^verbatim>\<open>emplace\<close> (insert at the sorted position, keep
  an existing entry), \<open>side_erase\<close> is \<^verbatim>\<open>erase\<close> of the entry found for a key,
  \<open>side_put\<close> is a write through the iterator found for a key, and \<^verbatim>\<open>find\<close> is
  \<^const>\<open>map_of\<close>.
\<close>

type_synonym side_map = "(int \<times> PriceLevel) list"

fun side_emplace :: "int \<Rightarrow> PriceLevel \<Rightarrow> side_map \<Rightarrow> side_map" where
  "side_emplace k v [] = [(k, v)]"
| "side_emplace k v ((k', v') # m) =
     (if k < k' then (k, v) # (k', v') # m
      else if k = k' then (k', v') # m
      else (k', v') # side_emplace k v m)"

fun side_put :: "int \<Rightarrow> PriceLevel \<Rightarrow> side_map \<Rightarrow> side_map" where
  "side_put k v [] = []"
| "side_put k v ((k', v') # m) =
     (if k = k' then (k', v) # m else (k', v') # side_put k v m)"

fun side_erase :: "int \<Rightarrow> side_map \<Rightarrow> side_map" where
  "side_erase k [] = []"
| "side_erase k ((k', v') # m) = (if k = k' then m else (k', v') # side_erase k m)"

record OrderBook =
  book_symbol :: string
  bids :: side_map
  asks :: side_map
  sequence_counter :: "64 word"

definition new_book :: "string \<Rightarrow> OrderBook" where
  "new_book smb = \<lparr>book_symbol = smb, bids = [], asks = [], sequence_counter = 0\<rparr>"

text \<open>
  \<^verbatim>\<open>OrderBook::add_to_side\<close>: find the level of the order's price, creating it when it
  is missing, and append the order.  It always returns true.
\<close>

definition add_to_side :: "side_map \<Rightarrow> Order \<Rightarrow> side_map" where
  "add_to_side sm ord =
     (case map_of sm (price ord) of
        None \<Rightarrow> side_emplace (price ord) (level_add_order (new_level (price ord)) ord) sm
      | Some l \<Rightarrow> side_put (price ord) (level_add_order l ord) sm)"

text \<open>
  \<^verbatim>\<open>OrderBook::remove_from_side\<close>: false when there is no level at the order's price;
  otherwise remove from that level, erase the level when it is empty, and return true.
\<close>

definition remove_from_side :: "side_map \<Rightarrow> Order \<Rightarrow> bool \<times> side_map" where
  "remove_from_side sm ord =
     (case map_of sm (price ord) of
        None \<Rightarrow> (False, sm)
      | Some l \<Rightarrow>
          (let l' = level_remove_order l ord
           in (True, if level_empty l' then side_erase (price ord) sm
                     else side_put (price ord) l' sm)))"

text \<open>
  \<^verbatim>\<open>OrderBook::add_order\<close>.  The sequence number is written to the order, so the
  written order is returned with the result.
\<close>

definition add_order :: "OrderBook \<Rightarrow> Order \<Rightarrow> bool \<times> Order \<times> OrderBook" where
  "add_order b ord =
     (if symbol ord \<noteq> book_symbol b then (False, ord, b)
      else
        (let sq = sequence_counter b + 1;
             ord1 = ord\<lparr>sequence_number := sq\<rparr>;
             b1 = b\<lparr>sequence_counter := sq\<rparr>
         in if side ord1 = BUY then (True, ord1, b1\<lparr>bids := add_to_side (bids b1) ord1\<rparr>)
            else (True, ord1, b1\<lparr>asks := add_to_side (asks b1) ord1\<rparr>)))"

definition remove_order :: "OrderBook \<Rightarrow> Order \<Rightarrow> bool \<times> OrderBook" where
  "remove_order b ord =
     (if side ord = BUY
      then (case remove_from_side (bids b) ord of (r, sm) \<Rightarrow> (r, b\<lparr>bids := sm\<rparr>))
      else (case remove_from_side (asks b) ord of (r, sm) \<Rightarrow> (r, b\<lparr>asks := sm\<rparr>)))"

text \<open>
  \<^verbatim>\<open>OrderBook::cancel_order\<close> walks the bid levels from \<^verbatim>\<open>begin()\<close>, then the ask
  levels.  At the first level that holds the id it sets the found order's status to
  CANCELLED, removes it from the level, erases the level when it is empty and returns true.
  \<open>cancel_side\<close> is one of the two loops; it returns the order it wrote to.  The result
  of \<open>cancel_order\<close> is \<open>Some\<close> of the cancelled order where the code returns true and
  \<open>None\<close> where it returns false.
\<close>

fun cancel_side :: "side_map \<Rightarrow> 64 word \<Rightarrow> (Order \<times> side_map) option" where
  "cancel_side [] i = None"
| "cancel_side ((k, l) # sm) i =
     (case find_order l i of
        Some ord \<Rightarrow>
          (let ord' = ord\<lparr>status := CANCELLED\<rparr>;
               l' = level_remove_order l ord'
           in Some (ord', if level_empty l' then sm else (k, l') # sm))
      | None \<Rightarrow>
          (case cancel_side sm i of
             None \<Rightarrow> None
           | Some (ord', sm') \<Rightarrow> Some (ord', (k, l) # sm')))"

definition cancel_order :: "OrderBook \<Rightarrow> 64 word \<Rightarrow> Order option \<times> OrderBook" where
  "cancel_order b i =
     (case cancel_side (bids b) i of
        Some (ord', sm) \<Rightarrow> (Some ord', b\<lparr>bids := sm\<rparr>)
      | None \<Rightarrow>
          (case cancel_side (asks b) i of
             Some (ord', sm) \<Rightarrow> (Some ord', b\<lparr>asks := sm\<rparr>)
           | None \<Rightarrow> (None, b)))"

text \<open>Best prices and best levels: the last bid entry and the first ask entry.\<close>

definition best_bid :: "OrderBook \<Rightarrow> int option" where
  "best_bid b = (if bids b = [] then None else Some (fst (last (bids b))))"

definition best_ask :: "OrderBook \<Rightarrow> int option" where
  "best_ask b = (if asks b = [] then None else Some (fst (hd (asks b))))"

definition get_best_bid_level :: "OrderBook \<Rightarrow> PriceLevel option" where
  "get_best_bid_level b = (if bids b = [] then None else Some (snd (last (bids b))))"

definition get_best_ask_level :: "OrderBook \<Rightarrow> PriceLevel option" where
  "get_best_ask_level b = (if asks b = [] then None else Some (snd (hd (asks b))))"

text \<open>
  The engine writes to the best level through the pointer that
  \<^verbatim>\<open>get_best_ask_level\<close> or \<^verbatim>\<open>get_best_bid_level\<close> returned.  These two
  functions are that write: they replace the level of the first ask entry, or of the last
  bid entry.
\<close>

definition set_best_ask_level :: "OrderBook \<Rightarrow> PriceLevel \<Rightarrow> OrderBook" where
  "set_best_ask_level b l =
     (case asks b of [] \<Rightarrow> b | (k, _) # sm \<Rightarrow> b\<lparr>asks := (k, l) # sm\<rparr>)"

definition set_best_bid_level :: "OrderBook \<Rightarrow> PriceLevel \<Rightarrow> OrderBook" where
  "set_best_bid_level b l =
     (if bids b = [] then b
      else b\<lparr>bids := butlast (bids b) @ [(fst (last (bids b)), l)]\<rparr>)"

section \<open>The matching engine (matching_engine.hpp)\<close>

text \<open>
  \<^verbatim>\<open>struct Trade\<close> (without its timestamp), \<^verbatim>\<open>struct Statistics\<close> and
  \<^verbatim>\<open>struct MatchResult\<close>.  The fields \<^verbatim>\<open>price\<close> and \<^verbatim>\<open>quantity\<close> of the trade
  and of the match result carry a prefix, since the order has fields of these names.
\<close>

record Trade =
  trade_id :: "64 word"
  trade_symbol :: string
  buy_order_id :: "64 word"
  sell_order_id :: "64 word"
  trade_price :: int
  trade_quantity :: int

record Statistics =
  orders_processed :: "64 word"
  trades_executed :: "64 word"
  orders_cancelled :: "64 word"

record MatchResult =
  matched :: bool
  match_price :: int
  match_quantity :: int
  resting_order :: "Order option"

definition no_match :: MatchResult where
  "no_match = \<lparr>matched = False, match_price = 0, match_quantity = 0, resting_order = None\<rparr>"

text \<open>
  The state of the engine that event processing reads and writes: the symbol, the book, the
  trade id counter and the statistics.  The two callbacks are modelled by what they are
  called with: \<open>trade_log\<close> is the sequence of trades passed to the trade callback and
  \<open>order_update_log\<close> the sequence of orders passed to the order-update callback, oldest
  first.  The worker thread and the event queue are not part of this state; the queue is
  modelled on its own below.
\<close>

record MatchingEngine =
  engine_symbol :: string
  order_book :: OrderBook
  trade_id_counter :: "64 word"
  stats :: Statistics
  trade_log :: "Trade list"
  order_update_log :: "Order list"

definition new_engine :: "string \<Rightarrow> MatchingEngine" where
  "new_engine smb =
     \<lparr>engine_symbol = smb, order_book = new_book smb, trade_id_counter = 0,
      stats = \<lparr>orders_processed = 0, trades_executed = 0, orders_cancelled = 0\<rparr>,
      trade_log = [], order_update_log = []\<rparr>"

text \<open>\<^verbatim>\<open>MatchingEngine::can_match\<close>.\<close>

definition can_match :: "MatchingEngine \<Rightarrow> Order \<Rightarrow> bool" where
  "can_match e ord =
     (if side ord = BUY
      then (case best_ask (order_book e) of
              None \<Rightarrow> False
            | Some a \<Rightarrow> otype ord = MARKET \<or> price ord \<ge> a)
      else (case best_bid (order_book e) of
              None \<Rightarrow> False
            | Some b \<Rightarrow> otype ord = MARKET \<or> price ord \<le> b))"

text \<open>
  \<^verbatim>\<open>MatchingEngine::execute_trade\<close> writes to both orders and returns them with the
  engine.
\<close>

definition set_fill_status :: "Order \<Rightarrow> Order" where
  "set_fill_status ord =
     (if is_filled ord then ord\<lparr>status := FILLED\<rparr> else ord\<lparr>status := PARTIALLY_FILLED\<rparr>)"

definition execute_trade ::
  "MatchingEngine \<Rightarrow> Order \<Rightarrow> Order \<Rightarrow> int \<Rightarrow> int \<Rightarrow> Order \<times> Order \<times> MatchingEngine" where
  "execute_trade e buy_order sell_order p q =
     (let buy1 = set_fill_status (buy_order\<lparr>filled_quantity := filled_quantity buy_order + q\<rparr>);
          sell1 = set_fill_status (sell_order\<lparr>filled_quantity := filled_quantity sell_order + q\<rparr>);
          tid = trade_id_counter e + 1;
          trade = \<lparr>trade_id = tid, trade_symbol = engine_symbol e,
                   buy_order_id = order_id buy1, sell_order_id = order_id sell1,
                   trade_price = p, trade_quantity = q\<rparr>
      in (buy1, sell1,
          e\<lparr>trade_id_counter := tid,
            stats := (stats e)\<lparr>trades_executed := trades_executed (stats e) + 1\<rparr>,
            trade_log := trade_log e @ [trade]\<rparr>))"

text \<open>\<open>fill ord q\<close> is what \<open>execute_trade\<close> does to one order: the two writes.\<close>

definition fill :: "Order \<Rightarrow> int \<Rightarrow> Order" where
  "fill ord q = set_fill_status (ord\<lparr>filled_quantity := filled_quantity ord + q\<rparr>)"

text \<open>
  \<^verbatim>\<open>MatchingEngine::try_match\<close>.  The resting order is the front of the best opposite
  level.  After \<open>execute_trade\<close> the written resting order is the front of that level
  (\<open>set_front\<close>), the level's total is lowered through the level pointer, and a filled
  resting order is removed with \<open>remove_order\<close>.  The incoming order is returned as
  written.  The code's last test of the level after the removal guards an empty block and
  is left out.
\<close>

definition set_front :: "PriceLevel \<Rightarrow> Order \<Rightarrow> PriceLevel" where
  "set_front l ord = l\<lparr>orders := ord # tl (orders l)\<rparr>"

definition try_match :: "MatchingEngine \<Rightarrow> Order \<Rightarrow> MatchResult \<times> Order \<times> MatchingEngine" where
  "try_match e incoming_order =
     (if side incoming_order = BUY then
        (case get_best_ask_level (order_book e) of
           None \<Rightarrow> (no_match, incoming_order, e)
         | Some ask_level \<Rightarrow>
             if level_empty ask_level then (no_match, incoming_order, e)
             else if otype incoming_order = LIMIT \<and> price incoming_order < level_price ask_level
             then (no_match, incoming_order, e)
             else
               (case front_order ask_level of
                  None \<Rightarrow> (no_match, incoming_order, e)
                | Some resting \<Rightarrow>
                    if \<not> is_active resting then (no_match, incoming_order, e)
                    else
                      (let mp = price resting;
                           mq = min (remaining_quantity incoming_order) (remaining_quantity resting);
                           (incoming', resting', e1) =
                              execute_trade e incoming_order resting mp mq;
                           ask_level' = update_total_quantity (set_front ask_level resting') (- mq);
                           b1 = set_best_ask_level (order_book e1) ask_level';
                           b2 = (if is_filled resting' then snd (remove_order b1 resting') else b1)
                       in (\<lparr>matched = True, match_price = mp, match_quantity = mq,
                            resting_order = Some resting'\<rparr>,
                           incoming', e1\<lparr>order_book := b2\<rparr>))))
      else
        (case get_best_bid_level (order_book e) of
           None \<Rightarrow> (no_match, incoming_order, e)
         | Some bid_level \<Rightarrow>
             if level_empty bid_level then (no_match, incoming_order, e)
             else if otype incoming_order = LIMIT \<and> price incoming_order > level_price bid_level
             then (no_match, incoming_order, e)
             else
               (case front_order bid_level of
                  None \<Rightarrow> (no_match, incoming_order, e)
                | Some resting \<Rightarrow>
                    if \<not> is_active resting then (no_match, incoming_order, e)
                    else
                      (let mp = price resting;
                           mq = min (remaining_quantity incoming_order) (remaining_quantity resting);
                           (resting', incoming', e1) =
                              execute_trade e resting incoming_order mp mq;
                           bid_level' = update_total_quantity (set_front bid_level resting') (- mq);
                           b1 = set_best_bid_level (order_book e1) bid_level';
                           b2 = (if is_filled resting' then snd (remove_order b1 resting') else b1)
                       in (\<lparr>matched = True, match_price = mp, match_quantity = mq,
                            resting_order = Some resting'\<rparr>,
                           incoming', e1\<lparr>order_book := b2\<rparr>)))))"

subsection \<open>The matching loops terminate\<close>

text \<open>
  The two \<^verbatim>\<open>while\<close> loops of the engine run \<open>try_match\<close> until the incoming order is
  no longer active, nothing can match, or a match fails.  They terminate on every state:
  when a match leaves the incoming order active, the resting order it met was filled
  entirely, so the number of active orders on the opposite side went down.  The three
  definitions and the lemmas that follow are there for the two termination proofs.
\<close>

definition level_orders :: "side_map \<Rightarrow> Order list" where
  "level_orders sm = concat (map (\<lambda>kl. orders (snd kl)) sm)"

definition active_count :: "side_map \<Rightarrow> nat" where
  "active_count sm = length (filter is_active (level_orders sm))"

definition opposite :: "OrderSide \<Rightarrow> OrderBook \<Rightarrow> side_map" where
  "opposite sd b = (if sd = BUY then asks b else bids b)"

lemma level_orders_simps [simp]:
  "level_orders [] = []"
  "level_orders ((k, l) # sm) = orders l @ level_orders sm"
  "level_orders (sm @ sm') = level_orders sm @ level_orders sm'"
  by (simp_all add: level_orders_def)

lemma active_count_simps [simp]:
  "active_count [] = 0"
  "active_count ((k, l) # sm) = length (filter is_active (orders l)) + active_count sm"
  "active_count (sm @ sm') = active_count sm + active_count sm'"
  by (simp_all add: active_count_def)

lemma erase_first_active: "length (filter is_active (erase_first i xs)) \<le> length (filter is_active xs)"
  by (induction xs) auto

lemma level_remove_order_active:
  "length (filter is_active (orders (level_remove_order l ord))) \<le> length (filter is_active (orders l))"
  by (simp add: level_remove_order_def erase_first_active split: option.split)

lemma side_erase_active:
  "active_count (side_erase k sm) \<le> active_count sm"
  by (induction sm) auto

lemma side_put_active:
  "map_of sm k = Some l \<Longrightarrow> length (filter is_active (orders l')) \<le> length (filter is_active (orders l))
   \<Longrightarrow> active_count (side_put k l' sm) \<le> active_count sm"
  by (induction sm) auto

lemma remove_from_side_active:
  "active_count (snd (remove_from_side sm ord)) \<le> active_count sm"
  by (auto simp: remove_from_side_def Let_def side_erase_active side_put_active level_remove_order_active split: option.split)

lemma remove_order_opposite_active:
  "active_count (opposite sd (snd (remove_order b ord))) \<le> active_count (opposite sd b)"
  using remove_from_side_active[of "bids b" ord] remove_from_side_active[of "asks b" ord]
  by (auto simp: remove_order_def opposite_def split: prod.split)

lemma active_after_fill:
  assumes "is_active (set_fill_status (inc\<lparr>filled_quantity := filled_quantity inc + min (remaining_quantity inc) (remaining_quantity rst)\<rparr>))"
  shows "is_filled (set_fill_status (rst\<lparr>filled_quantity := filled_quantity rst + min (remaining_quantity inc) (remaining_quantity rst)\<rparr>))"
    and "\<not> is_active (set_fill_status (rst\<lparr>filled_quantity := filled_quantity rst + min (remaining_quantity inc) (remaining_quantity rst)\<rparr>))"
  using assms
  by (auto simp: set_fill_status_def is_active_def is_filled_def remaining_quantity_def min_def split: if_splits)

lemma try_match_side: "try_match e ord = (r, ord', e') \<Longrightarrow> side ord' = side ord"
  by (auto simp: try_match_def execute_trade_def Let_def set_fill_status_def
       split: if_splits option.splits prod.splits)

lemma try_match_progress_buy:
  assumes "try_match e ord = (r, ord', e')" "matched r" "is_active ord'" "side ord = BUY"
  shows "active_count (asks (order_book e')) < active_count (asks (order_book e))"
proof -
  from assms obtain k l sm resting xs where
    A: "asks (order_book e) = (k, l) # sm" and L: "orders l = resting # xs" and act: "is_active resting"
    by (cases "asks (order_book e)"; cases "orders (snd (hd (asks (order_book e))))")
       (auto simp: try_match_def get_best_ask_level_def no_match_def level_empty_def front_order_def
          split: if_splits option.splits list.splits)
  define mq where "mq = min (remaining_quantity ord) (remaining_quantity resting)"
  define inc' where "inc' = set_fill_status (ord\<lparr>filled_quantity := filled_quantity ord + mq\<rparr>)"
  define rst' where "rst' = set_fill_status (resting\<lparr>filled_quantity := filled_quantity resting + mq\<rparr>)"
  define b1 where "b1 = set_best_ask_level (order_book e) (update_total_quantity (set_front l rst') (- mq))"
  have res: "ord' = inc'" "order_book e' = (if is_filled rst' then snd (remove_order b1 rst') else b1)"
    using assms A L act
    by (auto simp: try_match_def get_best_ask_level_def no_match_def level_empty_def front_order_def
          execute_trade_def Let_def mq_def inc'_def rst'_def b1_def set_best_ask_level_def
          split: if_splits)
  from assms(3) res(1) have f: "is_filled rst'" "\<not> is_active rst'"
    using active_after_fill[of ord resting] by (simp_all add: inc'_def rst'_def mq_def)
  have "asks b1 = (k, update_total_quantity (set_front l rst') (- mq)) # sm"
    by (simp add: b1_def set_best_ask_level_def A)
  then have c1: "active_count (asks b1) < active_count (asks (order_book e))"
    using A L act f by (simp add: update_total_quantity_def set_front_def)
  have "active_count (asks (order_book e')) \<le> active_count (asks b1)"
    using remove_order_opposite_active[of BUY b1 rst'] res(2) f by (simp add: opposite_def)
  with c1 show ?thesis by simp
qed

lemma try_match_progress_sell:
  assumes "try_match e ord = (r, ord', e')" "matched r" "is_active ord'" "side ord \<noteq> BUY"
  shows "active_count (bids (order_book e')) < active_count (bids (order_book e))"
proof -
  from assms have ne: "bids (order_book e) \<noteq> []"
    by (auto simp: try_match_def get_best_bid_level_def no_match_def split: if_splits)
  define k where "k = fst (last (bids (order_book e)))"
  define l where "l = snd (last (bids (order_book e)))"
  define sm where "sm = butlast (bids (order_book e))"
  from ne have A: "bids (order_book e) = sm @ [(k, l)]"
    by (simp add: k_def l_def sm_def)
  from assms ne obtain resting xs where L: "orders l = resting # xs" and act: "is_active resting"
    by (cases "orders l")
       (auto simp: try_match_def get_best_bid_level_def no_match_def level_empty_def front_order_def l_def
          split: if_splits option.splits list.splits)
  define mq where "mq = min (remaining_quantity ord) (remaining_quantity resting)"
  define inc' where "inc' = set_fill_status (ord\<lparr>filled_quantity := filled_quantity ord + mq\<rparr>)"
  define rst' where "rst' = set_fill_status (resting\<lparr>filled_quantity := filled_quantity resting + mq\<rparr>)"
  define b1 where "b1 = set_best_bid_level (order_book e) (update_total_quantity (set_front l rst') (- mq))"
  have res: "ord' = inc'" "order_book e' = (if is_filled rst' then snd (remove_order b1 rst') else b1)"
    using assms ne L act
    by (auto simp: try_match_def get_best_bid_level_def no_match_def level_empty_def front_order_def
          execute_trade_def Let_def mq_def inc'_def rst'_def b1_def set_best_bid_level_def l_def
          split: if_splits)
  from assms(3) res(1) have f: "is_filled rst'" "\<not> is_active rst'"
    using active_after_fill[of ord resting] by (simp_all add: inc'_def rst'_def mq_def)
  have "bids b1 = sm @ [(k, update_total_quantity (set_front l rst') (- mq))]"
    using ne by (simp add: b1_def set_best_bid_level_def k_def sm_def)
  then have c1: "active_count (bids b1) < active_count (bids (order_book e))"
    using A L act f by (simp add: update_total_quantity_def set_front_def)
  have "active_count (bids (order_book e')) \<le> active_count (bids b1)"
    using remove_order_opposite_active[of SELL b1 rst'] res(2) f by (simp add: opposite_def)
  with c1 show ?thesis by simp
qed

lemma try_match_progress:
  assumes "try_match e ord = (r, ord', e')" "matched r" "is_active ord'"
  shows "active_count (opposite (side ord') (order_book e')) < active_count (opposite (side ord) (order_book e))"
  using try_match_progress_buy[OF assms] try_match_progress_sell[OF assms] try_match_side[OF assms(1)]
  by (auto simp: opposite_def)

text \<open>The loop of \<^verbatim>\<open>match_limit_order\<close>.\<close>

function limit_loop :: "MatchingEngine \<Rightarrow> Order \<Rightarrow> Order \<times> MatchingEngine" where
  "limit_loop e ord =
     (if is_active ord \<and> can_match e ord then
        (case try_match e ord of
           (r, ord', e') \<Rightarrow> if \<not> matched r then (ord', e') else limit_loop e' ord')
      else (ord, e))"
  by pat_completeness auto

termination
  apply (relation "measure (\<lambda>(e, ord).
           if is_active ord then Suc (active_count (opposite (side ord) (order_book e))) else 0)")
   apply simp
  apply (auto dest: try_match_progress[OF sym])
  done

text \<open>
  The loop of \<^verbatim>\<open>match_market_order\<close>: a failed match rejects the order and leaves the
  loop.
\<close>

function market_loop :: "MatchingEngine \<Rightarrow> Order \<Rightarrow> Order \<times> MatchingEngine" where
  "market_loop e ord =
     (if is_active ord \<and> can_match e ord then
        (case try_match e ord of
           (r, ord', e') \<Rightarrow>
             if \<not> matched r then (ord'\<lparr>status := REJECTED\<rparr>, e') else market_loop e' ord')
      else (ord, e))"
  by pat_completeness auto

termination
  apply (relation "measure (\<lambda>(e, ord).
           if is_active ord then Suc (active_count (opposite (side ord) (order_book e))) else 0)")
   apply simp
  apply (auto dest: try_match_progress[OF sym])
  done

declare limit_loop.simps [simp del]

declare market_loop.simps [simp del]

subsection \<open>Processing events\<close>

text \<open>
  \<^verbatim>\<open>match_limit_order\<close> and \<^verbatim>\<open>match_market_order\<close> return the incoming order as
  written.  \<open>add_order\<close> can fail (a symbol other than the book's); the engine ignores
  its result.
\<close>

definition match_limit_order :: "MatchingEngine \<Rightarrow> Order \<Rightarrow> Order \<times> MatchingEngine" where
  "match_limit_order e ord =
     (case limit_loop e ord of
        (ord1, e1) \<Rightarrow>
          if is_active ord1 \<and> remaining_quantity ord1 > 0
          then (case add_order (order_book e1) ord1 of
                  (_, ord2, b) \<Rightarrow> (ord2, e1\<lparr>order_book := b\<rparr>))
          else (ord1, e1))"

definition match_market_order :: "MatchingEngine \<Rightarrow> Order \<Rightarrow> Order \<times> MatchingEngine" where
  "match_market_order e ord =
     (case market_loop e ord of
        (ord1, e1) \<Rightarrow>
          if remaining_quantity ord1 > 0 then (ord1\<lparr>status := REJECTED\<rparr>, e1)
          else (ord1, e1))"

definition process_new_order :: "MatchingEngine \<Rightarrow> Order \<Rightarrow> Order \<times> MatchingEngine" where
  "process_new_order e ord =
     (let e0 = e\<lparr>stats := (stats e)\<lparr>orders_processed := orders_processed (stats e) + 1\<rparr>\<rparr>
      in case (if otype ord = MARKET then match_market_order e0 ord
               else match_limit_order e0 ord) of
           (ord', e1) \<Rightarrow> (ord', e1\<lparr>order_update_log := order_update_log e1 @ [ord']\<rparr>))"

definition process_cancel_order :: "MatchingEngine \<Rightarrow> 64 word \<Rightarrow> MatchingEngine" where
  "process_cancel_order e i =
     (case cancel_order (order_book e) i of
        (Some _, b) \<Rightarrow>
          e\<lparr>order_book := b,
            stats := (stats e)\<lparr>orders_cancelled := orders_cancelled (stats e) + 1\<rparr>\<rparr>
      | (None, b) \<Rightarrow> e\<lparr>order_book := b\<rparr>)"

definition process_replace_order ::
  "MatchingEngine \<Rightarrow> 64 word \<Rightarrow> Order \<Rightarrow> Order \<times> MatchingEngine" where
  "process_replace_order e old_order_id new_ord =
     process_new_order (process_cancel_order e old_order_id) new_ord"

text \<open>
  \<^verbatim>\<open>struct OrderEvent\<close> is a tag with the fields each tag uses; it is modelled as a
  tagged union.  \<^verbatim>\<open>process_event\<close> dispatches on the tag.
\<close>

datatype OrderEvent =
  NEW_ORDER Order
| CANCEL_ORDER "64 word"
| REPLACE_ORDER "64 word" Order
| SHUTDOWN

fun process_event :: "MatchingEngine \<Rightarrow> OrderEvent \<Rightarrow> MatchingEngine" where
  "process_event e (NEW_ORDER ord) = snd (process_new_order e ord)"
| "process_event e (CANCEL_ORDER i) = process_cancel_order e i"
| "process_event e (REPLACE_ORDER i ord) = snd (process_replace_order e i ord)"
| "process_event e SHUTDOWN = e"

text \<open>The engine after a sequence of events, processed in order.\<close>

definition run_events :: "MatchingEngine \<Rightarrow> OrderEvent list \<Rightarrow> MatchingEngine" where
  "run_events e evs = foldl process_event e evs"

section \<open>The event queue (event_queue.hpp)\<close>

text \<open>
  \<^verbatim>\<open>LockFreeQueue<Size>\<close>: a ring buffer with a reader index \<open>head\<close>, a writer index
  \<open>tail\<close> and \<open>Size\<close> slots.  The template parameter \<open>Size\<close> is the first argument of
  each operation.  The indices are \<^verbatim>\<open>size_t\<close> values below \<open>Size\<close>, so
  \<open>tail + 1\<close> and \<open>head + 1\<close> do not wrap and natural numbers model them.  The atomic
  loads and stores are modelled as plain reads and writes of one sequential execution:
  the memory orderings and the interleaving of the two threads are outside this
  embedding.  \<^verbatim>\<open>pop\<close> returns a flag and writes the event through a reference; here it
  returns \<open>Some\<close> of the event for true and \<open>None\<close> for false.
\<close>

record 'a LockFreeQueue =
  head :: nat
  tail :: nat
  buffer :: "'a list"

definition new_queue :: "nat \<Rightarrow> 'a \<Rightarrow> 'a LockFreeQueue" where
  "new_queue Size dflt = \<lparr>head = 0, tail = 0, buffer = replicate Size dflt\<rparr>"

definition push :: "nat \<Rightarrow> 'a LockFreeQueue \<Rightarrow> 'a \<Rightarrow> bool \<times> 'a LockFreeQueue" where
  "push Size q event =
     (let current_tail = tail q;
          next_tail = (current_tail + 1) AND (Size - 1)
      in if next_tail = head q then (False, q)
         else (True, q\<lparr>buffer := (buffer q)[current_tail := event], tail := next_tail\<rparr>))"

definition pop :: "nat \<Rightarrow> 'a LockFreeQueue \<Rightarrow> 'a option \<times> 'a LockFreeQueue" where
  "pop Size q =
     (let current_head = head q
      in if current_head = tail q then (None, q)
         else (Some (buffer q ! current_head),
               q\<lparr>head := (current_head + 1) AND (Size - 1)\<rparr>))"

definition queue_empty :: "'a LockFreeQueue \<Rightarrow> bool" where
  "queue_empty q \<longleftrightarrow> head q = tail q"

text \<open>
  The constructor's \<^verbatim>\<open>static_assert((Size & (Size - 1)) == 0)\<close>.  It accepts the powers
  of two, and also 0 (in C++ \<open>Size - 1\<close> then wraps to the largest \<^verbatim>\<open>size_t\<close>, here it
  is 0; the conjunction with 0 is 0 either way).  A queue with a slot has a positive
  \<open>Size\<close>.
\<close>

definition size_accepted :: "nat \<Rightarrow> bool" where
  "size_accepted Size \<longleftrightarrow> Size AND (Size - 1) = 0"

text \<open>\<^verbatim>\<open>using EventQueue = LockFreeQueue<65536>\<close>: the capacity parameter of the engine's queue.\<close>

definition EventQueue_Size :: nat where
  "EventQueue_Size = 65536"

section \<open>The engine on shared order objects\<close>

text \<open>
  This section is the book and the engine again, with the pointers kept.  A
  \<^verbatim>\<open>std::shared_ptr<Order>\<close> is an address, and the memory that holds the order
  objects is a function from addresses to orders.  Every address holds an object: a null
  pointer in an event, which the code would dereference, is outside the embedding.  A
  level holds addresses, an event carries an address, and a function that writes to an
  order takes the memory and returns it.  One object can be held by several entries of
  the book, and two objects can have the same id: nothing in the code excludes either.
  The names are those of the first embedding with the suffix \<open>_p\<close>; the functions
  that only read one order (\<open>remaining_quantity\<close>, \<open>is_filled\<close>, \<open>is_active\<close>,
  \<open>set_fill_status\<close>) are shared.
\<close>

type_synonym addr = nat

type_synonym heap = "addr \<Rightarrow> Order"

text \<open>
  \<^verbatim>\<open>total_quantity_\<close> of a level is an \<^verbatim>\<open>int64_t\<close> that sums the remaining
  quantities of several orders, so it can leave the 64-bit range when no single order
  does.  Its additions and subtractions are written with the wrap-around of two's
  complement (\<open>wrap64\<close>), which is what the compiled code does; the C++ standard leaves
  the overflow undefined.
\<close>

definition wrap64 :: "int \<Rightarrow> int" where
  "wrap64 x = (x + 2 ^ 63) mod 2 ^ 64 - 2 ^ 63"

subsection \<open>Price levels\<close>

text \<open>\<^verbatim>\<open>class PriceLevel\<close>, with its deque of pointers.\<close>

record PriceLevel_p =
  level_price_p :: int
  total_quantity_p :: int
  orders_p :: "addr list"

definition new_level_p :: "int \<Rightarrow> PriceLevel_p" where
  "new_level_p p = \<lparr>level_price_p = p, total_quantity_p = 0, orders_p = []\<rparr>"

text \<open>
  \<^verbatim>\<open>PriceLevel::add_order\<close>, \<^verbatim>\<open>find_order\<close> and \<^verbatim>\<open>remove_order\<close>.  The
  remaining quantity and the id of an entry are read from the object it points to.
  \<^verbatim>\<open>remove_order\<close> compares the id of each entry with the id of the argument and
  erases the first entry that has it, which need not be the argument.
\<close>

definition level_add_order_p :: "heap \<Rightarrow> PriceLevel_p \<Rightarrow> addr \<Rightarrow> PriceLevel_p" where
  "level_add_order_p h l a =
     l\<lparr>orders_p := orders_p l @ [a],
       total_quantity_p := wrap64 (total_quantity_p l + remaining_quantity (h a))\<rparr>"

definition find_order_p :: "heap \<Rightarrow> PriceLevel_p \<Rightarrow> 64 word \<Rightarrow> addr option" where
  "find_order_p h l i = find (\<lambda>x. order_id (h x) = i) (orders_p l)"

fun erase_first_p :: "heap \<Rightarrow> 64 word \<Rightarrow> addr list \<Rightarrow> addr list" where
  "erase_first_p h i [] = []"
| "erase_first_p h i (x # xs) = (if order_id (h x) = i then xs else x # erase_first_p h i xs)"

definition level_remove_order_p :: "heap \<Rightarrow> PriceLevel_p \<Rightarrow> addr \<Rightarrow> PriceLevel_p" where
  "level_remove_order_p h l a =
     (case find_order_p h l (order_id (h a)) of
        None \<Rightarrow> l
      | Some x \<Rightarrow>
          l\<lparr>total_quantity_p := wrap64 (total_quantity_p l - remaining_quantity (h x)),
            orders_p := erase_first_p h (order_id (h a)) (orders_p l)\<rparr>)"

definition front_order_p :: "PriceLevel_p \<Rightarrow> addr option" where
  "front_order_p l = (case orders_p l of [] \<Rightarrow> None | x # _ \<Rightarrow> Some x)"

definition level_empty_p :: "PriceLevel_p \<Rightarrow> bool" where
  "level_empty_p l \<longleftrightarrow> orders_p l = []"

definition update_total_quantity_p :: "PriceLevel_p \<Rightarrow> int \<Rightarrow> PriceLevel_p" where
  "update_total_quantity_p l delta = l\<lparr>total_quantity_p := wrap64 (total_quantity_p l + delta)\<rparr>"

subsection \<open>The order book\<close>

text \<open>A side of the book, as in the first embedding: its entries by ascending key.\<close>

type_synonym side_map_p = "(int \<times> PriceLevel_p) list"

fun side_emplace_p :: "int \<Rightarrow> PriceLevel_p \<Rightarrow> side_map_p \<Rightarrow> side_map_p" where
  "side_emplace_p k v [] = [(k, v)]"
| "side_emplace_p k v ((k', v') # m) =
     (if k < k' then (k, v) # (k', v') # m
      else if k = k' then (k', v') # m
      else (k', v') # side_emplace_p k v m)"

fun side_put_p :: "int \<Rightarrow> PriceLevel_p \<Rightarrow> side_map_p \<Rightarrow> side_map_p" where
  "side_put_p k v [] = []"
| "side_put_p k v ((k', v') # m) =
     (if k = k' then (k', v) # m else (k', v') # side_put_p k v m)"

fun side_erase_p :: "int \<Rightarrow> side_map_p \<Rightarrow> side_map_p" where
  "side_erase_p k [] = []"
| "side_erase_p k ((k', v') # m) = (if k = k' then m else (k', v') # side_erase_p k m)"

record OrderBook_p =
  book_symbol_p :: string
  bids_p :: side_map_p
  asks_p :: side_map_p
  sequence_counter_p :: "64 word"

definition new_book_p :: "string \<Rightarrow> OrderBook_p" where
  "new_book_p smb = \<lparr>book_symbol_p = smb, bids_p = [], asks_p = [], sequence_counter_p = 0\<rparr>"

text \<open>
  \<^verbatim>\<open>add_to_side\<close>, \<^verbatim>\<open>remove_from_side\<close>, \<^verbatim>\<open>add_order\<close> and
  \<^verbatim>\<open>remove_order\<close> of the book.  The price and the side of the order are read from
  the object; \<open>add_order_p\<close> writes the sequence number to it and returns the memory.
\<close>

definition add_to_side_p :: "heap \<Rightarrow> side_map_p \<Rightarrow> addr \<Rightarrow> side_map_p" where
  "add_to_side_p h sm a =
     (case map_of sm (price (h a)) of
        None \<Rightarrow> side_emplace_p (price (h a)) (level_add_order_p h (new_level_p (price (h a))) a) sm
      | Some l \<Rightarrow> side_put_p (price (h a)) (level_add_order_p h l a) sm)"

definition remove_from_side_p :: "heap \<Rightarrow> side_map_p \<Rightarrow> addr \<Rightarrow> bool \<times> side_map_p" where
  "remove_from_side_p h sm a =
     (case map_of sm (price (h a)) of
        None \<Rightarrow> (False, sm)
      | Some l \<Rightarrow>
          (let l' = level_remove_order_p h l a
           in (True, if level_empty_p l' then side_erase_p (price (h a)) sm
                     else side_put_p (price (h a)) l' sm)))"

definition add_order_p :: "heap \<Rightarrow> OrderBook_p \<Rightarrow> addr \<Rightarrow> bool \<times> heap \<times> OrderBook_p" where
  "add_order_p h b a =
     (if symbol (h a) \<noteq> book_symbol_p b then (False, h, b)
      else
        (let sq = sequence_counter_p b + 1;
             h1 = h(a := (h a)\<lparr>sequence_number := sq\<rparr>);
             b1 = b\<lparr>sequence_counter_p := sq\<rparr>
         in if side (h1 a) = BUY then (True, h1, b1\<lparr>bids_p := add_to_side_p h1 (bids_p b1) a\<rparr>)
            else (True, h1, b1\<lparr>asks_p := add_to_side_p h1 (asks_p b1) a\<rparr>)))"

definition remove_order_p :: "heap \<Rightarrow> OrderBook_p \<Rightarrow> addr \<Rightarrow> bool \<times> OrderBook_p" where
  "remove_order_p h b a =
     (if side (h a) = BUY
      then (case remove_from_side_p h (bids_p b) a of (r, sm) \<Rightarrow> (r, b\<lparr>bids_p := sm\<rparr>))
      else (case remove_from_side_p h (asks_p b) a of (r, sm) \<Rightarrow> (r, b\<lparr>asks_p := sm\<rparr>)))"

text \<open>
  \<^verbatim>\<open>OrderBook::cancel_order\<close>.  The status is written to the object that
  \<^verbatim>\<open>find_order\<close> returned, whatever its status was; \<^verbatim>\<open>remove_order\<close> then
  searches the level again, in the written memory, for the id of that object.  The result
  is the flag of the code with the memory and the book.
\<close>

fun cancel_side_p :: "heap \<Rightarrow> side_map_p \<Rightarrow> 64 word \<Rightarrow> (heap \<times> side_map_p) option" where
  "cancel_side_p h [] i = None"
| "cancel_side_p h ((k, l) # sm) i =
     (case find_order_p h l i of
        Some x \<Rightarrow>
          (let h1 = h(x := (h x)\<lparr>status := CANCELLED\<rparr>);
               l' = level_remove_order_p h1 l x
           in Some (h1, if level_empty_p l' then sm else (k, l') # sm))
      | None \<Rightarrow>
          (case cancel_side_p h sm i of
             None \<Rightarrow> None
           | Some (h1, sm') \<Rightarrow> Some (h1, (k, l) # sm')))"

definition cancel_order_p :: "heap \<Rightarrow> OrderBook_p \<Rightarrow> 64 word \<Rightarrow> bool \<times> heap \<times> OrderBook_p" where
  "cancel_order_p h b i =
     (case cancel_side_p h (bids_p b) i of
        Some (h1, sm) \<Rightarrow> (True, h1, b\<lparr>bids_p := sm\<rparr>)
      | None \<Rightarrow>
          (case cancel_side_p h (asks_p b) i of
             Some (h1, sm) \<Rightarrow> (True, h1, b\<lparr>asks_p := sm\<rparr>)
           | None \<Rightarrow> (False, h, b)))"

text \<open>Best prices, best levels and the write through the pointer to a best level.\<close>

definition best_bid_p :: "OrderBook_p \<Rightarrow> int option" where
  "best_bid_p b = (if bids_p b = [] then None else Some (fst (last (bids_p b))))"

definition best_ask_p :: "OrderBook_p \<Rightarrow> int option" where
  "best_ask_p b = (if asks_p b = [] then None else Some (fst (hd (asks_p b))))"

definition get_best_bid_level_p :: "OrderBook_p \<Rightarrow> PriceLevel_p option" where
  "get_best_bid_level_p b = (if bids_p b = [] then None else Some (snd (last (bids_p b))))"

definition get_best_ask_level_p :: "OrderBook_p \<Rightarrow> PriceLevel_p option" where
  "get_best_ask_level_p b = (if asks_p b = [] then None else Some (snd (hd (asks_p b))))"

definition set_best_ask_level_p :: "OrderBook_p \<Rightarrow> PriceLevel_p \<Rightarrow> OrderBook_p" where
  "set_best_ask_level_p b l =
     (case asks_p b of [] \<Rightarrow> b | (k, _) # sm \<Rightarrow> b\<lparr>asks_p := (k, l) # sm\<rparr>)"

definition set_best_bid_level_p :: "OrderBook_p \<Rightarrow> PriceLevel_p \<Rightarrow> OrderBook_p" where
  "set_best_bid_level_p b l =
     (if bids_p b = [] then b
      else b\<lparr>bids_p := butlast (bids_p b) @ [(fst (last (bids_p b)), l)]\<rparr>)"

subsection \<open>The matching engine\<close>

text \<open>
  \<^verbatim>\<open>struct MatchResult\<close> with the pointer to the resting order, and the state that
  event processing reads and writes: the memory (\<open>objects\<close>) with the members of the
  engine.  \<open>order_update_log_p\<close> holds the orders as they are when the order-update
  callback is called with them.
\<close>

record MatchResult_p =
  matched_p :: bool
  match_price_p :: int
  match_quantity_p :: int
  resting_order_p :: "addr option"

definition no_match_p :: MatchResult_p where
  "no_match_p = \<lparr>matched_p = False, match_price_p = 0, match_quantity_p = 0, resting_order_p = None\<rparr>"

record MatchingEngine_p =
  objects :: heap
  engine_symbol_p :: string
  order_book_p :: OrderBook_p
  trade_id_counter_p :: "64 word"
  stats_p :: Statistics
  trade_log_p :: "Trade list"
  order_update_log_p :: "Order list"

definition new_engine_p :: "heap \<Rightarrow> string \<Rightarrow> MatchingEngine_p" where
  "new_engine_p h smb =
     \<lparr>objects = h, engine_symbol_p = smb, order_book_p = new_book_p smb, trade_id_counter_p = 0,
      stats_p = \<lparr>orders_processed = 0, trades_executed = 0, orders_cancelled = 0\<rparr>,
      trade_log_p = [], order_update_log_p = []\<rparr>"

text \<open>\<^verbatim>\<open>MatchingEngine::can_match\<close>.\<close>

definition can_match_p :: "MatchingEngine_p \<Rightarrow> addr \<Rightarrow> bool" where
  "can_match_p s a =
     (if side (objects s a) = BUY
      then (case best_ask_p (order_book_p s) of
              None \<Rightarrow> False
            | Some x \<Rightarrow> otype (objects s a) = MARKET \<or> price (objects s a) \<ge> x)
      else (case best_bid_p (order_book_p s) of
              None \<Rightarrow> False
            | Some x \<Rightarrow> otype (objects s a) = MARKET \<or> price (objects s a) \<le> x))"

text \<open>
  \<^verbatim>\<open>MatchingEngine::execute_trade\<close>: the two additions to the filled quantities, then
  the two status writes, in the order of the code.  When both pointers are one object its
  filled quantity is raised twice.
\<close>

definition execute_trade_p ::
  "MatchingEngine_p \<Rightarrow> addr \<Rightarrow> addr \<Rightarrow> int \<Rightarrow> int \<Rightarrow> MatchingEngine_p" where
  "execute_trade_p s buy_order sell_order p q =
     (let h0 = objects s;
          h1 = h0(buy_order := (h0 buy_order)\<lparr>filled_quantity := filled_quantity (h0 buy_order) + q\<rparr>);
          h2 = h1(sell_order := (h1 sell_order)\<lparr>filled_quantity := filled_quantity (h1 sell_order) + q\<rparr>);
          h3 = h2(buy_order := set_fill_status (h2 buy_order));
          h4 = h3(sell_order := set_fill_status (h3 sell_order));
          tid = trade_id_counter_p s + 1;
          trade = \<lparr>trade_id = tid, trade_symbol = engine_symbol_p s,
                   buy_order_id = order_id (h4 buy_order), sell_order_id = order_id (h4 sell_order),
                   trade_price = p, trade_quantity = q\<rparr>
      in s\<lparr>objects := h4, trade_id_counter_p := tid,
           stats_p := (stats_p s)\<lparr>trades_executed := trades_executed (stats_p s) + 1\<rparr>,
           trade_log_p := trade_log_p s @ [trade]\<rparr>)"

text \<open>
  \<^verbatim>\<open>MatchingEngine::try_match\<close>.  The resting order is the object at the front of the
  best opposite level; it is written in memory, so every entry that holds its address
  sees the write.  \<^verbatim>\<open>update_total_quantity\<close> is a write through the pointer to the
  best level, and a filled resting order is removed with \<open>remove_order_p\<close>, which
  erases one entry.  The code's last test of the level after the removal guards an empty
  block and is left out.
\<close>

definition try_match_p :: "MatchingEngine_p \<Rightarrow> addr \<Rightarrow> MatchResult_p \<times> MatchingEngine_p" where
  "try_match_p s incoming_order =
     (if side (objects s incoming_order) = BUY then
        (case get_best_ask_level_p (order_book_p s) of
           None \<Rightarrow> (no_match_p, s)
         | Some ask_level \<Rightarrow>
             if level_empty_p ask_level then (no_match_p, s)
             else if otype (objects s incoming_order) = LIMIT \<and>
                     price (objects s incoming_order) < level_price_p ask_level
             then (no_match_p, s)
             else
               (case front_order_p ask_level of
                  None \<Rightarrow> (no_match_p, s)
                | Some resting \<Rightarrow>
                    if \<not> is_active (objects s resting) then (no_match_p, s)
                    else
                      (let mp = price (objects s resting);
                           mq = min (remaining_quantity (objects s incoming_order))
                                    (remaining_quantity (objects s resting));
                           s1 = execute_trade_p s incoming_order resting mp mq;
                           b1 = set_best_ask_level_p (order_book_p s1)
                                  (update_total_quantity_p ask_level (- mq));
                           b2 = (if is_filled (objects s1 resting)
                                 then snd (remove_order_p (objects s1) b1 resting) else b1)
                       in (\<lparr>matched_p = True, match_price_p = mp, match_quantity_p = mq,
                            resting_order_p = Some resting\<rparr>,
                           s1\<lparr>order_book_p := b2\<rparr>))))
      else
        (case get_best_bid_level_p (order_book_p s) of
           None \<Rightarrow> (no_match_p, s)
         | Some bid_level \<Rightarrow>
             if level_empty_p bid_level then (no_match_p, s)
             else if otype (objects s incoming_order) = LIMIT \<and>
                     price (objects s incoming_order) > level_price_p bid_level
             then (no_match_p, s)
             else
               (case front_order_p bid_level of
                  None \<Rightarrow> (no_match_p, s)
                | Some resting \<Rightarrow>
                    if \<not> is_active (objects s resting) then (no_match_p, s)
                    else
                      (let mp = price (objects s resting);
                           mq = min (remaining_quantity (objects s incoming_order))
                                    (remaining_quantity (objects s resting));
                           s1 = execute_trade_p s resting incoming_order mp mq;
                           b1 = set_best_bid_level_p (order_book_p s1)
                                  (update_total_quantity_p bid_level (- mq));
                           b2 = (if is_filled (objects s1 resting)
                                 then snd (remove_order_p (objects s1) b1 resting) else b1)
                       in (\<lparr>matched_p = True, match_price_p = mp, match_quantity_p = mq,
                            resting_order_p = Some resting\<rparr>,
                           s1\<lparr>order_book_p := b2\<rparr>)))))"

subsection \<open>The matching loops terminate on every state\<close>

text \<open>
  The loops terminate whatever the book and the memory hold, also when objects are shared.
  When a match leaves the incoming order active and the resting order is another object,
  the resting order was filled, and every entry of the opposite side that holds it is no
  longer active.  When the incoming order is itself the resting order (it rests on the
  opposite side), it is filled unless its remaining quantity was negative, and then its
  remaining quantity is positive afterwards.  \<open>loop_measure\<close> counts the active entries
  of the opposite side twice and adds one for a negative remaining quantity.  The
  definitions up to \<open>loop_measure\<close> and the lemmas that follow are there for the two
  termination proofs; \<open>try_match_p_eq\<close> is \<open>try_match_p\<close> in one equation for both
  sides.
\<close>

definition side_addrs :: "side_map_p \<Rightarrow> addr list" where
  "side_addrs sm = concat (map (\<lambda>kl. orders_p (snd kl)) sm)"

definition book_addrs :: "OrderBook_p \<Rightarrow> addr list" where
  "book_addrs b = side_addrs (bids_p b) @ side_addrs (asks_p b)"

definition opposite_p :: "OrderSide \<Rightarrow> OrderBook_p \<Rightarrow> side_map_p" where
  "opposite_p sd b = (if sd = BUY then asks_p b else bids_p b)"

definition get_best_p :: "OrderSide \<Rightarrow> OrderBook_p \<Rightarrow> PriceLevel_p option" where
  "get_best_p sd b = (if sd = BUY then get_best_ask_level_p b else get_best_bid_level_p b)"

definition set_best_p :: "OrderSide \<Rightarrow> OrderBook_p \<Rightarrow> PriceLevel_p \<Rightarrow> OrderBook_p" where
  "set_best_p sd b l = (if sd = BUY then set_best_ask_level_p b l else set_best_bid_level_p b l)"

definition limit_blocks_p :: "Order \<Rightarrow> PriceLevel_p \<Rightarrow> bool" where
  "limit_blocks_p ord l \<longleftrightarrow>
     otype ord = LIMIT \<and>
     (if side ord = BUY then price ord < level_price_p l else price ord > level_price_p l)"

definition heap_after_trade :: "heap \<Rightarrow> addr \<Rightarrow> addr \<Rightarrow> int \<Rightarrow> heap" where
  "heap_after_trade h a x q =
     (if a = x then h(a := fill (h a) (2 * q)) else h(a := fill (h a) q, x := fill (h x) q))"

definition trade_of_p :: "MatchingEngine_p \<Rightarrow> addr \<Rightarrow> addr \<Rightarrow> int \<Rightarrow> Trade" where
  "trade_of_p s a x mq =
     \<lparr>trade_id = trade_id_counter_p s + 1, trade_symbol = engine_symbol_p s,
      buy_order_id = (if side (objects s a) = BUY then order_id (objects s a)
                      else order_id (objects s x)),
      sell_order_id = (if side (objects s a) = BUY then order_id (objects s x)
                       else order_id (objects s a)),
      trade_price = price (objects s x), trade_quantity = mq\<rparr>"

definition after_match_p ::
  "MatchingEngine_p \<Rightarrow> addr \<Rightarrow> PriceLevel_p \<Rightarrow> addr \<Rightarrow> int \<Rightarrow> MatchingEngine_p" where
  "after_match_p s a l x mq =
     (let h' = heap_after_trade (objects s) a x mq;
          b1 = set_best_p (side (objects s a)) (order_book_p s)
                 (l\<lparr>total_quantity_p := wrap64 (total_quantity_p l - mq)\<rparr>);
          b2 = (if is_filled (h' x) then snd (remove_order_p h' b1 x) else b1)
      in s\<lparr>objects := h', trade_id_counter_p := trade_id_counter_p s + 1,
           stats_p := (stats_p s)\<lparr>trades_executed := trades_executed (stats_p s) + 1\<rparr>,
           trade_log_p := trade_log_p s @ [trade_of_p s a x mq], order_book_p := b2\<rparr>)"

lemma set_fill_status_idem [simp]: "set_fill_status (set_fill_status ord) = set_fill_status ord"
  by (simp add: set_fill_status_def is_filled_def)

lemma execute_trade_p_objects:
  "objects (execute_trade_p s a x p q) = heap_after_trade (objects s) a x q"
  "objects (execute_trade_p s x a p q) = heap_after_trade (objects s) a x q"
  by (auto simp: execute_trade_p_def heap_after_trade_def Let_def fill_def fun_eq_iff
        set_fill_status_def is_filled_def)

lemma heap_after_trade_fields [simp]:
  "order_id (heap_after_trade h a x q y) = order_id (h y)"
  "side (heap_after_trade h a x q y) = side (h y)"
  "price (heap_after_trade h a x q y) = price (h y)"
  "otype (heap_after_trade h a x q y) = otype (h y)"
  "symbol (heap_after_trade h a x q y) = symbol (h y)"
  "quantity (heap_after_trade h a x q y) = quantity (h y)"
  "sequence_number (heap_after_trade h a x q y) = sequence_number (h y)"
  by (simp_all add: heap_after_trade_def fill_def set_fill_status_def)

lemma execute_trade_p_eq:
  "execute_trade_p s b sl p q =
     s\<lparr>objects := heap_after_trade (objects s) b sl q,
       trade_id_counter_p := trade_id_counter_p s + 1,
       stats_p := (stats_p s)\<lparr>trades_executed := trades_executed (stats_p s) + 1\<rparr>,
       trade_log_p := trade_log_p s @
         [\<lparr>trade_id = trade_id_counter_p s + 1, trade_symbol = engine_symbol_p s,
           buy_order_id = order_id (objects s b), sell_order_id = order_id (objects s sl),
           trade_price = p, trade_quantity = q\<rparr>]\<rparr>"
proof -
  have "objects (execute_trade_p s b sl p q) = heap_after_trade (objects s) b sl q"
    by (rule execute_trade_p_objects)
  moreover have "execute_trade_p s b sl p q =
     s\<lparr>objects := objects (execute_trade_p s b sl p q),
       trade_id_counter_p := trade_id_counter_p s + 1,
       stats_p := (stats_p s)\<lparr>trades_executed := trades_executed (stats_p s) + 1\<rparr>,
       trade_log_p := trade_log_p s @
         [\<lparr>trade_id = trade_id_counter_p s + 1, trade_symbol = engine_symbol_p s,
           buy_order_id = order_id (objects (execute_trade_p s b sl p q) b),
           sell_order_id = order_id (objects (execute_trade_p s b sl p q) sl),
           trade_price = p, trade_quantity = q\<rparr>]\<rparr>"
    by (simp add: execute_trade_p_def Let_def)
  ultimately show ?thesis by simp
qed

lemma heap_after_trade_sym: "heap_after_trade h x a q = heap_after_trade h a x q"
  by (auto simp: heap_after_trade_def fun_eq_iff)

lemma try_match_p_eq:
  "try_match_p s a =
     (case get_best_p (side (objects s a)) (order_book_p s) of
        None \<Rightarrow> (no_match_p, s)
      | Some l \<Rightarrow>
          (case orders_p l of
             [] \<Rightarrow> (no_match_p, s)
           | x # xs \<Rightarrow>
               if limit_blocks_p (objects s a) l \<or> \<not> is_active (objects s x) then (no_match_p, s)
               else
                 (let mq = min (remaining_quantity (objects s a)) (remaining_quantity (objects s x))
                  in (\<lparr>matched_p = True, match_price_p = price (objects s x),
                       match_quantity_p = mq, resting_order_p = Some x\<rparr>,
                      after_match_p s a l x mq))))"
proof (cases "side (objects s a) = BUY")
  case True
  then show ?thesis
    by (simp add: try_match_p_def get_best_p_def set_best_p_def limit_blocks_p_def
          level_empty_p_def front_order_p_def execute_trade_p_eq Let_def after_match_p_def
          trade_of_p_def update_total_quantity_p_def
        split: option.split list.split)
next
  case False
  then show ?thesis
    by (simp add: try_match_p_def get_best_p_def set_best_p_def limit_blocks_p_def
          level_empty_p_def front_order_p_def execute_trade_p_eq Let_def after_match_p_def
          trade_of_p_def update_total_quantity_p_def heap_after_trade_sym
        split: option.split list.split)
qed

lemma side_addrs_simps [simp]:
  "side_addrs [] = []"
  "side_addrs ((k, l) # sm) = orders_p l @ side_addrs sm"
  "side_addrs (sm @ sm') = side_addrs sm @ side_addrs sm'"
  by (simp_all add: side_addrs_def)

lemma filter_length_mono:
  "(\<And>y. y \<in> set zs \<Longrightarrow> P y \<Longrightarrow> Q y) \<Longrightarrow> length (filter P zs) \<le> length (filter Q zs)"
  by (induction zs) auto

lemma filter_length_strict:
  "x \<in> set zs \<Longrightarrow> Q x \<Longrightarrow> \<not> P x \<Longrightarrow> (\<And>y. y \<in> set zs \<Longrightarrow> P y \<Longrightarrow> Q y) \<Longrightarrow>
   length (filter P zs) < length (filter Q zs)"
proof (induction zs)
  case Nil
  then show ?case by simp
next
  case (Cons z zs)
  have m: "length (filter P zs) \<le> length (filter Q zs)"
    by (rule filter_length_mono) (use Cons.prems(4) in auto)
  show ?case
  proof (cases "x = z")
    case True
    with Cons.prems m show ?thesis by simp
  next
    case False
    with Cons.prems have "x \<in> set zs" by simp
    from Cons.IH[OF this Cons.prems(2,3)] Cons.prems(4)
    have "length (filter P zs) < length (filter Q zs)" by simp
    with Cons.prems(4)[of z] show ?thesis by auto
  qed
qed

lemma erase_first_p_filter:
  "length (filter P (erase_first_p h i xs)) \<le> length (filter P xs)"
  by (induction xs) auto

lemma level_remove_order_p_filter:
  "length (filter P (orders_p (level_remove_order_p h l a))) \<le> length (filter P (orders_p l))"
  by (simp add: level_remove_order_p_def erase_first_p_filter split: option.split)

lemma side_erase_p_filter:
  "length (filter P (side_addrs (side_erase_p k sm))) \<le> length (filter P (side_addrs sm))"
  by (induction sm) auto

lemma side_put_p_filter:
  "map_of sm k = Some l \<Longrightarrow>
   length (filter P (orders_p l')) \<le> length (filter P (orders_p l)) \<Longrightarrow>
   length (filter P (side_addrs (side_put_p k l' sm))) \<le> length (filter P (side_addrs sm))"
  by (induction sm) auto

lemma remove_from_side_p_filter:
  "length (filter P (side_addrs (snd (remove_from_side_p h sm a)))) \<le>
   length (filter P (side_addrs sm))"
  by (auto simp: remove_from_side_p_def Let_def side_erase_p_filter side_put_p_filter
        level_remove_order_p_filter split: option.split)

lemma remove_order_p_filter:
  "length (filter P (side_addrs (opposite_p sd (snd (remove_order_p h b a))))) \<le>
   length (filter P (side_addrs (opposite_p sd b)))"
  using remove_from_side_p_filter[of P h "bids_p b" a] remove_from_side_p_filter[of P h "asks_p b" a]
  by (auto simp: remove_order_p_def opposite_p_def split: prod.split)

lemma get_best_p_front:
  "get_best_p sd b = Some l \<Longrightarrow> orders_p l = x # xs \<Longrightarrow> x \<in> set (side_addrs (opposite_p sd b))"
  by (cases "bids_p b = []"; cases "asks_p b")
     (auto simp: get_best_p_def opposite_p_def get_best_ask_level_p_def get_best_bid_level_p_def
        side_addrs_def split: if_splits intro!: bexI[where x = "last (bids_p b)"])

lemma set_best_p_addrs:
  assumes "get_best_p sd b = Some l" "orders_p l' = orders_p l"
  shows "side_addrs (opposite_p sd (set_best_p sd b l')) = side_addrs (opposite_p sd b)"
proof (cases "sd = BUY")
  case True
  with assms show ?thesis
    by (cases "asks_p b")
       (auto simp: get_best_p_def set_best_p_def opposite_p_def get_best_ask_level_p_def
          set_best_ask_level_p_def)
next
  case False
  with assms have ne: "bids_p b \<noteq> []" and l: "l = snd (last (bids_p b))"
    by (auto simp: get_best_p_def get_best_bid_level_p_def split: if_splits)
  have "side_addrs (butlast (bids_p b) @ [last (bids_p b)]) = side_addrs (bids_p b)"
    using ne by simp
  then have "side_addrs (bids_p b) = side_addrs (butlast (bids_p b)) @ orders_p l"
    unfolding side_addrs_simps(3) by (simp add: l side_addrs_def)
  with False ne assms(2) show ?thesis
    by (simp add: set_best_p_def opposite_p_def set_best_bid_level_p_def side_addrs_def)
qed

definition loop_measure :: "MatchingEngine_p \<Rightarrow> addr \<Rightarrow> nat" where
  "loop_measure s a =
     (if is_active (objects s a)
      then 2 * length (filter (\<lambda>y. is_active (objects s y))
                 (side_addrs (opposite_p (side (objects s a)) (order_book_p s)))) +
           (if remaining_quantity (objects s a) < 0 then 1 else 0) + 1
      else 0)"

lemma try_match_p_unmatched: "try_match_p s a = (r, s') \<Longrightarrow> \<not> matched_p r \<Longrightarrow> s' = s"
  by (auto simp: try_match_p_eq Let_def no_match_p_def split: option.splits list.splits if_splits)

lemma try_match_p_matchedE:
  assumes "try_match_p s a = (r, s')" "matched_p r"
  obtains l x xs mq where
    "get_best_p (side (objects s a)) (order_book_p s) = Some l" "orders_p l = x # xs"
    "is_active (objects s x)" "\<not> limit_blocks_p (objects s a) l"
    "mq = min (remaining_quantity (objects s a)) (remaining_quantity (objects s x))"
    "r = \<lparr>matched_p = True, match_price_p = price (objects s x),
          match_quantity_p = mq, resting_order_p = Some x\<rparr>"
    "s' = after_match_p s a l x mq"
proof -
  from assms obtain l where gb: "get_best_p (side (objects s a)) (order_book_p s) = Some l"
    by (cases "get_best_p (side (objects s a)) (order_book_p s)")
       (auto simp: try_match_p_eq no_match_p_def)
  from assms gb obtain x xs where os: "orders_p l = x # xs"
    by (cases "orders_p l") (auto simp: try_match_p_eq no_match_p_def)
  from assms gb os have c: "\<not> limit_blocks_p (objects s a) l" "is_active (objects s x)"
    by (auto simp: try_match_p_eq no_match_p_def split: if_splits)
  define mq where "mq = min (remaining_quantity (objects s a)) (remaining_quantity (objects s x))"
  from assms(1) gb os c have
    "r = \<lparr>matched_p = True, match_price_p = price (objects s x),
          match_quantity_p = mq, resting_order_p = Some x\<rparr>"
    "s' = after_match_p s a l x mq"
    by (simp_all add: try_match_p_eq Let_def mq_def)
  with gb os c(2) c(1) mq_def show thesis by (rule that[of l x xs mq])
qed

lemma try_match_p_progress:
  assumes "try_match_p s a = (r, s')" "matched_p r" "is_active (objects s a)"
  shows "loop_measure s' a < loop_measure s a"
  using assms(1,2)
proof (rule try_match_p_matchedE)
  fix l x xs mq
  assume gb: "get_best_p (side (objects s a)) (order_book_p s) = Some l"
    and os: "orders_p l = x # xs" and ax: "is_active (objects s x)"
    and mq: "mq = min (remaining_quantity (objects s a)) (remaining_quantity (objects s x))"
    and s': "s' = after_match_p s a l x mq"
  define h where "h = objects s"
  define sd where "sd = side (h a)"
  define h' where "h' = heap_after_trade h a x mq"
  define b1 where "b1 = set_best_p sd (order_book_p s) (l\<lparr>total_quantity_p := wrap64 (total_quantity_p l - mq)\<rparr>)"
  define opp where "opp = side_addrs (opposite_p sd (order_book_p s))"
  have o': "objects s' = h'" by (simp add: s' after_match_p_def Let_def h'_def h_def)
  have b': "order_book_p s' = (if is_filled (h' x) then snd (remove_order_p h' b1 x) else b1)"
    by (simp add: s' after_match_p_def Let_def h'_def h_def b1_def sd_def)
  have sd': "side (h' a) = sd" by (simp add: h'_def sd_def)
  have xin: "x \<in> set opp" using get_best_p_front[OF gb os] by (simp add: opp_def sd_def h_def)
  have a1: "side_addrs (opposite_p sd b1) = opp"
    unfolding b1_def opp_def using gb by (intro set_best_p_addrs[where l = l]) (simp_all add: sd_def h_def)
  have le1: "length (filter (\<lambda>y. is_active (h' y)) (side_addrs (opposite_p sd (order_book_p s')))) \<le>
      length (filter (\<lambda>y. is_active (h' y)) opp)"
    unfolding b' using remove_order_p_filter[of "\<lambda>y. is_active (h' y)" sd h' b1 x] a1 by auto
  have act: "is_active (h a)" "is_active (h x)" using assms(3) ax by (simp_all add: h_def)
  have mono: "\<And>y. is_active (h' y) \<Longrightarrow> is_active (h y)"
    using act by (auto simp: h'_def heap_after_trade_def split: if_splits)
  show ?thesis
  proof (cases "is_active (h' a)")
    case False
    with assms(3) show ?thesis by (simp add: loop_measure_def o')
  next
    case True
    show ?thesis
    proof (cases "a = x")
      case ne: False
      from True ne have "\<not> is_active (h' x)"
        using mq
        by (auto simp: h'_def heap_after_trade_def fill_def set_fill_status_def is_active_def
              is_filled_def remaining_quantity_def h_def min_def split: if_splits)
      from filter_length_strict[where P = "\<lambda>y. is_active (h' y)" and Q = "\<lambda>y. is_active (h y)",
          OF xin act(2) this] mono
      have "length (filter (\<lambda>y. is_active (h' y)) opp) < length (filter (\<lambda>y. is_active (h y)) opp)"
        by blast
      with le1 True assms(3) show ?thesis
        by (simp add: loop_measure_def o' sd' h_def[symmetric] sd_def[symmetric] opp_def[symmetric])
    next
      case eq: True
      have le2: "length (filter (\<lambda>y. is_active (h' y)) opp) \<le> length (filter (\<lambda>y. is_active (h y)) opp)"
        by (rule filter_length_mono) (rule mono)
      from True eq mq have "remaining_quantity (h a) < 0 \<and> \<not> remaining_quantity (h' a) < 0"
        by (auto simp: h'_def heap_after_trade_def fill_def set_fill_status_def is_active_def
              is_filled_def remaining_quantity_def h_def split: if_splits)
      with le1 le2 True assms(3) show ?thesis
        by (simp add: loop_measure_def o' sd' h_def[symmetric] sd_def[symmetric] opp_def[symmetric])
    qed
  qed
qed

text \<open>The loops of \<^verbatim>\<open>match_limit_order\<close> and \<^verbatim>\<open>match_market_order\<close>.\<close>

function limit_loop_p :: "MatchingEngine_p \<Rightarrow> addr \<Rightarrow> MatchingEngine_p" where
  "limit_loop_p s a =
     (if is_active (objects s a) \<and> can_match_p s a then
        (case try_match_p s a of
           (r, s') \<Rightarrow> if \<not> matched_p r then s' else limit_loop_p s' a)
      else s)"
  by pat_completeness auto

termination
  apply (relation "measure (\<lambda>(s, a). loop_measure s a)")
   apply simp
  apply (auto dest: try_match_p_progress[OF sym])
  done

function market_loop_p :: "MatchingEngine_p \<Rightarrow> addr \<Rightarrow> MatchingEngine_p" where
  "market_loop_p s a =
     (if is_active (objects s a) \<and> can_match_p s a then
        (case try_match_p s a of
           (r, s') \<Rightarrow>
             if \<not> matched_p r
             then s'\<lparr>objects := (objects s')(a := (objects s' a)\<lparr>status := REJECTED\<rparr>)\<rparr>
             else market_loop_p s' a)
      else s)"
  by pat_completeness auto

termination
  apply (relation "measure (\<lambda>(s, a). loop_measure s a)")
   apply simp
  apply (auto dest: try_match_p_progress[OF sym])
  done

declare limit_loop_p.simps [simp del]

declare market_loop_p.simps [simp del]

subsection \<open>Processing events\<close>

text \<open>
  \<^verbatim>\<open>match_limit_order\<close>, \<^verbatim>\<open>match_market_order\<close>, \<^verbatim>\<open>process_new_order\<close>,
  \<^verbatim>\<open>process_cancel_order\<close> and \<^verbatim>\<open>process_replace_order\<close>.  An event carries the
  address of its order.
\<close>

definition match_limit_order_p :: "MatchingEngine_p \<Rightarrow> addr \<Rightarrow> MatchingEngine_p" where
  "match_limit_order_p s a =
     (let s1 = limit_loop_p s a
      in if is_active (objects s1 a) \<and> remaining_quantity (objects s1 a) > 0
         then (case add_order_p (objects s1) (order_book_p s1) a of
                 (_, h, b) \<Rightarrow> s1\<lparr>objects := h, order_book_p := b\<rparr>)
         else s1)"

definition match_market_order_p :: "MatchingEngine_p \<Rightarrow> addr \<Rightarrow> MatchingEngine_p" where
  "match_market_order_p s a =
     (let s1 = market_loop_p s a
      in if remaining_quantity (objects s1 a) > 0
         then s1\<lparr>objects := (objects s1)(a := (objects s1 a)\<lparr>status := REJECTED\<rparr>)\<rparr>
         else s1)"

definition process_new_order_p :: "MatchingEngine_p \<Rightarrow> addr \<Rightarrow> MatchingEngine_p" where
  "process_new_order_p s a =
     (let s0 = s\<lparr>stats_p := (stats_p s)\<lparr>orders_processed := orders_processed (stats_p s) + 1\<rparr>\<rparr>;
          s1 = (if otype (objects s0 a) = MARKET then match_market_order_p s0 a
                else match_limit_order_p s0 a)
      in s1\<lparr>order_update_log_p := order_update_log_p s1 @ [objects s1 a]\<rparr>)"

definition process_cancel_order_p :: "MatchingEngine_p \<Rightarrow> 64 word \<Rightarrow> MatchingEngine_p" where
  "process_cancel_order_p s i =
     (case cancel_order_p (objects s) (order_book_p s) i of
        (True, h, b) \<Rightarrow>
          s\<lparr>objects := h, order_book_p := b,
            stats_p := (stats_p s)\<lparr>orders_cancelled := orders_cancelled (stats_p s) + 1\<rparr>\<rparr>
      | (False, h, b) \<Rightarrow> s\<lparr>objects := h, order_book_p := b\<rparr>)"

definition process_replace_order_p ::
  "MatchingEngine_p \<Rightarrow> 64 word \<Rightarrow> addr \<Rightarrow> MatchingEngine_p" where
  "process_replace_order_p s old_order_id new_ord =
     process_new_order_p (process_cancel_order_p s old_order_id) new_ord"

datatype OrderEvent_p =
  NEW_ORDER_p addr
| CANCEL_ORDER_p "64 word"
| REPLACE_ORDER_p "64 word" addr
| SHUTDOWN_p

fun process_event_p :: "MatchingEngine_p \<Rightarrow> OrderEvent_p \<Rightarrow> MatchingEngine_p" where
  "process_event_p s (NEW_ORDER_p a) = process_new_order_p s a"
| "process_event_p s (CANCEL_ORDER_p i) = process_cancel_order_p s i"
| "process_event_p s (REPLACE_ORDER_p i a) = process_replace_order_p s i a"
| "process_event_p s SHUTDOWN_p = s"

text \<open>The engine after a sequence of events, processed in order.\<close>

definition run_events_p :: "MatchingEngine_p \<Rightarrow> OrderEvent_p list \<Rightarrow> MatchingEngine_p" where
  "run_events_p s evs = foldl process_event_p s evs"

section \<open>Notions for the statements and the proofs\<close>

text \<open>
  Everything above is the program.  The definitions of this section are not in the source:
  they are the vocabulary of the lemmas and theorems below.
\<close>

subsection \<open>The parts of a match\<close>

text \<open>
  \<open>after_trade\<close> is what \<open>execute_trade\<close> does to the engine, \<open>get_best\<close> and
  \<open>set_best\<close> read and write the best level opposite to an incoming side, and
  \<open>book_after_match\<close> is the book after the level update and the removal of a filled
  resting order.  With them and \<open>fill\<close>, \<open>try_match\<close> has one equation for both
  sides (\<open>try_match_eq\<close>).
\<close>

definition after_trade :: "MatchingEngine \<Rightarrow> Trade \<Rightarrow> OrderBook \<Rightarrow> MatchingEngine" where
  "after_trade e t b =
     e\<lparr>trade_id_counter := trade_id t,
       stats := (stats e)\<lparr>trades_executed := trades_executed (stats e) + 1\<rparr>,
       trade_log := trade_log e @ [t], order_book := b\<rparr>"

definition get_best :: "OrderSide \<Rightarrow> OrderBook \<Rightarrow> PriceLevel option" where
  "get_best sd b = (if sd = BUY then get_best_ask_level b else get_best_bid_level b)"

definition set_best :: "OrderSide \<Rightarrow> OrderBook \<Rightarrow> PriceLevel \<Rightarrow> OrderBook" where
  "set_best sd b l = (if sd = BUY then set_best_ask_level b l else set_best_bid_level b l)"

definition limit_blocks :: "Order \<Rightarrow> PriceLevel \<Rightarrow> bool" where
  "limit_blocks ord l \<longleftrightarrow>
     otype ord = LIMIT \<and>
     (if side ord = BUY then price ord < level_price l else price ord > level_price l)"

definition trade_of :: "MatchingEngine \<Rightarrow> Order \<Rightarrow> Order \<Rightarrow> int \<Rightarrow> Trade" where
  "trade_of e ord rst mq =
     \<lparr>trade_id = trade_id_counter e + 1, trade_symbol = engine_symbol e,
      buy_order_id = (if side ord = BUY then order_id ord else order_id rst),
      sell_order_id = (if side ord = BUY then order_id rst else order_id ord),
      trade_price = price rst, trade_quantity = mq\<rparr>"

definition book_after_match ::
  "OrderSide \<Rightarrow> OrderBook \<Rightarrow> PriceLevel \<Rightarrow> Order \<Rightarrow> Order list \<Rightarrow> int \<Rightarrow> OrderBook" where
  "book_after_match sd b l rst' xs mq =
     (let b1 = set_best sd b (l\<lparr>orders := rst' # xs, total_quantity := total_quantity l - mq\<rparr>)
      in if is_filled rst' then snd (remove_order b1 rst') else b1)"

subsection \<open>Invariants\<close>

text \<open>The resting orders of a book in the order in which \<open>cancel_order\<close> searches them.\<close>

definition book_orders :: "OrderBook \<Rightarrow> Order list" where
  "book_orders b = level_orders (bids b) @ level_orders (asks b)"

text \<open>
  \<open>same_frame x y\<close>: from the order and engine \<open>x\<close> to the order and engine \<open>y\<close>,
  nothing changed but the book's two sides, the trades (log, counter and count) and the
  order's filled quantity and status.
\<close>

definition same_frame :: "Order \<times> MatchingEngine \<Rightarrow> Order \<times> MatchingEngine \<Rightarrow> bool" where
  "same_frame x y \<longleftrightarrow>
     engine_symbol (snd y) = engine_symbol (snd x) \<and>
     orders_processed (stats (snd y)) = orders_processed (stats (snd x)) \<and>
     orders_cancelled (stats (snd y)) = orders_cancelled (stats (snd x)) \<and>
     order_update_log (snd y) = order_update_log (snd x) \<and>
     book_symbol (order_book (snd y)) = book_symbol (order_book (snd x)) \<and>
     sequence_counter (order_book (snd y)) = sequence_counter (order_book (snd x)) \<and>
     side (fst y) = side (fst x) \<and> otype (fst y) = otype (fst x) \<and>
     price (fst y) = price (fst x) \<and> order_id (fst y) = order_id (fst x) \<and>
     symbol (fst y) = symbol (fst x) \<and> quantity (fst y) = quantity (fst x) \<and>
     sequence_number (fst y) = sequence_number (fst x)"

text \<open>
  A level is well formed for side \<open>sd\<close> and key \<open>k\<close> when its price is the key, its
  total is the sum of the remaining quantities of its orders, and each of its orders has
  the key as price and \<open>sd\<close> as side (\<open>level_weak\<close>); \<open>level_ok\<close> adds that the level
  holds an order.  A side is well formed when its keys ascend strictly, as the keys of a
  \<^verbatim>\<open>std::map\<close> do, and each of its levels is \<open>level_ok\<close>.
\<close>

definition level_weak :: "OrderSide \<Rightarrow> int \<Rightarrow> PriceLevel \<Rightarrow> bool" where
  "level_weak sd k l \<longleftrightarrow>
     level_price l = k \<and>
     total_quantity l = sum_list (map remaining_quantity (orders l)) \<and>
     list_all (\<lambda>x. price x = k \<and> side x = sd) (orders l)"

definition level_ok :: "OrderSide \<Rightarrow> int \<Rightarrow> PriceLevel \<Rightarrow> bool" where
  "level_ok sd k l \<longleftrightarrow> level_weak sd k l \<and> orders l \<noteq> []"

definition side_ok :: "OrderSide \<Rightarrow> side_map \<Rightarrow> bool" where
  "side_ok sd sm \<longleftrightarrow>
     sorted_wrt (<) (map fst sm) \<and> list_all (\<lambda>kl. level_ok sd (fst kl) (snd kl)) sm"

definition book_ok :: "OrderBook \<Rightarrow> bool" where
  "book_ok b \<longleftrightarrow> side_ok BUY (bids b) \<and> side_ok SELL (asks b)"

definition resting_active :: "OrderBook \<Rightarrow> bool" where
  "resting_active b \<longleftrightarrow> list_all is_active (book_orders b)"

definition other_side :: "OrderSide \<Rightarrow> OrderSide" where
  "other_side sd = (if sd = BUY then SELL else BUY)"

text \<open>
  The side opposite to an incoming order as \<open>pre @ (k, l) # post\<close>, where \<open>(k, l)\<close> is
  the best entry: \<open>pre\<close> is empty for the asks and \<open>post\<close> is empty for the bids.
\<close>

definition with_opposite :: "OrderSide \<Rightarrow> OrderBook \<Rightarrow> side_map \<Rightarrow> OrderBook" where
  "with_opposite sd b sm = (if sd = BUY then b\<lparr>asks := sm\<rparr> else b\<lparr>bids := sm\<rparr>)"

definition own_side :: "OrderSide \<Rightarrow> OrderBook \<Rightarrow> side_map" where
  "own_side sd b = (if sd = BUY then bids b else asks b)"

text \<open>
  \<open>no_cross\<close>: every bid price is below every ask price.  \<open>side_after_match\<close> is the
  opposite side after a match with the front order \<open>rst\<close> of the best level \<open>l\<close>, written
  to \<open>rst'\<close>, with \<open>xs\<close> the orders behind it.  \<open>engine_inv\<close> is the invariant of the
  engine: a fresh engine has it and every event keeps it.
\<close>

definition no_cross :: "OrderBook \<Rightarrow> bool" where
  "no_cross b \<longleftrightarrow> (\<forall>kb\<in>fst ` set (bids b). \<forall>ka\<in>fst ` set (asks b). kb < ka)"

definition side_after_match ::
  "side_map \<Rightarrow> int \<Rightarrow> PriceLevel \<Rightarrow> side_map \<Rightarrow> Order \<Rightarrow> Order list \<Rightarrow> int \<Rightarrow> side_map" where
  "side_after_match pre k l post rst' xs mq =
     (if is_filled rst' then
        (if xs = [] then pre @ post
         else pre @ (k, l\<lparr>orders := xs,
                 total_quantity := total_quantity l - mq - remaining_quantity rst'\<rparr>) # post)
      else pre @ (k, l\<lparr>orders := rst' # xs, total_quantity := total_quantity l - mq\<rparr>) # post)"

definition engine_inv :: "MatchingEngine \<Rightarrow> bool" where
  "engine_inv e \<longleftrightarrow>
     book_ok (order_book e) \<and> resting_active (order_book e) \<and> no_cross (order_book e)"

subsection \<open>The properties claimed\<close>

text \<open>
  \<open>uncrossed\<close>: when a best bid and a best ask exist, the best bid is below the best ask.
\<close>

definition uncrossed :: "OrderBook \<Rightarrow> bool" where
  "uncrossed b \<longleftrightarrow>
     (case best_bid b of
        None \<Rightarrow> True
      | Some x \<Rightarrow> (case best_ask b of None \<Rightarrow> True | Some y \<Rightarrow> x < y))"

text \<open>The front order of the best level opposite to an incoming order, as the code reads it.\<close>

definition resting_front :: "OrderBook \<Rightarrow> Order \<Rightarrow> Order option" where
  "resting_front b incoming =
     (case (if side incoming = BUY then get_best_ask_level b else get_best_bid_level b) of
        None \<Rightarrow> None
      | Some l \<Rightarrow> front_order l)"

text \<open>
  The resting orders that an incoming order of side \<open>sd\<close> can meet, in priority order:
  the asks by ascending price for a buyer, the bids by descending price for a seller, each
  level oldest first.  \<open>resting_id\<close> is the id of the resting order in a trade made by an
  incoming order of side \<open>sd\<close>.
\<close>

definition priority_queue :: "OrderSide \<Rightarrow> OrderBook \<Rightarrow> Order list" where
  "priority_queue sd b = (if sd = BUY then level_orders (asks b) else level_orders (rev (bids b)))"

definition resting_id :: "OrderSide \<Rightarrow> Trade \<Rightarrow> 64 word" where
  "resting_id sd t = (if sd = BUY then sell_order_id t else buy_order_id t)"

text \<open>
  \<open>served_in_order e ord e'\<close>: the trades that \<open>e'\<close> has beyond those of \<open>e\<close> name, in
  their order, an initial segment of the priority queue that \<open>ord\<close> found in \<open>e\<close>.
  \<open>loop_inv\<close> is the invariant of the matching loops that proves it.
\<close>

definition served_in_order :: "MatchingEngine \<Rightarrow> Order \<Rightarrow> MatchingEngine \<Rightarrow> bool" where
  "served_in_order e ord e' \<longleftrightarrow>
     (\<exists>ts zs. trade_log e' = trade_log e @ ts \<and>
        map order_id (priority_queue (side ord) (order_book e)) =
          map (resting_id (side ord)) ts @ zs)"

definition loop_inv :: "MatchingEngine \<Rightarrow> Order \<Rightarrow> Order \<Rightarrow> MatchingEngine \<Rightarrow> bool" where
  "loop_inv e ord ord1 e1 \<longleftrightarrow>
     book_ok (order_book e1) \<and> side ord1 = side ord \<and>
     (\<exists>ts. trade_log e1 = trade_log e @ ts \<and>
        (\<exists>zs. map order_id (priority_queue (side ord) (order_book e)) =
               map (resting_id (side ord)) ts @ zs) \<and>
        (is_active ord1 \<longrightarrow>
           map order_id (priority_queue (side ord) (order_book e)) =
             map (resting_id (side ord)) ts @
             map order_id (priority_queue (side ord) (order_book e1))))"

text \<open>
  \<open>dag_edge\<close> is the transition graph of the specification:
  NEW to each of the other four, PARTIALLY_FILLED to FILLED and to CANCELLED.
  \<open>status_step\<close> is what a write of the engine does to a status: it leaves it, follows
  an edge of that graph, or goes from PARTIALLY_FILLED to REJECTED.
\<close>

fun dag_edge :: "OrderStatus \<Rightarrow> OrderStatus \<Rightarrow> bool" where
  "dag_edge NEW t = (t \<noteq> NEW)"
| "dag_edge PARTIALLY_FILLED t = (t = FILLED \<or> t = CANCELLED)"
| "dag_edge FILLED t = False"
| "dag_edge CANCELLED t = False"
| "dag_edge REJECTED t = False"

definition status_step :: "OrderStatus \<Rightarrow> OrderStatus \<Rightarrow> bool" where
  "status_step s t \<longleftrightarrow> s = t \<or> dag_edge s t \<or> (s = PARTIALLY_FILLED \<and> t = REJECTED)"

text \<open>
  The state of a queue that the constructor and the two operations produce: both indices
  below \<open>Size\<close> and a buffer of \<open>Size\<close> slots.  \<open>queue_contents\<close> is the list of the
  events that are stored and not yet read, oldest first.
\<close>

definition queue_inv :: "nat \<Rightarrow> 'a LockFreeQueue \<Rightarrow> bool" where
  "queue_inv Size q \<longleftrightarrow> head q < Size \<and> tail q < Size \<and> length (buffer q) = Size"

definition queue_length :: "nat \<Rightarrow> 'a LockFreeQueue \<Rightarrow> nat" where
  "queue_length Size q = (tail q + Size - head q) mod Size"

definition queue_contents :: "nat \<Rightarrow> 'a LockFreeQueue \<Rightarrow> 'a list" where
  "queue_contents Size q =
     map (\<lambda>j. buffer q ! ((head q + j) mod Size)) [0..<queue_length Size q]"


definition engine_C :: MatchingEngine where
  "engine_C = run_events (new_engine ''AAPL'')
     [NEW_ORDER (new_order 1 ''AAPL'' SELL LIMIT 15100 100)]"

definition engine_D :: MatchingEngine where
  "engine_D = run_events (new_engine ''AAPL'')
     [NEW_ORDER (new_order 1 ''AAPL'' SELL LIMIT 15000 100),
      NEW_ORDER (new_order 2 ''AAPL'' SELL LIMIT 15000 100)]"

subsection \<open>The two embeddings, related\<close>

text \<open>
  \<open>level_rel h pl l\<close>: the level \<open>pl\<close> of the second embedding, read through the
  memory \<open>h\<close>, is the level \<open>l\<close> of the first: the same price, the orders of \<open>l\<close>
  are the objects at the addresses of \<open>pl\<close>, and the total stored in \<open>pl\<close> is the
  total of \<open>l\<close> wrapped to 64 bits.  \<open>side_rel\<close>, \<open>book_rel\<close> and
  \<open>engine_rel\<close> extend it to sides (entry by entry, with the same keys), books and
  engine states, whose other members are equal.
\<close>

definition level_rel :: "heap \<Rightarrow> PriceLevel_p \<Rightarrow> PriceLevel \<Rightarrow> bool" where
  "level_rel h pl l \<longleftrightarrow>
     level_price l = level_price_p pl \<and> orders l = map h (orders_p pl) \<and>
     total_quantity_p pl = wrap64 (total_quantity l)"

definition side_rel :: "heap \<Rightarrow> side_map_p \<Rightarrow> side_map \<Rightarrow> bool" where
  "side_rel h psm sm \<longleftrightarrow>
     list_all2 (\<lambda>x y. fst x = fst y \<and> level_rel h (snd x) (snd y)) psm sm"

definition book_rel :: "heap \<Rightarrow> OrderBook_p \<Rightarrow> OrderBook \<Rightarrow> bool" where
  "book_rel h pb b \<longleftrightarrow>
     book_symbol b = book_symbol_p pb \<and> sequence_counter b = sequence_counter_p pb \<and>
     side_rel h (bids_p pb) (bids b) \<and> side_rel h (asks_p pb) (asks b)"

definition engine_rel :: "MatchingEngine_p \<Rightarrow> MatchingEngine \<Rightarrow> bool" where
  "engine_rel s e \<longleftrightarrow>
     book_rel (objects s) (order_book_p s) (order_book e) \<and>
     engine_symbol e = engine_symbol_p s \<and> trade_id_counter e = trade_id_counter_p s \<and>
     stats e = stats_p s \<and> trade_log e = trade_log_p s \<and>
     order_update_log e = order_update_log_p s"

text \<open>
  What the simulation lemmas conclude of the state \<open>s1\<close> of the second embedding and
  the result \<open>x\<close> (the written order and the engine) of the first, after both have
  processed the object at \<open>a\<close>: the states are related, the object at \<open>a\<close> is the
  written order and no address rests twice; \<open>sim_post\<close> adds that \<open>a\<close> still does
  not rest in the book.
\<close>

definition sim_post :: "MatchingEngine_p \<Rightarrow> addr \<Rightarrow> MatchingEngine_p \<Rightarrow> Order \<times> MatchingEngine \<Rightarrow> bool" where
  "sim_post s a s1 x \<longleftrightarrow>
     engine_rel s1 (snd x) \<and> objects s1 a = fst x \<and>
     distinct (book_addrs (order_book_p s1)) \<and> a \<notin> set (book_addrs (order_book_p s1))"

definition sim_done :: "addr \<Rightarrow> MatchingEngine_p \<Rightarrow> Order \<times> MatchingEngine \<Rightarrow> bool" where
  "sim_done a s1 x \<longleftrightarrow>
     engine_rel s1 (snd x) \<and> objects s1 a = fst x \<and> distinct (book_addrs (order_book_p s1))"

text \<open>
  \<open>fresh_event s ev\<close>: the order object that the event carries does not rest in the
  book when the processing of that order starts (for a replace: after its cancel).
  \<open>fresh_run s evs\<close>: each event of the sequence is fresh in the state in which it is
  processed.
\<close>

fun fresh_event :: "MatchingEngine_p \<Rightarrow> OrderEvent_p \<Rightarrow> bool" where
  "fresh_event s (NEW_ORDER_p a) \<longleftrightarrow> a \<notin> set (book_addrs (order_book_p s))"
| "fresh_event s (CANCEL_ORDER_p i) \<longleftrightarrow> True"
| "fresh_event s (REPLACE_ORDER_p i a) \<longleftrightarrow>
     a \<notin> set (book_addrs (order_book_p (process_cancel_order_p s i)))"
| "fresh_event s SHUTDOWN_p \<longleftrightarrow> True"

fun fresh_run :: "MatchingEngine_p \<Rightarrow> OrderEvent_p list \<Rightarrow> bool" where
  "fresh_run s [] \<longleftrightarrow> True"
| "fresh_run s (ev # evs) \<longleftrightarrow> fresh_event s ev \<and> fresh_run (process_event_p s ev) evs"

subsection \<open>The invariant on shared objects\<close>

text \<open>
  \<open>level_sum\<close> is the sum of the remaining quantities of the orders of a level.
  \<open>abs_book h pb\<close> is the book \<open>pb\<close> read through the memory \<open>h\<close> as a book of
  the first embedding, each total being that sum.  \<open>totals_wrapped\<close>: the total stored
  in each level is the sum wrapped to 64 bits.  \<open>book_inv_p\<close> is the invariant of the
  book: no address rests twice, the totals are the wrapped sums, and the book read through
  the memory is well formed (\<open>book_ok\<close>).  \<open>engine_inv_p\<close> adds that the resting
  orders are active and that no bid key reaches an ask key; a fresh engine has it and
  every fresh event keeps it.
\<close>

definition level_sum :: "heap \<Rightarrow> PriceLevel_p \<Rightarrow> int" where
  "level_sum h pl = sum_list (map (\<lambda>x. remaining_quantity (h x)) (orders_p pl))"

definition abs_level :: "heap \<Rightarrow> PriceLevel_p \<Rightarrow> PriceLevel" where
  "abs_level h pl =
     \<lparr>level_price = level_price_p pl, total_quantity = level_sum h pl,
      orders = map h (orders_p pl)\<rparr>"

definition abs_side :: "heap \<Rightarrow> side_map_p \<Rightarrow> side_map" where
  "abs_side h psm = map (\<lambda>kl. (fst kl, abs_level h (snd kl))) psm"

definition abs_book :: "heap \<Rightarrow> OrderBook_p \<Rightarrow> OrderBook" where
  "abs_book h pb =
     \<lparr>book_symbol = book_symbol_p pb, bids = abs_side h (bids_p pb),
      asks = abs_side h (asks_p pb), sequence_counter = sequence_counter_p pb\<rparr>"

definition abs_engine :: "MatchingEngine_p \<Rightarrow> MatchingEngine" where
  "abs_engine s =
     \<lparr>engine_symbol = engine_symbol_p s, order_book = abs_book (objects s) (order_book_p s),
      trade_id_counter = trade_id_counter_p s, stats = stats_p s, trade_log = trade_log_p s,
      order_update_log = order_update_log_p s\<rparr>"

definition totals_wrapped :: "heap \<Rightarrow> OrderBook_p \<Rightarrow> bool" where
  "totals_wrapped h pb \<longleftrightarrow>
     list_all (\<lambda>kl. total_quantity_p (snd kl) = wrap64 (level_sum h (snd kl)))
       (bids_p pb @ asks_p pb)"

definition book_inv_p :: "heap \<Rightarrow> OrderBook_p \<Rightarrow> bool" where
  "book_inv_p h pb \<longleftrightarrow>
     distinct (book_addrs pb) \<and> totals_wrapped h pb \<and> book_ok (abs_book h pb)"

definition engine_inv_p :: "MatchingEngine_p \<Rightarrow> bool" where
  "engine_inv_p s \<longleftrightarrow>
     book_inv_p (objects s) (order_book_p s) \<and>
     resting_active (abs_book (objects s) (order_book_p s)) \<and>
     no_cross (abs_book (objects s) (order_book_p s))"

text \<open>
  The properties claimed of the book.  \<open>uncrossed_p\<close>: when a best bid and a best ask
  exist, the best bid is below the best ask.  \<open>levels_exact\<close>: no level of either side
  is empty and the total of each level is the sum of the remaining quantities of its
  orders.  \<open>levels_sound_p\<close> is the same with the sum wrapped to 64 bits, and
  \<open>sums_in_int64\<close> says that each of these sums is in the 64-bit range.
\<close>

definition uncrossed_p :: "OrderBook_p \<Rightarrow> bool" where
  "uncrossed_p b \<longleftrightarrow>
     (case best_bid_p b of
        None \<Rightarrow> True
      | Some x \<Rightarrow> (case best_ask_p b of None \<Rightarrow> True | Some y \<Rightarrow> x < y))"


definition levels_sound_p :: "heap \<Rightarrow> OrderBook_p \<Rightarrow> bool" where
  "levels_sound_p h pb \<longleftrightarrow>
     list_all (\<lambda>kl. \<not> level_empty_p (snd kl) \<and>
                  total_quantity_p (snd kl) = wrap64 (level_sum h (snd kl)))
       (bids_p pb @ asks_p pb)"



text \<open>
  \<open>status_mono h h'\<close>: from the memory \<open>h\<close> to the memory \<open>h'\<close> the status of
  every object is left alone or follows \<open>status_step\<close>.  An order is \<open>settled\<close>
  when it is active, REJECTED, or FILLED with nothing remaining.  \<open>loop_status_inv\<close>
  is the invariant of the two loops that proves the status claim.
\<close>

definition status_mono :: "heap \<Rightarrow> heap \<Rightarrow> bool" where
  "status_mono h h' \<longleftrightarrow> (\<forall>y. status_step (status (h y)) (status (h' y)))"



text \<open>
  Memories and states for the examples.  \<open>heap_of\<close> is the memory given by a list of
  addresses with their objects (every other address holds an empty order).  In
  \<open>engine_twice\<close> the object at address 1 has been submitted twice.
\<close>

definition heap_of :: "(addr \<times> Order) list \<Rightarrow> heap" where
  "heap_of xs = (\<lambda>a. case map_of xs a of None \<Rightarrow> new_order 0 [] BUY LIMIT 0 0 | Some ord \<Rightarrow> ord)"

definition heap_A :: heap where
  "heap_A = heap_of
     [(1, new_order 1 ''AAPL'' BUY LIMIT 15000 100),
      (2, new_order 2 ''AAPL'' SELL LIMIT 15000 150),
      (3, new_order 3 ''AAPL'' SELL LIMIT 15000 100)]"

definition engine_twice :: MatchingEngine_p where
  "engine_twice = run_events_p (new_engine_p heap_A ''AAPL'') [NEW_ORDER_p 1, NEW_ORDER_p 1]"

definition heap_B :: heap where
  "heap_B = heap_of
     [(1, new_order 1 ''AAPL'' SELL LIMIT 15100 100),
      (2, new_order 2 ''AAPL'' BUY LIMIT 15000 40),
      (3, new_order 3 ''AAPL'' BUY LIMIT 15200 150),
      (4, new_order 4 ''AAPL'' BUY MARKET 0 150),
      (5, new_order 5 ''AAPL'' BUY LIMIT 15100 30)]"

definition engine_Bp :: MatchingEngine_p where
  "engine_Bp = run_events_p (new_engine_p heap_B ''AAPL'') [NEW_ORDER_p 1, NEW_ORDER_p 2]"



section \<open>One match, exactly\<close>

lemma fill_fields [simp]:
  "order_id (fill ord q) = order_id ord" "symbol (fill ord q) = symbol ord"
  "side (fill ord q) = side ord" "otype (fill ord q) = otype ord"
  "price (fill ord q) = price ord" "quantity (fill ord q) = quantity ord"
  "sequence_number (fill ord q) = sequence_number ord"
  "filled_quantity (fill ord q) = filled_quantity ord + q"
  "remaining_quantity (fill ord q) = remaining_quantity ord - q"
  by (simp_all add: fill_def set_fill_status_def remaining_quantity_def)

lemma try_match_buy:
  assumes "side ord = BUY"
  shows "try_match e ord =
     (case asks (order_book e) of
        [] \<Rightarrow> (no_match, ord, e)
      | (k, l) # sm \<Rightarrow>
          (case orders l of
             [] \<Rightarrow> (no_match, ord, e)
           | rst # xs \<Rightarrow>
               if (otype ord = LIMIT \<and> price ord < level_price l) \<or> \<not> is_active rst
               then (no_match, ord, e)
               else
                 (let mq = min (remaining_quantity ord) (remaining_quantity rst);
                      rst' = fill rst mq;
                      b1 = (order_book e)\<lparr>asks :=
                             (k, l\<lparr>orders := rst' # xs, total_quantity := total_quantity l - mq\<rparr>) # sm\<rparr>;
                      b2 = (if is_filled rst' then snd (remove_order b1 rst') else b1)
                  in (\<lparr>matched = True, match_price = price rst, match_quantity = mq,
                       resting_order = Some rst'\<rparr>,
                      fill ord mq,
                      after_trade e
                        \<lparr>trade_id = trade_id_counter e + 1, trade_symbol = engine_symbol e,
                         buy_order_id = order_id ord, sell_order_id = order_id rst,
                         trade_price = price rst, trade_quantity = mq\<rparr> b2))))"
  using assms
  by (simp add: try_match_def get_best_ask_level_def level_empty_def front_order_def
        execute_trade_def Let_def fill_def[symmetric] after_trade_def set_best_ask_level_def
        update_total_quantity_def set_front_def
      split: list.split)

lemma try_match_sell:
  assumes "side ord \<noteq> BUY"
  shows "try_match e ord =
     (if bids (order_book e) = [] then (no_match, ord, e)
      else
        (let k = fst (last (bids (order_book e))); l = snd (last (bids (order_book e)));
             sm = butlast (bids (order_book e))
         in case orders l of
             [] \<Rightarrow> (no_match, ord, e)
           | rst # xs \<Rightarrow>
               if (otype ord = LIMIT \<and> price ord > level_price l) \<or> \<not> is_active rst
               then (no_match, ord, e)
               else
                 (let mq = min (remaining_quantity ord) (remaining_quantity rst);
                      rst' = fill rst mq;
                      b1 = (order_book e)\<lparr>bids :=
                             sm @ [(k, l\<lparr>orders := rst' # xs, total_quantity := total_quantity l - mq\<rparr>)]\<rparr>;
                      b2 = (if is_filled rst' then snd (remove_order b1 rst') else b1)
                  in (\<lparr>matched = True, match_price = price rst, match_quantity = mq,
                       resting_order = Some rst'\<rparr>,
                      fill ord mq,
                      after_trade e
                        \<lparr>trade_id = trade_id_counter e + 1, trade_symbol = engine_symbol e,
                         buy_order_id = order_id rst, sell_order_id = order_id ord,
                         trade_price = price rst, trade_quantity = mq\<rparr> b2))))"
  using assms
  by (simp add: try_match_def get_best_bid_level_def level_empty_def front_order_def
        execute_trade_def Let_def fill_def[symmetric] after_trade_def set_best_bid_level_def
        update_total_quantity_def set_front_def
      split: list.split)

lemma try_match_eq:
  "try_match e ord =
     (case get_best (side ord) (order_book e) of
        None \<Rightarrow> (no_match, ord, e)
      | Some l \<Rightarrow>
          (case orders l of
             [] \<Rightarrow> (no_match, ord, e)
           | rst # xs \<Rightarrow>
               if limit_blocks ord l \<or> \<not> is_active rst then (no_match, ord, e)
               else
                 (let mq = min (remaining_quantity ord) (remaining_quantity rst)
                  in (\<lparr>matched = True, match_price = price rst, match_quantity = mq,
                       resting_order = Some (fill rst mq)\<rparr>,
                      fill ord mq,
                      after_trade e (trade_of e ord rst mq)
                        (book_after_match (side ord) (order_book e) l (fill rst mq) xs mq)))))"
proof (cases "side ord = BUY")
  case True
  then show ?thesis
    by (simp add: try_match_buy get_best_def set_best_def limit_blocks_def trade_of_def
          book_after_match_def get_best_ask_level_def set_best_ask_level_def Let_def
        split: list.split)
next
  case False
  then show ?thesis
    by (auto simp add: try_match_sell get_best_def set_best_def limit_blocks_def trade_of_def
          book_after_match_def get_best_bid_level_def set_best_bid_level_def Let_def
        split: list.split)
qed

lemma try_match_unmatched:
  "try_match e ord = (r, ord', e') \<Longrightarrow> \<not> matched r \<Longrightarrow> ord' = ord \<and> e' = e"
  by (auto simp: try_match_eq Let_def no_match_def split: option.splits list.splits if_splits)

lemma try_match_matchedE:
  assumes "try_match e ord = (r, ord', e')" "matched r"
  obtains l rst xs mq where
    "get_best (side ord) (order_book e) = Some l" "orders l = rst # xs" "is_active rst"
    "\<not> limit_blocks ord l" "mq = min (remaining_quantity ord) (remaining_quantity rst)"
    "r = \<lparr>matched = True, match_price = price rst, match_quantity = mq,
          resting_order = Some (fill rst mq)\<rparr>"
    "ord' = fill ord mq"
    "e' = after_trade e (trade_of e ord rst mq)
            (book_after_match (side ord) (order_book e) l (fill rst mq) xs mq)"
proof -
  from assms obtain l where gb: "get_best (side ord) (order_book e) = Some l"
    by (cases "get_best (side ord) (order_book e)") (auto simp: try_match_eq no_match_def)
  from assms gb obtain rst xs where os: "orders l = rst # xs"
    by (cases "orders l") (auto simp: try_match_eq no_match_def)
  from assms gb os have c: "\<not> limit_blocks ord l" "is_active rst"
    by (auto simp: try_match_eq no_match_def split: if_splits)
  define mq where "mq = min (remaining_quantity ord) (remaining_quantity rst)"
  from assms(1) gb os c have
    "r = \<lparr>matched = True, match_price = price rst, match_quantity = mq,
          resting_order = Some (fill rst mq)\<rparr>"
    "ord' = fill ord mq"
    "e' = after_trade e (trade_of e ord rst mq)
            (book_after_match (side ord) (order_book e) l (fill rst mq) xs mq)"
    by (simp_all add: try_match_eq Let_def mq_def)
  with gb os c(2) c(1) mq_def show thesis by (rule that[of l rst xs mq])
qed

lemma after_trade_fields [simp]:
  "engine_symbol (after_trade e t b) = engine_symbol e"
  "order_book (after_trade e t b) = b"
  "trade_id_counter (after_trade e t b) = trade_id t"
  "trade_log (after_trade e t b) = trade_log e @ [t]"
  "order_update_log (after_trade e t b) = order_update_log e"
  "orders_processed (stats (after_trade e t b)) = orders_processed (stats e)"
  "orders_cancelled (stats (after_trade e t b)) = orders_cancelled (stats e)"
  "trades_executed (stats (after_trade e t b)) = trades_executed (stats e) + 1"
  by (simp_all add: after_trade_def)

lemma find_order_None: "find_order l i = None \<longleftrightarrow> (\<forall>x\<in>set (orders l). order_id x \<noteq> i)"
  by (auto simp: find_order_def find_None_iff)

lemma find_order_Some: "find_order l i = Some x \<Longrightarrow> x \<in> set (orders l) \<and> order_id x = i"
  by (auto simp: find_order_def find_Some_iff)

lemma cancel_side_None: "cancel_side sm i = None \<longleftrightarrow> (\<forall>x\<in>set (level_orders sm). order_id x \<noteq> i)"
proof (induction sm)
  case Nil
  show ?case by simp
next
  case (Cons kl sm)
  obtain k l where kl: "kl = (k, l)" by (cases kl)
  show ?case
  proof (cases "find_order l i")
    case None
    then have "\<forall>x\<in>set (orders l). order_id x \<noteq> i" by (simp add: find_order_None)
    with Cons kl None show ?thesis
      by (auto split: option.splits)
  next
    case (Some x)
    with kl find_order_Some[OF Some] show ?thesis
      by (auto simp: Let_def)
  qed
qed


lemma cancel_order_None_book: "fst (cancel_order b i) = None \<Longrightarrow> snd (cancel_order b i) = b"
  by (auto simp: cancel_order_def split: option.splits)


lemma remove_order_frame [simp]:
  "book_symbol (snd (remove_order b ord)) = book_symbol b"
  "sequence_counter (snd (remove_order b ord)) = sequence_counter b"
  by (auto simp: remove_order_def split: prod.splits)

lemma set_best_frame [simp]:
  "book_symbol (set_best_ask_level b l) = book_symbol b"
  "sequence_counter (set_best_ask_level b l) = sequence_counter b"
  "book_symbol (set_best_bid_level b l) = book_symbol b"
  "sequence_counter (set_best_bid_level b l) = sequence_counter b"
  "bids (set_best_ask_level b l) = bids b"
  "asks (set_best_bid_level b l) = asks b"
  by (auto simp: set_best_ask_level_def set_best_bid_level_def split: list.splits)

lemma set_best_frame2 [simp]:
  "book_symbol (set_best sd b l) = book_symbol b"
  "sequence_counter (set_best sd b l) = sequence_counter b"
  by (simp_all add: set_best_def)

lemma book_after_match_frame [simp]:
  "book_symbol (book_after_match sd b l rst' xs mq) = book_symbol b"
  "sequence_counter (book_after_match sd b l rst' xs mq) = sequence_counter b"
  by (simp_all add: book_after_match_def Let_def)

lemma limit_loop_stop:
  "\<not> (is_active ord \<and> can_match e ord) \<Longrightarrow> limit_loop e ord = (ord, e)"
  by (subst limit_loop.simps) auto

lemma limit_loop_step:
  "is_active ord \<Longrightarrow> can_match e ord \<Longrightarrow> try_match e ord = (r, ord', e') \<Longrightarrow>
   limit_loop e ord = (if matched r then limit_loop e' ord' else (ord', e'))"
  by (subst limit_loop.simps) auto

lemma market_loop_stop:
  "\<not> (is_active ord \<and> can_match e ord) \<Longrightarrow> market_loop e ord = (ord, e)"
  by (subst market_loop.simps) auto

lemma market_loop_step:
  "is_active ord \<Longrightarrow> can_match e ord \<Longrightarrow> try_match e ord = (r, ord', e') \<Longrightarrow>
   market_loop e ord = (if matched r then market_loop e' ord' else (ord'\<lparr>status := REJECTED\<rparr>, e'))"
  by (subst market_loop.simps) auto

text \<open>
  The invariant rule of the two loops: a property that holds at the start and that every
  matched step keeps holds of the result, and the loop stopped because its condition
  failed or because a step did not match.
\<close>

lemma limit_loop_rule:
  assumes "P ord e"
    and "\<And>e ord r ord' e'. P ord e \<Longrightarrow> is_active ord \<Longrightarrow> can_match e ord \<Longrightarrow>
           try_match e ord = (r, ord', e') \<Longrightarrow> matched r \<Longrightarrow> P ord' e'"
  shows "\<exists>ord1 e1. limit_loop e ord = (ord1, e1) \<and> P ord1 e1 \<and>
           (\<not> (is_active ord1 \<and> can_match e1 ord1) \<or> \<not> matched (fst (try_match e1 ord1)))"
  using assms(1)
proof (induction e ord rule: limit_loop.induct)
  case (1 e ord)
  show ?case
  proof (cases "is_active ord \<and> can_match e ord")
    case False
    with 1 show ?thesis by (simp add: limit_loop_stop)
  next
    case True
    obtain r ord' e' where tm: "try_match e ord = (r, ord', e')" by (cases "try_match e ord") auto
    show ?thesis
    proof (cases "matched r")
      case False
      with True tm try_match_unmatched[OF tm] "1.prems" show ?thesis
        by (simp add: limit_loop_step[of ord e r ord' e'])
    next
      case m: True
      have "P ord' e'" using assms(2)[OF "1.prems" _ _ tm m] True by simp
      have nn: "\<not> \<not> matched r" using m by simp
      from "1.IH"[OF True tm[symmetric] refl nn \<open>P ord' e'\<close>]
      show ?thesis using True tm m by (simp add: limit_loop_step[of ord e r ord' e'])
    qed
  qed
qed

lemma market_loop_rule:
  assumes "P ord e"
    and "\<And>e ord r ord' e'. P ord e \<Longrightarrow> is_active ord \<Longrightarrow> can_match e ord \<Longrightarrow>
           try_match e ord = (r, ord', e') \<Longrightarrow> matched r \<Longrightarrow> P ord' e'"
  shows "\<exists>ord1 e1. P ord1 e1 \<and>
           (market_loop e ord = (ord1, e1) \<and> \<not> (is_active ord1 \<and> can_match e1 ord1) \<or>
            market_loop e ord = (ord1\<lparr>status := REJECTED\<rparr>, e1) \<and> is_active ord1 \<and>
              can_match e1 ord1 \<and> \<not> matched (fst (try_match e1 ord1)))"
  using assms(1)
proof (induction e ord rule: market_loop.induct)
  case (1 e ord)
  show ?case
  proof (cases "is_active ord \<and> can_match e ord")
    case False
    with 1 show ?thesis by (auto simp add: market_loop_stop)
  next
    case True
    obtain r ord' e' where tm: "try_match e ord = (r, ord', e')" by (cases "try_match e ord") auto
    show ?thesis
    proof (cases "matched r")
      case False
      with tm have "\<not> matched (fst (try_match e ord))" by simp
      moreover have "market_loop e ord = (ord\<lparr>status := REJECTED\<rparr>, e)"
        using True tm False try_match_unmatched[OF tm] by (simp add: market_loop_step[of ord e r ord' e'])
      ultimately show ?thesis using True "1.prems" by blast
    next
      case m: True
      have "P ord' e'" using assms(2)[OF "1.prems" _ _ tm m] True by simp
      have nn: "\<not> \<not> matched r" using m by simp
      from "1.IH"[OF True tm[symmetric] refl nn \<open>P ord' e'\<close>]
      show ?thesis using True tm m by (simp add: market_loop_step[of ord e r ord' e'])
    qed
  qed
qed

section \<open>What the loops and the event handlers leave alone\<close>

lemma same_frame_refl [simp]: "same_frame x x"
  by (simp add: same_frame_def)

lemma same_frame_trans: "same_frame x y \<Longrightarrow> same_frame y z \<Longrightarrow> same_frame x z"
  by (simp add: same_frame_def)

lemma try_match_frame:
  assumes "try_match e ord = (r, ord', e')"
  shows "same_frame (ord, e) (ord', e')"
proof (cases "matched r")
  case False
  with try_match_unmatched[OF assms] show ?thesis by simp
next
  case True
  from assms True show ?thesis
    by (rule try_match_matchedE) (simp add: same_frame_def)
qed

lemma limit_loop_frame: "same_frame (ord, e) (limit_loop e ord)"
proof -
  have "\<exists>ord1 e1. limit_loop e ord = (ord1, e1) \<and> same_frame (ord, e) (ord1, e1) \<and>
           (\<not> (is_active ord1 \<and> can_match e1 ord1) \<or> \<not> matched (fst (try_match e1 ord1)))"
    by (rule limit_loop_rule) (auto intro: same_frame_trans try_match_frame)
  then show ?thesis by auto
qed

lemma market_loop_frame: "same_frame (ord, e) (market_loop e ord)"
proof -
  have "\<exists>ord1 e1. same_frame (ord, e) (ord1, e1) \<and>
           (market_loop e ord = (ord1, e1) \<and> \<not> (is_active ord1 \<and> can_match e1 ord1) \<or>
            market_loop e ord = (ord1\<lparr>status := REJECTED\<rparr>, e1) \<and> is_active ord1 \<and>
              can_match e1 ord1 \<and> \<not> matched (fst (try_match e1 ord1)))"
    by (rule market_loop_rule) (auto intro: same_frame_trans try_match_frame)
  then show ?thesis by (auto simp: same_frame_def)
qed





section \<open>The invariant of the book\<close>

subsection \<open>Levels\<close>

lemma erase_first_sum:
  "find (\<lambda>x. order_id x = i) xs = Some x \<Longrightarrow>
   sum_list (map remaining_quantity (erase_first i xs)) = sum_list (map remaining_quantity xs) - remaining_quantity x"
  by (induction xs) (auto split: if_splits)

lemma erase_first_subset: "set (erase_first i xs) \<subseteq> set xs"
  by (induction xs) auto

lemma erase_first_none: "find (\<lambda>x. order_id x = i) xs = None \<Longrightarrow> erase_first i xs = xs"
  by (induction xs) (auto split: if_splits)

lemma level_remove_weak: "level_weak sd k l \<Longrightarrow> level_weak sd k (level_remove_order l ord)"
  using erase_first_subset[of "order_id ord" "orders l"]
  by (auto simp: level_weak_def level_remove_order_def find_order_def erase_first_sum list_all_iff
      split: option.splits)

lemma level_add_ok:
  "level_weak sd k l \<Longrightarrow> price ord = k \<Longrightarrow> side ord = sd \<Longrightarrow> level_ok sd k (level_add_order l ord)"
  by (simp add: level_ok_def level_weak_def level_add_order_def)

lemma new_level_weak: "level_weak sd k (new_level k)"
  by (simp add: level_weak_def new_level_def)

lemma level_after_fill_ok:
  "level_ok sd k l \<Longrightarrow> orders l = rst # xs \<Longrightarrow>
   level_ok sd k (l\<lparr>orders := fill rst mq # xs, total_quantity := total_quantity l - mq\<rparr>)"
  by (simp add: level_ok_def level_weak_def)

subsection \<open>Sides\<close>

lemma side_put_keys [simp]: "map fst (side_put k v sm) = map fst sm"
  by (induction sm) auto

lemma side_put_set: "set (side_put k v sm) \<subseteq> insert (k, v) (set sm)"
  by (induction sm) (auto split: if_splits)



lemma side_emplace_set: "set (side_emplace k v sm) \<subseteq> insert (k, v) (set sm)"
  by (induction sm) (auto split: if_splits)

lemma side_emplace_sorted:
  "sorted_wrt (<) (map fst sm) \<Longrightarrow> sorted_wrt (<) (map fst (side_emplace k v sm))"
  using side_emplace_set by (induction sm) (auto, fastforce+)

lemma side_ok_put: "side_ok sd sm \<Longrightarrow> level_ok sd k l \<Longrightarrow> side_ok sd (side_put k l sm)"
  using side_put_set[of k l sm] by (auto simp: side_ok_def list_all_iff)


lemma side_ok_emplace: "side_ok sd sm \<Longrightarrow> level_ok sd k l \<Longrightarrow> side_ok sd (side_emplace k l sm)"
  using side_emplace_set[of k l sm] by (auto simp: side_ok_def list_all_iff side_emplace_sorted)

lemma side_ok_lookup: "side_ok sd sm \<Longrightarrow> map_of sm k = Some l \<Longrightarrow> level_ok sd k l"
  by (auto simp: side_ok_def list_all_iff dest!: map_of_SomeD)

lemma add_to_side_ok:
  assumes "side_ok sd sm" "side ord = sd"
  shows "side_ok sd (add_to_side sm ord)"
proof (cases "map_of sm (price ord)")
  case None
  have "level_ok sd (price ord) (level_add_order (new_level (price ord)) ord)"
    using new_level_weak assms(2) by (intro level_add_ok) simp_all
  with assms(1) None show ?thesis by (simp add: add_to_side_def side_ok_emplace)
next
  case (Some l)
  with assms(1) have "level_weak sd (price ord) l"
    using side_ok_lookup level_ok_def by blast
  then have "level_ok sd (price ord) (level_add_order l ord)"
    using assms(2) by (intro level_add_ok) simp_all
  with assms(1) Some show ?thesis by (simp add: add_to_side_def side_ok_put)
qed


lemma cancel_side_keys:
  "cancel_side sm i = Some (x, sm') \<Longrightarrow> set (map fst sm') \<subseteq> set (map fst sm)"
proof (induction sm arbitrary: sm')
  case Nil
  then show ?case by simp
next
  case (Cons kl sm)
  obtain k l where kl: "kl = (k, l)" by (cases kl)
  show ?case
  proof (cases "find_order l i")
    case (Some y)
    with Cons.prems kl show ?thesis by (auto simp: Let_def split: if_splits)
  next
    case None
    with Cons.prems kl obtain sm1 where c: "cancel_side sm i = Some (x, sm1)" "sm' = (k, l) # sm1"
      by (auto split: option.splits)
    from Cons.IH[OF c(1)] c(2) kl show ?thesis by auto
  qed
qed

lemma side_ok_Cons:
  "side_ok sd ((k, l) # sm) \<longleftrightarrow> level_ok sd k l \<and> side_ok sd sm \<and> (\<forall>k'\<in>set (map fst sm). k < k')"
  by (auto simp: side_ok_def)

lemma cancel_side_ok: "side_ok sd sm \<Longrightarrow> cancel_side sm i = Some (x, sm') \<Longrightarrow> side_ok sd sm'"
proof (induction sm arbitrary: sm')
  case Nil
  then show ?case by simp
next
  case (Cons kl sm)
  obtain k l where kl: "kl = (k, l)" by (cases kl)
  from Cons.prems(1) kl have ok: "level_ok sd k l" "side_ok sd sm" "\<forall>k'\<in>set (map fst sm). k < k'"
    by (simp_all add: side_ok_Cons)
  show ?case
  proof (cases "find_order l i")
    case (Some y)
    have "level_weak sd k (level_remove_order l (y\<lparr>status := CANCELLED\<rparr>))"
      using ok(1) by (simp add: level_ok_def level_remove_weak)
    with Cons.prems(2) kl Some ok show ?thesis
      by (auto simp: Let_def side_ok_Cons level_ok_def level_empty_def split: if_splits)
  next
    case None
    with Cons.prems(2) kl obtain sm1 where c: "cancel_side sm i = Some (x, sm1)" "sm' = (k, l) # sm1"
      by (auto split: option.splits)
    from Cons.IH[OF ok(2) c(1)] have s1: "side_ok sd sm1" .
    have "set (map fst sm1) \<subseteq> set (map fst sm)"
      using c(1) by (rule cancel_side_keys)
    with ok(3) have "\<forall>k'\<in>set (map fst sm1). k < k'" by blast
    with ok(1) s1 c(2) show ?thesis by (simp add: side_ok_Cons)
  qed
qed

subsection \<open>Books\<close>

lemma add_order_ok: "book_ok b \<Longrightarrow> book_ok (snd (snd (add_order b ord)))"
  by (cases "side ord") (auto simp: add_order_def book_ok_def Let_def add_to_side_ok)


lemma cancel_order_ok: "book_ok b \<Longrightarrow> book_ok (snd (cancel_order b i))"
  by (auto simp: cancel_order_def book_ok_def split: option.splits dest: cancel_side_ok)

lemma new_book_ok: "book_ok (new_book smb)"
  by (simp add: book_ok_def side_ok_def new_book_def)

lemma with_opposite_simps [simp]:
  "opposite sd (with_opposite sd b sm) = sm"
  "own_side sd (with_opposite sd b sm) = own_side sd b"
  "book_symbol (with_opposite sd b sm) = book_symbol b"
  "sequence_counter (with_opposite sd b sm) = sequence_counter b"
  "with_opposite sd (with_opposite sd b sm) sm' = with_opposite sd b sm'"
  by (simp_all add: with_opposite_def opposite_def own_side_def)

lemma book_ok_sides:
  "book_ok b \<longleftrightarrow> side_ok (other_side sd) (opposite sd b) \<and> side_ok sd (own_side sd b)"
  by (cases sd) (auto simp: book_ok_def other_side_def opposite_def own_side_def)

lemma get_best_split:
  assumes "get_best sd b = Some l"
  obtains pre k post where
    "opposite sd b = pre @ (k, l) # post"
    "sd = BUY \<Longrightarrow> pre = []" "sd \<noteq> BUY \<Longrightarrow> post = []"
    "\<And>l'. set_best sd b l' = with_opposite sd b (pre @ (k, l') # post)"
proof (cases "sd = BUY")
  case True
  with assms obtain k sm where a: "asks b = (k, l) # sm"
    by (cases "asks b") (auto simp: get_best_def get_best_ask_level_def split: if_splits)
  show thesis
  proof (rule that[of "[]" k sm])
    show "opposite sd b = [] @ (k, l) # sm" using True a by (simp add: opposite_def)
    show "\<And>l'. set_best sd b l' = with_opposite sd b ([] @ (k, l') # sm)"
      using True a by (simp add: set_best_def set_best_ask_level_def with_opposite_def)
  qed (use True in simp_all)
next
  case False
  with assms have ne: "bids b \<noteq> []" and l: "l = snd (last (bids b))"
    by (auto simp: get_best_def get_best_bid_level_def split: if_splits)
  then have a: "bids b = butlast (bids b) @ [(fst (last (bids b)), l)]" by simp
  show thesis
  proof (rule that[of "butlast (bids b)" "fst (last (bids b))" "[]"])
    show "opposite sd b = butlast (bids b) @ [(fst (last (bids b)), l)]"
      using False a by (simp add: opposite_def)
    show "\<And>l'. set_best sd b l' = with_opposite sd b (butlast (bids b) @ [(fst (last (bids b)), l')])"
      using False ne by (simp add: set_best_def set_best_bid_level_def with_opposite_def)
  qed (use False in simp_all)
qed

lemma get_best_None: "get_best sd b = None \<longleftrightarrow> opposite sd b = []"
  by (simp add: get_best_def get_best_ask_level_def get_best_bid_level_def opposite_def)

lemma map_of_mid: "k \<notin> fst ` set pre \<Longrightarrow> map_of (pre @ (k, l) # post) k = Some l"
  by (induction pre) auto

lemma side_erase_mid: "k \<notin> fst ` set pre \<Longrightarrow> side_erase k (pre @ (k, l) # post) = pre @ post"
  by (induction pre) auto

lemma side_put_mid: "k \<notin> fst ` set pre \<Longrightarrow> side_put k v (pre @ (k, l) # post) = pre @ (k, v) # post"
  by (induction pre) auto

lemma side_ok_mid:
  "side_ok sd (pre @ (k, l) # post) \<longleftrightarrow>
     side_ok sd (pre @ post) \<and> level_ok sd k l \<and>
     (\<forall>k'\<in>fst ` set pre. k' < k) \<and> (\<forall>k'\<in>fst ` set post. k < k')"
  by (auto simp: side_ok_def sorted_wrt_append)

lemma side_ok_mid_fresh: "side_ok sd (pre @ (k, l) # post) \<Longrightarrow> k \<notin> fst ` set pre"
  by (auto simp: side_ok_mid)

lemma remove_order_opposite:
  "side ord = other_side sd \<Longrightarrow>
   snd (remove_order b ord) = with_opposite sd b (snd (remove_from_side (opposite sd b) ord))"
  by (cases sd) (auto simp: remove_order_def with_opposite_def opposite_def other_side_def
       split: prod.splits)

lemma level_remove_front:
  "orders l = x # xs \<Longrightarrow>
   level_remove_order l x = l\<lparr>total_quantity := total_quantity l - remaining_quantity x, orders := xs\<rparr>"
  by (simp add: level_remove_order_def find_order_def)

lemma book_after_match_exact:
  assumes ok: "book_ok b" and op: "opposite sd b = pre @ (k, l) # post"
    and sb: "\<And>l'. set_best sd b l' = with_opposite sd b (pre @ (k, l') # post)"
    and os: "orders l = rst # xs"
  shows "book_after_match sd b l (fill rst mq) xs mq =
     with_opposite sd b
       (if is_filled (fill rst mq) then
          (if xs = [] then pre @ post
           else pre @ (k, l\<lparr>orders := xs,
                   total_quantity := total_quantity l - mq - remaining_quantity (fill rst mq)\<rparr>) # post)
        else pre @ (k, l\<lparr>orders := fill rst mq # xs, total_quantity := total_quantity l - mq\<rparr>) # post)"
proof -
  from ok op have so: "side_ok (other_side sd) (pre @ (k, l) # post)"
    using book_ok_sides[of b sd] by simp
  then have fresh: "k \<notin> fst ` set pre" by (rule side_ok_mid_fresh)
  from so have lo: "level_ok (other_side sd) k l" by (simp add: side_ok_mid)
  with os have r: "price rst = k" "side rst = other_side sd"
    by (simp_all add: level_ok_def level_weak_def)
  define l1 where "l1 = l\<lparr>orders := fill rst mq # xs, total_quantity := total_quantity l - mq\<rparr>"
  define l2 where "l2 = l\<lparr>orders := xs,
                   total_quantity := total_quantity l - mq - remaining_quantity (fill rst mq)\<rparr>"
  have p: "price (fill rst mq) = k" using r by simp
  have mo: "map_of (pre @ (k, l1) # post) k = Some l1" by (rule map_of_mid[OF fresh])
  have "orders l1 = fill rst mq # xs" by (simp add: l1_def)
  from level_remove_front[OF this] have lr: "level_remove_order l1 (fill rst mq) = l2"
    by (simp add: l1_def l2_def)
  have e: "level_empty l2 \<longleftrightarrow> xs = []" by (simp add: level_empty_def l2_def)
  have "snd (remove_from_side (pre @ (k, l1) # post) (fill rst mq)) =
      (if xs = [] then side_erase k (pre @ (k, l1) # post) else side_put k l2 (pre @ (k, l1) # post))"
    unfolding remove_from_side_def p mo Let_def by (simp add: lr e)
  then have rf: "snd (remove_from_side (pre @ (k, l1) # post) (fill rst mq)) =
      (if xs = [] then pre @ post else pre @ (k, l2) # post)"
    by (simp add: side_erase_mid[OF fresh] side_put_mid[OF fresh])
  have sf: "side (fill rst mq) = other_side sd" using r by simp
  have b1: "set_best sd b l1 = with_opposite sd b (pre @ (k, l1) # post)" by (rule sb)
  have "book_after_match sd b l (fill rst mq) xs mq =
      (if is_filled (fill rst mq) then snd (remove_order (set_best sd b l1) (fill rst mq))
       else set_best sd b l1)"
    by (simp add: book_after_match_def Let_def l1_def)
  also have "\<dots> = (if is_filled (fill rst mq)
       then with_opposite sd b (if xs = [] then pre @ post else pre @ (k, l2) # post)
       else with_opposite sd b (pre @ (k, l1) # post))"
    unfolding b1 remove_order_opposite[OF sf] by (simp add: rf)
  finally show ?thesis by (simp add: l1_def l2_def)
qed

subsection \<open>A successful match on a well-formed book\<close>

lemma try_match_okE:
  assumes "book_ok (order_book e)" "try_match e ord = (r, ord', e')" "matched r"
  obtains pre k l post rst xs mq where
    "opposite (side ord) (order_book e) = pre @ (k, l) # post"
    "side ord = BUY \<Longrightarrow> pre = []" "side ord \<noteq> BUY \<Longrightarrow> post = []"
    "orders l = rst # xs" "is_active rst" "\<not> limit_blocks ord l"
    "level_ok (other_side (side ord)) k l"
    "mq = min (remaining_quantity ord) (remaining_quantity rst)"
    "r = \<lparr>matched = True, match_price = price rst, match_quantity = mq,
          resting_order = Some (fill rst mq)\<rparr>"
    "ord' = fill ord mq"
    "e' = after_trade e (trade_of e ord rst mq)
            (with_opposite (side ord) (order_book e)
               (side_after_match pre k l post (fill rst mq) xs mq))"
proof -
  from assms(2,3) obtain l rst xs mq where
    m: "get_best (side ord) (order_book e) = Some l" "orders l = rst # xs" "is_active rst"
    "\<not> limit_blocks ord l" "mq = min (remaining_quantity ord) (remaining_quantity rst)"
    "r = \<lparr>matched = True, match_price = price rst, match_quantity = mq,
          resting_order = Some (fill rst mq)\<rparr>"
    "ord' = fill ord mq"
    "e' = after_trade e (trade_of e ord rst mq)
            (book_after_match (side ord) (order_book e) l (fill rst mq) xs mq)"
    by (rule try_match_matchedE)
  from m(1) show thesis
  proof (rule get_best_split)
    fix pre k post
    assume s: "opposite (side ord) (order_book e) = pre @ (k, l) # post"
      "side ord = BUY \<Longrightarrow> pre = []" "side ord \<noteq> BUY \<Longrightarrow> post = []"
      "\<And>l'. set_best (side ord) (order_book e) l' =
          with_opposite (side ord) (order_book e) (pre @ (k, l') # post)"
    from assms(1) s(1) have lo: "level_ok (other_side (side ord)) k l"
      using book_ok_sides[of "order_book e" "side ord"] by (simp add: side_ok_mid)
    have "book_after_match (side ord) (order_book e) l (fill rst mq) xs mq =
        with_opposite (side ord) (order_book e) (side_after_match pre k l post (fill rst mq) xs mq)"
      unfolding side_after_match_def by (rule book_after_match_exact[OF assms(1) s(1) s(4) m(2)])
    with m(8) have "e' = after_trade e (trade_of e ord rst mq)
              (with_opposite (side ord) (order_book e)
                 (side_after_match pre k l post (fill rst mq) xs mq))" by simp
    with s(1-3) m(2-4) lo m(5-7) show thesis by (rule that)
  qed
qed

lemma fill_active: "is_active (fill x q) \<longleftrightarrow> \<not> is_filled (fill x q)"
  by (simp add: fill_def set_fill_status_def is_active_def is_filled_def)

lemma side_after_match_ok:
  assumes "side_ok sd (pre @ (k, l) # post)" "orders l = rst # xs"
  shows "side_ok sd (side_after_match pre k l post (fill rst mq) xs mq)"
proof -
  from assms have so: "side_ok sd (pre @ post)" and lo: "level_ok sd k l"
    and o: "\<forall>k'\<in>fst ` set pre. k' < k" "\<forall>k'\<in>fst ` set post. k < k'"
    by (simp_all add: side_ok_mid)
  have l1: "level_ok sd k (l\<lparr>orders := fill rst mq # xs, total_quantity := total_quantity l - mq\<rparr>)"
    using lo assms(2) by (rule level_after_fill_ok)
  have l2: "xs \<noteq> [] \<Longrightarrow> level_ok sd k (l\<lparr>orders := xs,
                 total_quantity := total_quantity l - mq - remaining_quantity (fill rst mq)\<rparr>)"
    using lo assms(2) by (simp add: level_ok_def level_weak_def)
  show ?thesis
    using so o l1 l2 by (simp add: side_after_match_def side_ok_mid)
qed

lemma side_after_match_keys:
  "fst ` set (side_after_match pre k l post rst' xs mq) \<subseteq> fst ` set (pre @ (k, l) # post)"
  by (auto simp: side_after_match_def)

lemma side_after_match_orders:
  "orders l = rst # xs \<Longrightarrow>
   level_orders (side_after_match pre k l post (fill rst mq) xs mq) =
     level_orders pre @ (if is_filled (fill rst mq) then xs else fill rst mq # xs) @ level_orders post"
  by (simp add: side_after_match_def)

lemma book_orders_sides:
  "set (book_orders b) = set (level_orders (opposite sd b)) \<union> set (level_orders (own_side sd b))"
  by (cases sd) (auto simp: book_orders_def opposite_def own_side_def)

lemma no_cross_sides:
  "no_cross b \<longleftrightarrow>
     (\<forall>x\<in>fst ` set (opposite sd b). \<forall>y\<in>fst ` set (own_side sd b). if sd = BUY then y < x else x < y)"
  by (cases sd) (auto simp: no_cross_def opposite_def own_side_def)

lemma try_match_inv:
  assumes "try_match e ord = (r, ord', e')"
  shows "book_ok (order_book e) \<Longrightarrow> book_ok (order_book e')"
    and "book_ok (order_book e) \<Longrightarrow> resting_active (order_book e) \<Longrightarrow> resting_active (order_book e')"
    and "book_ok (order_book e) \<Longrightarrow> no_cross (order_book e) \<Longrightarrow> no_cross (order_book e')"
    and "book_ok (order_book e) \<Longrightarrow> own_side (side ord) (order_book e') = own_side (side ord) (order_book e)"
proof -
  show "book_ok (order_book e')" "own_side (side ord) (order_book e') = own_side (side ord) (order_book e)"
    if ok: "book_ok (order_book e)"
  proof -
    have "book_ok (order_book e') \<and> own_side (side ord) (order_book e') = own_side (side ord) (order_book e)"
    proof (cases "matched r")
      case False
      with try_match_unmatched[OF assms] ok show ?thesis by simp
    next
      case True
      from ok assms True show ?thesis
      proof (rule try_match_okE)
        fix pre k l post rst xs mq
        assume a: "opposite (side ord) (order_book e) = pre @ (k, l) # post" "orders l = rst # xs"
          "e' = after_trade e (trade_of e ord rst mq)
            (with_opposite (side ord) (order_book e)
               (side_after_match pre k l post (fill rst mq) xs mq))"
        from ok a(1) have "side_ok (other_side (side ord)) (pre @ (k, l) # post)"
          using book_ok_sides[of "order_book e" "side ord"] by simp
        from side_after_match_ok[OF this a(2)] ok a(3) show ?thesis
          using book_ok_sides[of "order_book e" "side ord"] book_ok_sides[of "order_book e'" "side ord"]
          by simp
      qed
    qed
    then show "book_ok (order_book e')" "own_side (side ord) (order_book e') = own_side (side ord) (order_book e)"
      by simp_all
  qed
  show "resting_active (order_book e')"
    if ok: "book_ok (order_book e)" and ra: "resting_active (order_book e)"
  proof (cases "matched r")
    case False
    with try_match_unmatched[OF assms] ra show ?thesis by simp
  next
    case True
    from ok assms True show ?thesis
    proof (rule try_match_okE)
      fix pre k l post rst xs mq
      assume a: "opposite (side ord) (order_book e) = pre @ (k, l) # post" "orders l = rst # xs"
        "e' = after_trade e (trade_of e ord rst mq)
          (with_opposite (side ord) (order_book e)
             (side_after_match pre k l post (fill rst mq) xs mq))"
      from ra a(1,2) have "\<forall>x\<in>set (level_orders pre) \<union> set xs \<union> set (level_orders post)
          \<union> set (level_orders (own_side (side ord) (order_book e))). is_active x"
        using book_orders_sides[of "order_book e" "side ord"]
        by (auto simp: resting_active_def list_all_iff)
      then show ?thesis
        using book_orders_sides[of "order_book e'" "side ord"] a(3) side_after_match_orders[OF a(2), of pre k post mq]
        by (auto simp: resting_active_def list_all_iff fill_active)
    qed
  qed
  show "no_cross (order_book e')"
    if ok: "book_ok (order_book e)" and nc: "no_cross (order_book e)"
  proof (cases "matched r")
    case False
    with try_match_unmatched[OF assms] nc show ?thesis by simp
  next
    case True
    from ok assms True show ?thesis
    proof (rule try_match_okE)
      fix pre k l post rst xs mq
      assume a: "opposite (side ord) (order_book e) = pre @ (k, l) # post"
        "e' = after_trade e (trade_of e ord rst mq)
          (with_opposite (side ord) (order_book e)
             (side_after_match pre k l post (fill rst mq) xs mq))"
      have "fst ` set (opposite (side ord) (order_book e')) \<subseteq> fst ` set (opposite (side ord) (order_book e))"
        using a side_after_match_keys[of pre k l post "fill rst mq" xs mq] by simp
      moreover have "own_side (side ord) (order_book e') = own_side (side ord) (order_book e)"
        using a(2) by simp
      ultimately have sub: "fst ` set (opposite (side ord) (order_book e')) \<subseteq> fst ` set (opposite (side ord) (order_book e))"
        and own: "fst ` set (own_side (side ord) (order_book e')) = fst ` set (own_side (side ord) (order_book e))"
        by simp_all
      from nc have n: "\<forall>x\<in>fst ` set (opposite (side ord) (order_book e)).
          \<forall>y\<in>fst ` set (own_side (side ord) (order_book e)). if side ord = BUY then y < x else x < y"
        by (simp only: no_cross_sides[of _ "side ord"])
      have "\<forall>x\<in>fst ` set (opposite (side ord) (order_book e')).
          \<forall>y\<in>fst ` set (own_side (side ord) (order_book e')). if side ord = BUY then y < x else x < y"
      proof (intro ballI)
        fix x y
        assume "x \<in> fst ` set (opposite (side ord) (order_book e'))"
          "y \<in> fst ` set (own_side (side ord) (order_book e'))"
        with sub own have "x \<in> fst ` set (opposite (side ord) (order_book e))"
          "y \<in> fst ` set (own_side (side ord) (order_book e))" by blast+
        from n[rule_format, OF this] show "if side ord = BUY then y < x else x < y" .
      qed
      then show ?thesis by (simp only: no_cross_sides[of _ "side ord"])
    qed
  qed
qed

subsection \<open>When a match is possible it succeeds\<close>

lemma get_best_level_ok:
  assumes "book_ok b" "get_best sd b = Some l"
  shows "level_ok (other_side sd) (level_price l) l" and "set (orders l) \<subseteq> set (book_orders b)"
proof -
  from assms(2) have "level_ok (other_side sd) (level_price l) l \<and> set (orders l) \<subseteq> set (book_orders b)"
  proof (rule get_best_split)
    fix pre k post
    assume s: "opposite sd b = pre @ (k, l) # post"
    with assms(1) have "level_ok (other_side sd) k l"
      using book_ok_sides[of b sd] by (simp add: side_ok_mid)
    moreover from s have "set (orders l) \<subseteq> set (book_orders b)"
      using book_orders_sides[of b sd] by auto
    ultimately show ?thesis by (auto simp: level_ok_def level_weak_def)
  qed
  then show "level_ok (other_side sd) (level_price l) l" "set (orders l) \<subseteq> set (book_orders b)"
    by simp_all
qed

lemma can_match_alt:
  assumes "book_ok (order_book e)"
  shows "can_match e ord \<longleftrightarrow>
     (\<exists>l. get_best (side ord) (order_book e) = Some l \<and> \<not> limit_blocks ord l)"
proof (cases "side ord = BUY")
  case True
  show ?thesis
  proof (cases "asks (order_book e)")
    case Nil
    with True show ?thesis
      by (simp add: can_match_def best_ask_def get_best_def get_best_ask_level_def)
  next
    case (Cons kl sm)
    with assms have "level_price (snd kl) = fst kl"
      by (simp add: book_ok_def side_ok_def level_ok_def level_weak_def)
    with True Cons show ?thesis
      by (cases "otype ord")
         (auto simp: can_match_def best_ask_def get_best_def get_best_ask_level_def limit_blocks_def)
  qed
next
  case False
  show ?thesis
  proof (cases "bids (order_book e) = []")
    case True
    with False show ?thesis
      by (simp add: can_match_def best_bid_def get_best_def get_best_bid_level_def)
  next
    case ne: False
    then have "last (bids (order_book e)) \<in> set (bids (order_book e))" by simp
    with assms have "level_price (snd (last (bids (order_book e)))) = fst (last (bids (order_book e)))"
      by (simp add: book_ok_def side_ok_def level_ok_def level_weak_def list_all_iff)
    with False ne show ?thesis
      by (cases "otype ord")
         (auto simp: can_match_def best_bid_def get_best_def get_best_bid_level_def limit_blocks_def)
  qed
qed

lemma can_match_matches:
  assumes "book_ok (order_book e)" "resting_active (order_book e)" "can_match e ord"
  shows "matched (fst (try_match e ord))"
proof -
  from assms(1,3) obtain l where l: "get_best (side ord) (order_book e) = Some l" "\<not> limit_blocks ord l"
    by (auto simp: can_match_alt)
  from get_best_level_ok[OF assms(1) l(1)] obtain rst xs where os: "orders l = rst # xs"
    by (cases "orders l") (auto simp: level_ok_def)
  with get_best_level_ok(2)[OF assms(1) l(1)] assms(2) have "is_active rst"
    by (auto simp: resting_active_def list_all_iff)
  with l os show ?thesis by (simp add: try_match_eq Let_def)
qed

subsection \<open>The loops keep the invariant and stop only when nothing can match\<close>

lemma try_match_engine_inv:
  "engine_inv e \<Longrightarrow> try_match e ord = (r, ord', e') \<Longrightarrow> engine_inv e'"
  by (simp add: engine_inv_def try_match_inv)

lemma limit_loop_inv:
  assumes "engine_inv e"
  shows "engine_inv (snd (limit_loop e ord))"
    and "\<not> (is_active (fst (limit_loop e ord)) \<and> can_match (snd (limit_loop e ord)) (fst (limit_loop e ord)))"
    and "own_side (side ord) (order_book (snd (limit_loop e ord))) = own_side (side ord) (order_book e)"
proof -
  define P where "P = (\<lambda>(ord1::Order) e1. engine_inv e1 \<and> side ord1 = side ord \<and>
     own_side (side ord) (order_book e1) = own_side (side ord) (order_book e))"
  have "\<exists>ord1 e1. limit_loop e ord = (ord1, e1) \<and> P ord1 e1 \<and>
           (\<not> (is_active ord1 \<and> can_match e1 ord1) \<or> \<not> matched (fst (try_match e1 ord1)))"
  proof (rule limit_loop_rule)
    show "P ord e" using assms by (simp add: P_def)
  next
    fix e0 ord0 r ord' e'
    assume a: "P ord0 e0" "try_match e0 ord0 = (r, ord', e')"
    then have "engine_inv e'" by (auto simp: P_def intro: try_match_engine_inv)
    moreover have "side ord' = side ord0" using try_match_frame[OF a(2)] by (simp add: same_frame_def)
    moreover have "own_side (side ord0) (order_book e') = own_side (side ord0) (order_book e0)"
      using a try_match_inv(4)[OF a(2)] by (simp add: P_def engine_inv_def)
    ultimately show "P ord' e'" using a(1) by (simp add: P_def)
  qed
  then obtain ord1 e1 where r: "limit_loop e ord = (ord1, e1)" "P ord1 e1"
    "\<not> (is_active ord1 \<and> can_match e1 ord1) \<or> \<not> matched (fst (try_match e1 ord1))" by blast
  from r(2,3) have "\<not> (is_active ord1 \<and> can_match e1 ord1)"
    using can_match_matches[of e1 ord1] by (auto simp: P_def engine_inv_def)
  with r show "engine_inv (snd (limit_loop e ord))"
    "\<not> (is_active (fst (limit_loop e ord)) \<and> can_match (snd (limit_loop e ord)) (fst (limit_loop e ord)))"
    "own_side (side ord) (order_book (snd (limit_loop e ord))) = own_side (side ord) (order_book e)"
    by (simp_all add: P_def)
qed

lemma market_loop_inv:
  assumes "engine_inv e"
  shows "engine_inv (snd (market_loop e ord))"
    and "\<not> (is_active (fst (market_loop e ord)) \<and> can_match (snd (market_loop e ord)) (fst (market_loop e ord)))"
    and "own_side (side ord) (order_book (snd (market_loop e ord))) = own_side (side ord) (order_book e)"
proof -
  define P where "P = (\<lambda>(ord1::Order) e1. engine_inv e1 \<and> side ord1 = side ord \<and>
     own_side (side ord) (order_book e1) = own_side (side ord) (order_book e))"
  have "\<exists>ord1 e1. P ord1 e1 \<and>
           (market_loop e ord = (ord1, e1) \<and> \<not> (is_active ord1 \<and> can_match e1 ord1) \<or>
            market_loop e ord = (ord1\<lparr>status := REJECTED\<rparr>, e1) \<and> is_active ord1 \<and>
              can_match e1 ord1 \<and> \<not> matched (fst (try_match e1 ord1)))"
  proof (rule market_loop_rule)
    show "P ord e" using assms by (simp add: P_def)
  next
    fix e0 ord0 r ord' e'
    assume a: "P ord0 e0" "try_match e0 ord0 = (r, ord', e')"
    then have "engine_inv e'" by (auto simp: P_def intro: try_match_engine_inv)
    moreover have "side ord' = side ord0" using try_match_frame[OF a(2)] by (simp add: same_frame_def)
    moreover have "own_side (side ord0) (order_book e') = own_side (side ord0) (order_book e0)"
      using a try_match_inv(4)[OF a(2)] by (simp add: P_def engine_inv_def)
    ultimately show "P ord' e'" using a(1) by (simp add: P_def)
  qed
  then obtain ord1 e1 where r: "P ord1 e1"
    "market_loop e ord = (ord1, e1) \<and> \<not> (is_active ord1 \<and> can_match e1 ord1) \<or>
            market_loop e ord = (ord1\<lparr>status := REJECTED\<rparr>, e1) \<and> is_active ord1 \<and>
              can_match e1 ord1 \<and> \<not> matched (fst (try_match e1 ord1))" by blast
  from r have m: "market_loop e ord = (ord1, e1)" "\<not> (is_active ord1 \<and> can_match e1 ord1)"
    using can_match_matches[of e1 ord1] by (auto simp: P_def engine_inv_def)
  with r(1) show "engine_inv (snd (market_loop e ord))"
    "\<not> (is_active (fst (market_loop e ord)) \<and> can_match (snd (market_loop e ord)) (fst (market_loop e ord)))"
    "own_side (side ord) (order_book (snd (market_loop e ord))) = own_side (side ord) (order_book e)"
    by (simp_all add: P_def)
qed

subsection \<open>Adding and cancelling keep the invariant\<close>

lemma side_emplace_orders:
  "map_of sm k = None \<Longrightarrow> set (level_orders (side_emplace k l sm)) = set (orders l) \<union> set (level_orders sm)"
  by (induction sm) (auto split: if_splits)

lemma side_put_orders:
  "map_of sm k = Some l0 \<Longrightarrow> set (orders l0) \<subseteq> set (orders l) \<Longrightarrow>
   set (level_orders (side_put k l sm)) = set (orders l) \<union> set (level_orders sm)"
  by (induction sm) (auto split: if_splits)

lemma add_to_side_orders:
  "set (level_orders (add_to_side sm ord)) = insert ord (set (level_orders sm))"
proof (cases "map_of sm (price ord)")
  case None
  then show ?thesis
    by (simp add: add_to_side_def side_emplace_orders level_add_order_def new_level_def)
next
  case (Some l)
  then have "set (orders l) \<subseteq> set (level_orders sm)"
    by (induction sm) (auto split: if_splits)
  have "set (level_orders (side_put (price ord) (level_add_order l ord) sm)) =
      set (orders (level_add_order l ord)) \<union> set (level_orders sm)"
    by (rule side_put_orders[OF Some]) (auto simp: level_add_order_def)
  with Some \<open>set (orders l) \<subseteq> set (level_orders sm)\<close> show ?thesis
    by (auto simp: add_to_side_def level_add_order_def)
qed

lemma add_to_side_keys: "fst ` set (add_to_side sm ord) \<subseteq> insert (price ord) (fst ` set sm)"
proof -
  have "fst ` set (side_put k l sm) = fst ` set sm" for k l
    using side_put_keys[of k l sm] by (metis set_map)
  moreover have "fst ` set (side_emplace k l sm) \<subseteq> insert k (fst ` set sm)" for k l
    using side_emplace_set[of k l sm] by force
  ultimately show ?thesis by (auto simp: add_to_side_def split: option.splits)
qed

lemma add_order_sides:
  assumes "symbol ord = book_symbol b"
  shows "add_order b ord =
     (True, ord\<lparr>sequence_number := sequence_counter b + 1\<rparr>,
      (if side ord = BUY
       then b\<lparr>sequence_counter := sequence_counter b + 1,
              bids := add_to_side (bids b) (ord\<lparr>sequence_number := sequence_counter b + 1\<rparr>)\<rparr>
       else b\<lparr>sequence_counter := sequence_counter b + 1,
              asks := add_to_side (asks b) (ord\<lparr>sequence_number := sequence_counter b + 1\<rparr>)\<rparr>))"
  using assms by (simp add: add_order_def Let_def)

lemma add_order_fail: "symbol ord \<noteq> book_symbol b \<Longrightarrow> add_order b ord = (False, ord, b)"
  by (simp add: add_order_def)

lemma add_order_active:
  assumes "resting_active b" "is_active ord"
  shows "resting_active (snd (snd (add_order b ord)))"
proof (cases "symbol ord = book_symbol b")
  case False
  with assms show ?thesis by (simp add: add_order_fail)
next
  case True
  have "is_active (ord\<lparr>sequence_number := sequence_counter b + 1\<rparr>)"
    using assms(2) by (simp add: is_active_def)
  with assms(1) show ?thesis
    by (auto simp: add_order_sides[OF True] resting_active_def list_all_iff book_orders_def
          add_to_side_orders)
qed

lemma sorted_keys_hd: "sorted_wrt (<) (map fst (sm::side_map)) \<Longrightarrow> x \<in> fst ` set sm \<Longrightarrow> fst (hd sm) \<le> x"
  by (cases sm) auto

lemma sorted_keys_last:
  assumes "sorted_wrt (<) (map fst (sm::side_map))" "x \<in> fst ` set sm"
  shows "x \<le> fst (last sm)"
proof -
  from assms(2) have ne: "sm \<noteq> []" by auto
  then have sp: "butlast sm @ [last sm] = sm" by simp
  have "sorted_wrt (<) (map fst (butlast sm @ [last sm]))" unfolding sp using assms(1) .
  then have "\<forall>y\<in>fst ` set (butlast sm). y < fst (last sm)"
    by (auto simp: sorted_wrt_append)
  moreover have "x \<in> fst ` set (butlast sm @ [last sm])" unfolding sp using assms(2) .
  then have "x \<in> fst ` set (butlast sm) \<or> x = fst (last sm)" by auto
  ultimately show ?thesis by auto
qed

lemma no_crossI:
  "(\<And>kb ka. kb \<in> fst ` set (bids b) \<Longrightarrow> ka \<in> fst ` set (asks b) \<Longrightarrow> kb < ka) \<Longrightarrow> no_cross b"
  unfolding no_cross_def by blast

lemma no_crossD: "no_cross b \<Longrightarrow> kb \<in> fst ` set (bids b) \<Longrightarrow> ka \<in> fst ` set (asks b) \<Longrightarrow> kb < ka"
  unfolding no_cross_def by blast

lemma not_can_match_keys:
  assumes "book_ok (order_book e)" "\<not> can_match e ord" "otype ord = LIMIT"
    and x: "x \<in> fst ` set (opposite (side ord) (order_book e))"
  shows "if side ord = BUY then price ord < x else x < price ord"
proof (cases "side ord = BUY")
  case True
  with x have xa: "x \<in> fst ` set (asks (order_book e))" by (simp add: opposite_def)
  then have ne: "asks (order_book e) \<noteq> []" by auto
  with assms(2,3) True have "price ord < fst (hd (asks (order_book e)))"
    by (simp add: can_match_def best_ask_def)
  moreover from assms(1) have "sorted_wrt (<) (map fst (asks (order_book e)))"
    by (simp add: book_ok_def side_ok_def)
  from sorted_keys_hd[OF this xa] have "fst (hd (asks (order_book e))) \<le> x" .
  ultimately show ?thesis using True by simp
next
  case False
  with x have xa: "x \<in> fst ` set (bids (order_book e))" by (simp add: opposite_def)
  then have ne: "bids (order_book e) \<noteq> []" by auto
  with assms(2,3) False have "fst (last (bids (order_book e))) < price ord"
    by (simp add: can_match_def best_bid_def)
  moreover from assms(1) have "sorted_wrt (<) (map fst (bids (order_book e)))"
    by (simp add: book_ok_def side_ok_def)
  from sorted_keys_last[OF this xa] have "x \<le> fst (last (bids (order_book e)))" .
  ultimately show ?thesis using False by simp
qed

lemma add_order_no_cross:
  assumes "book_ok (order_book e)" "no_cross (order_book e)" "\<not> can_match e ord" "otype ord = LIMIT"
  shows "no_cross (snd (snd (add_order (order_book e) ord)))"
proof (cases "symbol ord = book_symbol (order_book e)")
  case False
  with assms show ?thesis by (simp add: add_order_fail)
next
  case True
  define ord1 where "ord1 = ord\<lparr>sequence_number := sequence_counter (order_book e) + 1\<rparr>"
  have p: "price ord1 = price ord" by (simp add: ord1_def)
  note nk = not_can_match_keys[OF assms(1,3,4)]
  show ?thesis
  proof (cases "side ord = BUY")
    case b: True
    have bk: "bids (snd (snd (add_order (order_book e) ord))) = add_to_side (bids (order_book e)) ord1"
      and ak: "asks (snd (snd (add_order (order_book e) ord))) = asks (order_book e)"
      using b by (simp_all add: add_order_sides[OF True] ord1_def)
    show ?thesis
    proof (rule no_crossI)
      fix kb ka
      assume "kb \<in> fst ` set (bids (snd (snd (add_order (order_book e) ord))))"
        and ka: "ka \<in> fst ` set (asks (snd (snd (add_order (order_book e) ord))))"
      then have "kb = price ord \<or> kb \<in> fst ` set (bids (order_book e))"
        using add_to_side_keys[of "bids (order_book e)" ord1] p unfolding bk by auto
      moreover from ka have ka': "ka \<in> fst ` set (asks (order_book e))" unfolding ak .
      moreover from nk[of ka] ka' b have "price ord < ka" by (simp add: opposite_def)
      ultimately show "kb < ka" using no_crossD[OF assms(2), of kb ka] by auto
    qed
  next
    case s: False
    have bk: "asks (snd (snd (add_order (order_book e) ord))) = add_to_side (asks (order_book e)) ord1"
      and ak: "bids (snd (snd (add_order (order_book e) ord))) = bids (order_book e)"
      using s by (simp_all add: add_order_sides[OF True] ord1_def)
    show ?thesis
    proof (rule no_crossI)
      fix kb ka
      assume kb: "kb \<in> fst ` set (bids (snd (snd (add_order (order_book e) ord))))"
        and "ka \<in> fst ` set (asks (snd (snd (add_order (order_book e) ord))))"
      then have "ka = price ord \<or> ka \<in> fst ` set (asks (order_book e))"
        using add_to_side_keys[of "asks (order_book e)" ord1] p unfolding bk by auto
      moreover from kb have kb': "kb \<in> fst ` set (bids (order_book e))" unfolding ak .
      moreover from nk[of kb] kb' s have "kb < price ord" by (simp add: opposite_def)
      ultimately show "kb < ka" using no_crossD[OF assms(2), of kb ka] by auto
    qed
  qed
qed

subsection \<open>What a cancel removes\<close>

lemma find_app:
  "find P (xs @ ys) = (case find P xs of None \<Rightarrow> find P ys | Some x \<Rightarrow> Some x)"
  by (induction xs) auto

lemma erase_first_app:
  "erase_first i (xs @ ys) =
     (if find (\<lambda>x. order_id x = i) xs = None then xs @ erase_first i ys else erase_first i xs @ ys)"
  by (induction xs) auto

lemma level_remove_orders:
  "orders (level_remove_order l ord) = erase_first (order_id ord) (orders l)"
  by (auto simp: level_remove_order_def find_order_def erase_first_none split: option.splits)

lemma cancel_side_Some:
  "cancel_side sm i = Some (x, sm') \<Longrightarrow>
   \<exists>y. find (\<lambda>z. order_id z = i) (level_orders sm) = Some y \<and> x = y\<lparr>status := CANCELLED\<rparr> \<and>
       level_orders sm' = erase_first i (level_orders sm)"
proof (induction sm arbitrary: sm')
  case Nil
  then show ?case by simp
next
  case (Cons kl sm)
  obtain k l where kl: "kl = (k, l)" by (cases kl)
  show ?case
  proof (cases "find_order l i")
    case (Some y)
    then have f: "find (\<lambda>z. order_id z = i) (orders l) = Some y" by (simp add: find_order_def)
    from find_order_Some[OF Some] have yi: "order_id y = i" by simp
    from Cons.prems kl Some have x: "x = y\<lparr>status := CANCELLED\<rparr>"
      and sm': "sm' = (if level_empty (level_remove_order l x) then sm else (k, level_remove_order l x) # sm)"
      by (auto simp: Let_def)
    have o: "orders (level_remove_order l x) = erase_first i (orders l)"
      using x yi by (simp add: level_remove_orders)
    have "level_orders sm' = erase_first i (orders l) @ level_orders sm"
      using sm' o by (simp add: level_empty_def)
    with f x kl show ?thesis by (simp add: find_app erase_first_app)
  next
    case None
    then have f: "find (\<lambda>z. order_id z = i) (orders l) = None" by (simp add: find_order_def)
    from Cons.prems kl None obtain sm1 where c: "cancel_side sm i = Some (x, sm1)" "sm' = (k, l) # sm1"
      by (auto split: option.splits)
    from Cons.IH[OF c(1)] c(2) kl f show ?thesis by (auto simp: find_app erase_first_app)
  qed
qed

lemma cancel_side_None_find:
  "cancel_side sm i = None \<longleftrightarrow> find (\<lambda>z. order_id z = i) (level_orders sm) = None"
  by (auto simp: cancel_side_None find_None_iff)

lemma cancel_order_Some:
  assumes "cancel_order b i = (Some x, b')"
  shows "\<exists>y. find (\<lambda>z. order_id z = i) (book_orders b) = Some y \<and> x = y\<lparr>status := CANCELLED\<rparr> \<and>
       book_orders b' = erase_first i (book_orders b) \<and>
       book_symbol b' = book_symbol b \<and> sequence_counter b' = sequence_counter b \<and>
       fst ` set (bids b') \<subseteq> fst ` set (bids b) \<and> fst ` set (asks b') \<subseteq> fst ` set (asks b)"
proof (cases "cancel_side (bids b) i")
  case (Some p)
  obtain x1 sm where p: "p = (x1, sm)" by (cases p)
  with Some assms have r: "x = x1" "b' = b\<lparr>bids := sm\<rparr>" by (simp_all add: cancel_order_def)
  from cancel_side_Some[OF Some[unfolded p]] cancel_side_keys[OF Some[unfolded p]] r
  show ?thesis by (auto simp: book_orders_def find_app erase_first_app)
next
  case None
  with assms obtain sm where c: "cancel_side (asks b) i = Some (x, sm)" "b' = b\<lparr>asks := sm\<rparr>"
    by (auto simp: cancel_order_def split: option.splits)
  from None have "find (\<lambda>z. order_id z = i) (level_orders (bids b)) = None"
    by (simp add: cancel_side_None_find)
  with cancel_side_Some[OF c(1)] cancel_side_keys[OF c(1)] c(2)
  show ?thesis by (auto simp: book_orders_def find_app erase_first_app)
qed

lemma cancel_order_inv:
  shows "resting_active b \<Longrightarrow> resting_active (snd (cancel_order b i))"
    and "no_cross b \<Longrightarrow> no_cross (snd (cancel_order b i))"
proof -
  obtain xo b' where c: "cancel_order b i = (xo, b')" by (cases "cancel_order b i")
  show "resting_active (snd (cancel_order b i))" if "resting_active b"
  proof (cases xo)
    case None
    with c that cancel_order_None_book[of b i] show ?thesis by simp
  next
    case (Some x)
    with cancel_order_Some[of b i x b'] c have "set (book_orders b') \<subseteq> set (book_orders b)"
      using erase_first_subset[of i "book_orders b"] by auto
    with that c show ?thesis by (auto simp: resting_active_def list_all_iff)
  qed
  show "no_cross (snd (cancel_order b i))" if "no_cross b"
  proof (cases xo)
    case None
    with c that cancel_order_None_book[of b i] show ?thesis by simp
  next
    case (Some x)
    with cancel_order_Some[of b i x b'] c
    have s: "fst ` set (bids b') \<subseteq> fst ` set (bids b)" "fst ` set (asks b') \<subseteq> fst ` set (asks b)"
      by auto
    have "no_cross b'"
    proof (rule no_crossI)
      fix kb ka assume "kb \<in> fst ` set (bids b')" "ka \<in> fst ` set (asks b')"
      with s have "kb \<in> fst ` set (bids b)" "ka \<in> fst ` set (asks b)" by blast+
      then show "kb < ka" by (rule no_crossD[OF that])
    qed
    with c show ?thesis by simp
  qed
qed

subsection \<open>Every event keeps the invariant\<close>

lemma process_cancel_order_book:
  "order_book (process_cancel_order e i) = snd (cancel_order (order_book e) i)"
  by (auto simp: process_cancel_order_def split: prod.splits option.splits)

lemma process_cancel_order_inv: "engine_inv e \<Longrightarrow> engine_inv (process_cancel_order e i)"
  by (simp add: engine_inv_def process_cancel_order_book cancel_order_ok cancel_order_inv)

lemma match_limit_order_inv:
  assumes "engine_inv e" "otype ord = LIMIT"
  shows "engine_inv (snd (match_limit_order e ord))"
proof -
  obtain ord1 e1 where l: "limit_loop e ord = (ord1, e1)" by (cases "limit_loop e ord")
  from limit_loop_inv[OF assms(1), of ord] l have i1: "engine_inv e1"
    and nc: "\<not> (is_active ord1 \<and> can_match e1 ord1)" by simp_all
  from limit_loop_frame[of ord e] l assms(2) have t: "otype ord1 = LIMIT"
    by (simp add: same_frame_def)
  show ?thesis
  proof (cases "is_active ord1 \<and> remaining_quantity ord1 > 0")
    case False
    with l i1 show ?thesis by (auto simp: match_limit_order_def)
  next
    case True
    with nc have ncm: "\<not> can_match e1 ord1" by simp
    have "order_book (snd (match_limit_order e ord)) = snd (snd (add_order (order_book e1) ord1))"
      using l True by (auto simp: match_limit_order_def split: prod.splits)
    moreover have "book_ok (snd (snd (add_order (order_book e1) ord1)))"
      using i1 by (simp add: engine_inv_def add_order_ok)
    moreover have "resting_active (snd (snd (add_order (order_book e1) ord1)))"
      using i1 True by (simp add: engine_inv_def add_order_active)
    moreover have "no_cross (snd (snd (add_order (order_book e1) ord1)))"
      using i1 ncm t by (simp add: engine_inv_def add_order_no_cross)
    ultimately show ?thesis by (simp add: engine_inv_def)
  qed
qed

lemma match_market_order_book:
  "order_book (snd (match_market_order e ord)) = order_book (snd (market_loop e ord))"
  by (auto simp: match_market_order_def split: prod.splits)

lemma match_market_order_inv: "engine_inv e \<Longrightarrow> engine_inv (snd (match_market_order e ord))"
  using market_loop_inv(1)[of e ord]
  by (simp add: engine_inv_def match_market_order_book)

lemma process_new_order_inv:
  assumes "engine_inv e"
  shows "engine_inv (snd (process_new_order e ord))"
proof -
  define e0 where "e0 = e\<lparr>stats := (stats e)\<lparr>orders_processed := orders_processed (stats e) + 1\<rparr>\<rparr>"
  have i0: "engine_inv e0" using assms by (simp add: engine_inv_def e0_def)
  have "order_book (snd (process_new_order e ord)) =
      order_book (snd (if otype ord = MARKET then match_market_order e0 ord else match_limit_order e0 ord))"
    by (simp add: process_new_order_def Let_def e0_def split: prod.splits)
  moreover have "engine_inv (snd (if otype ord = MARKET then match_market_order e0 ord else match_limit_order e0 ord))"
    using i0 by (cases "otype ord") (simp_all add: match_market_order_inv match_limit_order_inv)
  ultimately show ?thesis by (simp add: engine_inv_def)
qed

lemma process_event_inv: "engine_inv e \<Longrightarrow> engine_inv (process_event e ev)"
  by (cases ev)
     (simp_all add: process_new_order_inv process_cancel_order_inv process_replace_order_def)

lemma new_engine_inv: "engine_inv (new_engine smb)"
proof -
  have "resting_active (new_book smb)" "no_cross (new_book smb)"
    by (simp_all add: resting_active_def book_orders_def no_cross_def new_book_def)
  then show ?thesis by (simp add: engine_inv_def new_engine_def new_book_ok)
qed

lemma run_events_inv: "engine_inv e \<Longrightarrow> engine_inv (run_events e evs)"
  unfolding run_events_def by (induction evs arbitrary: e) (simp_all add: process_event_inv)

section \<open>The claims on the first embedding\<close>

subsection \<open>A book without crossing keys is not crossed\<close>

lemma no_cross_uncrossed: "no_cross b \<Longrightarrow> uncrossed b"
proof -
  assume nc: "no_cross b"
  show ?thesis
  proof (cases "bids b = [] \<or> asks b = []")
    case True
    then show ?thesis by (auto simp: uncrossed_def best_bid_def best_ask_def)
  next
    case False
    then have "fst (last (bids b)) \<in> fst ` set (bids b)" "fst (hd (asks b)) \<in> fst ` set (asks b)"
      by simp_all
    from no_crossD[OF nc this] False show ?thesis
      by (simp add: uncrossed_def best_bid_def best_ask_def)
  qed
qed

subsection \<open>Every event keeps the book well formed\<close>





subsection \<open>Trades execute at the resting price\<close>

lemma resting_front_get_best:
  "get_best (side ord) b = Some l \<Longrightarrow> orders l = rst # xs \<Longrightarrow> resting_front b ord = Some rst"
  by (auto simp: resting_front_def get_best_def front_order_def)

text \<open>
  C1.  Every successful \<open>try_match\<close> (the only place where the engine trades) appends
  exactly one trade.  Its price is the price of the resting order, the front of the best
  opposite level, and its quantity is the minimum of the two remaining quantities before
  the match.  The match result reports the same price and quantity.  In particular, on a
  well-formed book with active resting orders, a BUY limit at \<open>P\<close> against a best ask
  \<open>Q \<le> P\<close> does match, and the trade's price is \<open>Q\<close>.
\<close>

theorem trade_at_resting_price:
  "(try_match e incoming = (r, incoming', e') \<and> matched r \<longrightarrow>
      (\<exists>resting t.
         resting_front (order_book e) incoming = Some resting \<and>
         trade_log e' = trade_log e @ [t] \<and>
         trade_price t = price resting \<and>
         trade_quantity t = min (remaining_quantity incoming) (remaining_quantity resting) \<and>
         match_price r = trade_price t \<and> match_quantity r = trade_quantity t)) \<and>
   (book_ok (order_book e) \<and> resting_active (order_book e) \<and>
    side incoming = BUY \<and> otype incoming = LIMIT \<and>
    best_ask (order_book e) = Some Q \<and> Q \<le> price incoming \<longrightarrow>
      matched (fst (try_match e incoming)) \<and>
      (\<exists>t. trade_log (snd (snd (try_match e incoming))) = trade_log e @ [t] \<and> trade_price t = Q))"
proof (intro conjI impI)
  assume a: "try_match e incoming = (r, incoming', e') \<and> matched r"
  then have tm: "try_match e incoming = (r, incoming', e')" and m: "matched r" by simp_all
  from tm m show "\<exists>resting t.
         resting_front (order_book e) incoming = Some resting \<and>
         trade_log e' = trade_log e @ [t] \<and>
         trade_price t = price resting \<and>
         trade_quantity t = min (remaining_quantity incoming) (remaining_quantity resting) \<and>
         match_price r = trade_price t \<and> match_quantity r = trade_quantity t"
  proof (rule try_match_matchedE)
    fix l rst xs mq
    assume f: "get_best (side incoming) (order_book e) = Some l" "orders l = rst # xs"
      "mq = min (remaining_quantity incoming) (remaining_quantity rst)"
      "r = \<lparr>matched = True, match_price = price rst, match_quantity = mq,
            resting_order = Some (fill rst mq)\<rparr>"
      "e' = after_trade e (trade_of e incoming rst mq)
              (book_after_match (side incoming) (order_book e) l (fill rst mq) xs mq)"
    have "resting_front (order_book e) incoming = Some rst"
      using f(1,2) by (rule resting_front_get_best)
    moreover have "trade_log e' = trade_log e @ [trade_of e incoming rst mq]"
      using f(5) by simp
    moreover have "trade_price (trade_of e incoming rst mq) = price rst"
      "trade_quantity (trade_of e incoming rst mq) = mq"
      by (simp_all add: trade_of_def)
    ultimately show ?thesis using f(3,4) by auto
  qed
next
  assume a: "book_ok (order_book e) \<and> resting_active (order_book e) \<and>
    side incoming = BUY \<and> otype incoming = LIMIT \<and>
    best_ask (order_book e) = Some Q \<and> Q \<le> price incoming"
  then have cm: "can_match e incoming" by (simp add: can_match_def)
  obtain r incoming' e' where tm: "try_match e incoming = (r, incoming', e')"
    by (cases "try_match e incoming") auto
  from a cm have m: "matched (fst (try_match e incoming))" by (simp add: can_match_matches)
  then show "matched (fst (try_match e incoming))" .
  from m tm have mr: "matched r" by simp
  from a have ok: "book_ok (order_book e)" by simp
  from ok tm mr show "\<exists>t. trade_log (snd (snd (try_match e incoming))) = trade_log e @ [t] \<and> trade_price t = Q"
  proof (rule try_match_okE)
    fix pre k l post rst xs mq
    assume f: "opposite (side incoming) (order_book e) = pre @ (k, l) # post"
      "side incoming = BUY \<Longrightarrow> pre = []" "orders l = rst # xs"
      "level_ok (other_side (side incoming)) k l"
      "e' = after_trade e (trade_of e incoming rst mq)
            (with_opposite (side incoming) (order_book e)
               (side_after_match pre k l post (fill rst mq) xs mq))"
    from a f(1,2) have "asks (order_book e) = (k, l) # post" by (simp add: opposite_def)
    with a have "Q = k" by (simp add: best_ask_def)
    moreover from f(3,4) have "price rst = k" by (simp add: level_ok_def level_weak_def)
    ultimately have "trade_price (trade_of e incoming rst mq) = Q" by (simp add: trade_of_def)
    moreover have "trade_log (snd (snd (try_match e incoming))) = trade_log e @ [trade_of e incoming rst mq]"
      using tm f(5) by simp
    ultimately show ?thesis by blast
  qed
qed

lemma engine_C_book:
  "order_book engine_C =
     \<lparr>book_symbol = ''AAPL'', bids = [],
      asks = [(15100, \<lparr>level_price = 15100, total_quantity = 100,
                orders = [(new_order 1 ''AAPL'' SELL LIMIT 15100 100)\<lparr>sequence_number := 1\<rparr>]\<rparr>)],
      sequence_counter = 1\<rparr>"
  unfolding engine_C_def by code_simp

theorem trade_at_resting_price_witness:
  "matched (fst (try_match engine_C (new_order 2 ''AAPL'' BUY LIMIT 15200 60))) \<and>
   (\<exists>resting t.
      resting_front (order_book engine_C) (new_order 2 ''AAPL'' BUY LIMIT 15200 60) = Some resting \<and>
      trade_log (snd (snd (try_match engine_C (new_order 2 ''AAPL'' BUY LIMIT 15200 60)))) =
        trade_log engine_C @ [t] \<and>
      trade_price t = price resting \<and>
      trade_quantity t =
        min (remaining_quantity (new_order 2 ''AAPL'' BUY LIMIT 15200 60))
            (remaining_quantity resting)) \<and>
   (\<exists>t. trade_log (snd (snd (try_match engine_C (new_order 2 ''AAPL'' BUY LIMIT 15200 60)))) =
          trade_log engine_C @ [t] \<and> trade_price t = 15100) \<and>
   map trade_quantity (trade_log (snd (snd (try_match engine_C
      (new_order 2 ''AAPL'' BUY LIMIT 15200 60))))) = [60]"
proof -
  have h: "book_ok (order_book engine_C) \<and> resting_active (order_book engine_C) \<and>
      side (new_order 2 ''AAPL'' BUY LIMIT 15200 60) = BUY \<and>
      otype (new_order 2 ''AAPL'' BUY LIMIT 15200 60) = LIMIT \<and>
      best_ask (order_book engine_C) = Some 15100 \<and>
      15100 \<le> price (new_order 2 ''AAPL'' BUY LIMIT 15200 60)"
    by (simp add: engine_C_book book_ok_def side_ok_def level_ok_def level_weak_def
          resting_active_def book_orders_def best_ask_def
          new_order_def remaining_quantity_def is_active_def)
  have v: "map trade_quantity (trade_log (snd (snd (try_match engine_C
      (new_order 2 ''AAPL'' BUY LIMIT 15200 60))))) = [60]"
    unfolding engine_C_def by code_simp
  note th = trade_at_resting_price[where e = engine_C
      and incoming = "new_order 2 ''AAPL'' BUY LIMIT 15200 60" and Q = 15100
      and r = "fst (try_match engine_C (new_order 2 ''AAPL'' BUY LIMIT 15200 60))"
      and incoming' = "fst (snd (try_match engine_C (new_order 2 ''AAPL'' BUY LIMIT 15200 60)))"
      and e' = "snd (snd (try_match engine_C (new_order 2 ''AAPL'' BUY LIMIT 15200 60)))"]
  have p: "try_match engine_C (new_order 2 ''AAPL'' BUY LIMIT 15200 60) =
      (fst (try_match engine_C (new_order 2 ''AAPL'' BUY LIMIT 15200 60)),
       fst (snd (try_match engine_C (new_order 2 ''AAPL'' BUY LIMIT 15200 60))),
       snd (snd (try_match engine_C (new_order 2 ''AAPL'' BUY LIMIT 15200 60))))" by simp
  from th h have m: "matched (fst (try_match engine_C (new_order 2 ''AAPL'' BUY LIMIT 15200 60)))"
    and q: "\<exists>t. trade_log (snd (snd (try_match engine_C (new_order 2 ''AAPL'' BUY LIMIT 15200 60)))) =
          trade_log engine_C @ [t] \<and> trade_price t = 15100" by blast+
  from th p m have "\<exists>resting t.
      resting_front (order_book engine_C) (new_order 2 ''AAPL'' BUY LIMIT 15200 60) = Some resting \<and>
      trade_log (snd (snd (try_match engine_C (new_order 2 ''AAPL'' BUY LIMIT 15200 60)))) =
        trade_log engine_C @ [t] \<and>
      trade_price t = price resting \<and>
      trade_quantity t =
        min (remaining_quantity (new_order 2 ''AAPL'' BUY LIMIT 15200 60))
            (remaining_quantity resting)" by blast
  with m q v show ?thesis by blast
qed

subsection \<open>Price-time priority\<close>

lemma priority_queue_opposite:
  "priority_queue sd b =
     (if sd = BUY then level_orders (opposite sd b) else level_orders (rev (opposite sd b)))"
  by (simp add: priority_queue_def opposite_def)

lemma map_of_side_put: "map_of sm k = Some l \<Longrightarrow> map_of (side_put k v sm) k = Some v"
  by (induction sm) (auto split: if_splits)

lemma add_to_side_back:
  "map_of sm (price ord) = Some l \<Longrightarrow>
   map_option orders (map_of (add_to_side sm ord) (price ord)) = Some (orders l @ [ord])"
  by (simp add: add_to_side_def map_of_side_put level_add_order_def)

lemma try_match_queue:
  assumes "book_ok (order_book e)" "try_match e ord = (r, ord', e')" "matched r"
  shows "\<exists>rst q mq. priority_queue (side ord) (order_book e) = rst # q \<and>
           resting_front (order_book e) ord = Some rst \<and>
           resting_order r = Some (fill rst mq) \<and>
           trade_log e' = trade_log e @ [trade_of e ord rst mq] \<and>
           priority_queue (side ord) (order_book e') =
             (if is_filled (fill rst mq) then q else fill rst mq # q) \<and>
           (is_active ord' \<longrightarrow> is_filled (fill rst mq))"
  using assms
proof (rule try_match_okE)
  fix pre k l post rst xs mq
  assume f: "opposite (side ord) (order_book e) = pre @ (k, l) # post"
    "side ord = BUY \<Longrightarrow> pre = []" "side ord \<noteq> BUY \<Longrightarrow> post = []"
    "orders l = rst # xs"
    "mq = min (remaining_quantity ord) (remaining_quantity rst)"
    "r = \<lparr>matched = True, match_price = price rst, match_quantity = mq,
          resting_order = Some (fill rst mq)\<rparr>"
    "ord' = fill ord mq"
    "e' = after_trade e (trade_of e ord rst mq)
            (with_opposite (side ord) (order_book e)
               (side_after_match pre k l post (fill rst mq) xs mq))"
  define q where "q = (if side ord = BUY then xs @ level_orders post else xs @ level_orders (rev pre))"
  have 1: "priority_queue (side ord) (order_book e) = rst # q"
    using f(1-4) by (auto simp: priority_queue_opposite q_def)
  have 2: "priority_queue (side ord) (order_book e') =
             (if is_filled (fill rst mq) then q else fill rst mq # q)"
    using f(2,3,8) by (auto simp: priority_queue_opposite q_def side_after_match_def)
  have "get_best (side ord) (order_book e) = Some l"
    using f(1-3)
    by (cases "side ord = BUY")
       (auto simp: get_best_def get_best_ask_level_def get_best_bid_level_def opposite_def)
  then have 3: "resting_front (order_book e) ord = Some rst"
    using f(4) by (rule resting_front_get_best)
  have 4: "is_active ord' \<longrightarrow> is_filled (fill rst mq)"
    using f(5,7) active_after_fill(1)[of ord rst] by (simp add: fill_def)
  from 1 2 3 4 f(6,8) show ?thesis by auto
qed

lemma loop_inv_start: "book_ok (order_book e) \<Longrightarrow> loop_inv e ord ord e"
  by (simp add: loop_inv_def)

lemma loop_inv_step:
  assumes "loop_inv e ord ord0 e0" "is_active ord0" "try_match e0 ord0 = (r, ord', e')" "matched r"
  shows "loop_inv e ord ord' e'"
proof -
  from assms(1) have ok: "book_ok (order_book e0)" and sd: "side ord0 = side ord"
    by (simp_all add: loop_inv_def)
  from assms(1,2) obtain ts where ts: "trade_log e0 = trade_log e @ ts"
    "map order_id (priority_queue (side ord) (order_book e)) =
       map (resting_id (side ord)) ts @ map order_id (priority_queue (side ord) (order_book e0))"
    by (auto simp: loop_inv_def)
  from try_match_queue[OF ok assms(3,4)] obtain rst q mq where
    q: "priority_queue (side ord0) (order_book e0) = rst # q"
    "trade_log e' = trade_log e0 @ [trade_of e0 ord0 rst mq]"
    "priority_queue (side ord0) (order_book e') =
       (if is_filled (fill rst mq) then q else fill rst mq # q)"
    "is_active ord' \<longrightarrow> is_filled (fill rst mq)"
    by blast
  have rid: "resting_id (side ord) (trade_of e0 ord0 rst mq) = order_id rst"
    using sd by (simp add: resting_id_def trade_of_def)
  have a: "trade_log e' = trade_log e @ (ts @ [trade_of e0 ord0 rst mq])"
    using ts(1) q(2) by simp
  have b: "map order_id (priority_queue (side ord) (order_book e)) =
      map (resting_id (side ord)) (ts @ [trade_of e0 ord0 rst mq]) @ map order_id q"
    using ts(2) q(1) sd rid by simp
  have c: "is_active ord' \<longrightarrow> priority_queue (side ord) (order_book e') = q"
    using q(3,4) sd by simp
  have "book_ok (order_book e')" using try_match_inv(1)[OF assms(3) ok] .
  moreover have "side ord' = side ord"
    using try_match_frame[OF assms(3)] sd by (simp add: same_frame_def)
  ultimately show ?thesis
    unfolding loop_inv_def using a b c by blast
qed

lemma loop_inv_served: "loop_inv e ord ord1 e1 \<Longrightarrow> served_in_order e ord e1"
  by (auto simp: loop_inv_def served_in_order_def)

lemma limit_loop_served:
  assumes "book_ok (order_book e)"
  shows "served_in_order e ord (snd (limit_loop e ord))"
proof -
  have "\<exists>ord1 e1. limit_loop e ord = (ord1, e1) \<and> loop_inv e ord ord1 e1 \<and>
           (\<not> (is_active ord1 \<and> can_match e1 ord1) \<or> \<not> matched (fst (try_match e1 ord1)))"
    by (rule limit_loop_rule[where P = "loop_inv e ord"])
       (use assms loop_inv_start loop_inv_step in blast)+
  then show ?thesis by (auto dest: loop_inv_served)
qed

lemma market_loop_served:
  assumes "book_ok (order_book e)"
  shows "served_in_order e ord (snd (market_loop e ord))"
proof -
  have "\<exists>ord1 e1. loop_inv e ord ord1 e1 \<and>
           (market_loop e ord = (ord1, e1) \<and> \<not> (is_active ord1 \<and> can_match e1 ord1) \<or>
            market_loop e ord = (ord1\<lparr>status := REJECTED\<rparr>, e1) \<and> is_active ord1 \<and>
              can_match e1 ord1 \<and> \<not> matched (fst (try_match e1 ord1)))"
    by (rule market_loop_rule[where P = "loop_inv e ord"])
       (use assms loop_inv_start loop_inv_step in blast)+
  then show ?thesis by (auto dest: loop_inv_served)
qed

lemma process_new_order_eq:
  "process_new_order e ord =
     (let e0 = e\<lparr>stats := (stats e)\<lparr>orders_processed := orders_processed (stats e) + 1\<rparr>\<rparr>;
          p = (if otype ord = MARKET then match_market_order e0 ord else match_limit_order e0 ord)
      in (fst p, (snd p)\<lparr>order_update_log := order_update_log (snd p) @ [fst p]\<rparr>))"
  by (simp add: process_new_order_def Let_def split: prod.splits)

lemma process_new_order_served:
  assumes "book_ok (order_book e)"
  shows "served_in_order e ord (snd (process_new_order e ord))"
proof -
  define e0 where "e0 = e\<lparr>stats := (stats e)\<lparr>orders_processed := orders_processed (stats e) + 1\<rparr>\<rparr>"
  have i0: "book_ok (order_book e0)" using assms by (simp add: e0_def)
  have s0: "served_in_order e0 ord e1 \<Longrightarrow> served_in_order e ord e1" for e1
    by (simp add: served_in_order_def e0_def)
  have m: "trade_log (snd (match_market_order e0 ord)) = trade_log (snd (market_loop e0 ord))"
    by (auto simp: match_market_order_def split: prod.splits)
  have l: "trade_log (snd (match_limit_order e0 ord)) = trade_log (snd (limit_loop e0 ord))"
    by (auto simp: match_limit_order_def split: prod.splits)
  have "trade_log (snd (process_new_order e ord)) =
      (if otype ord = MARKET then trade_log (snd (market_loop e0 ord))
       else trade_log (snd (limit_loop e0 ord)))"
    using m l by (simp add: process_new_order_eq Let_def e0_def[symmetric])
  moreover have "served_in_order e ord (snd (market_loop e0 ord))"
    "served_in_order e ord (snd (limit_loop e0 ord))"
    using market_loop_served[OF i0] limit_loop_served[OF i0] s0 by blast+
  ultimately show ?thesis
    by (auto simp: served_in_order_def)
qed

text \<open>
  C3.  (1) An order added to an existing level goes to the back of the level's queue, so
  the queue of a level is in insertion order.  (2) On a well-formed book a successful match
  is with the head \<open>A\<close> of the priority queue, which is the front order of the best opposite
  level; the trade names \<open>A\<close>, and the orders behind \<open>A\<close> stay as they are and in their
  order: they follow the written \<open>A\<close> when it is not filled and move up when it is.
  (3) Over the whole processing of an incoming order, the resting orders named by the new
  trades, in trade order, are an initial segment of the priority queue the order found.
  Two orders \<open>A\<close> before \<open>B\<close> of one level are in this order in the priority queue, so
  no trade with \<open>B\<close> comes before a trade with \<open>A\<close>.
\<close>

theorem price_time_priority:
  "(map_of sm (price B) = Some l \<longrightarrow>
      map_option orders (map_of (add_to_side sm B) (price B)) = Some (orders l @ [B])) \<and>
   (book_ok (order_book e) \<and> try_match e incoming = (r, incoming', e') \<and> matched r \<longrightarrow>
      (\<exists>A q mq.
         priority_queue (side incoming) (order_book e) = A # q \<and>
         resting_front (order_book e) incoming = Some A \<and>
         resting_order r = Some (fill A mq) \<and>
         (\<exists>t. trade_log e' = trade_log e @ [t] \<and> resting_id (side incoming) t = order_id A) \<and>
         priority_queue (side incoming) (order_book e') =
           (if is_filled (fill A mq) then q else fill A mq # q))) \<and>
   (book_ok (order_book e) \<longrightarrow> served_in_order e incoming (snd (process_new_order e incoming)))"
proof (intro conjI impI)
  assume "map_of sm (price B) = Some l"
  then show "map_option orders (map_of (add_to_side sm B) (price B)) = Some (orders l @ [B])"
    by (rule add_to_side_back)
next
  assume a: "book_ok (order_book e) \<and> try_match e incoming = (r, incoming', e') \<and> matched r"
  then have ok: "book_ok (order_book e)" and tm: "try_match e incoming = (r, incoming', e')"
    and m: "matched r" by simp_all
  from try_match_queue[OF ok tm m] obtain rst q mq where
    q: "priority_queue (side incoming) (order_book e) = rst # q"
    "resting_front (order_book e) incoming = Some rst"
    "resting_order r = Some (fill rst mq)"
    "trade_log e' = trade_log e @ [trade_of e incoming rst mq]"
    "priority_queue (side incoming) (order_book e') =
       (if is_filled (fill rst mq) then q else fill rst mq # q)"
    by blast
  have "resting_id (side incoming) (trade_of e incoming rst mq) = order_id rst"
    by (simp add: resting_id_def trade_of_def)
  with q show "\<exists>A q mq.
         priority_queue (side incoming) (order_book e) = A # q \<and>
         resting_front (order_book e) incoming = Some A \<and>
         resting_order r = Some (fill A mq) \<and>
         (\<exists>t. trade_log e' = trade_log e @ [t] \<and> resting_id (side incoming) t = order_id A) \<and>
         priority_queue (side incoming) (order_book e') =
           (if is_filled (fill A mq) then q else fill A mq # q)"
    by blast
next
  assume "book_ok (order_book e)"
  then show "served_in_order e incoming (snd (process_new_order e incoming))"
    by (rule process_new_order_served)
qed

lemma engine_D_book:
  "order_book engine_D =
     \<lparr>book_symbol = ''AAPL'', bids = [],
      asks = [(15000, \<lparr>level_price = 15000, total_quantity = 200,
                orders = [(new_order 1 ''AAPL'' SELL LIMIT 15000 100)\<lparr>sequence_number := 1\<rparr>,
                          (new_order 2 ''AAPL'' SELL LIMIT 15000 100)\<lparr>sequence_number := 2\<rparr>]\<rparr>)],
      sequence_counter = 2\<rparr>"
  unfolding engine_D_def by code_simp

theorem price_time_priority_witness:
  "book_ok (order_book engine_D) \<and>
   map order_id (priority_queue BUY (order_book engine_D)) = [1, 2] \<and>
   served_in_order engine_D (new_order 3 ''AAPL'' BUY LIMIT 15000 150)
     (snd (process_new_order engine_D (new_order 3 ''AAPL'' BUY LIMIT 15000 150))) \<and>
   map sell_order_id (trade_log (snd (process_new_order engine_D
     (new_order 3 ''AAPL'' BUY LIMIT 15000 150)))) = [1, 2] \<and>
   map trade_quantity (trade_log (snd (process_new_order engine_D
     (new_order 3 ''AAPL'' BUY LIMIT 15000 150)))) = [100, 50]"
proof -
  have h: "book_ok (order_book engine_D)"
    by (simp add: engine_D_book book_ok_def side_ok_def level_ok_def level_weak_def
          new_order_def remaining_quantity_def)
  have p: "map order_id (priority_queue BUY (order_book engine_D)) = [1, 2]"
    by (simp add: engine_D_book priority_queue_def new_order_def)
  have v: "map sell_order_id (trade_log (snd (process_new_order engine_D
     (new_order 3 ''AAPL'' BUY LIMIT 15000 150)))) = [1, 2]"
    "map trade_quantity (trade_log (snd (process_new_order engine_D
     (new_order 3 ''AAPL'' BUY LIMIT 15000 150)))) = [100, 50]"
    unfolding engine_D_def by code_simp+
  note th = price_time_priority[where e = engine_D
      and incoming = "new_order 3 ''AAPL'' BUY LIMIT 15000 150"]
  from th h have "served_in_order engine_D (new_order 3 ''AAPL'' BUY LIMIT 15000 150)
     (snd (process_new_order engine_D (new_order 3 ''AAPL'' BUY LIMIT 15000 150)))" by blast
  with h p v show ?thesis by blast
qed

subsection \<open>Market orders\<close>

lemma can_match_market:
  "otype ord = MARKET \<Longrightarrow> can_match e ord \<longleftrightarrow> opposite (side ord) (order_book e) \<noteq> []"
  by (auto simp: can_match_def best_ask_def best_bid_def opposite_def)

lemma fill_inactive_remaining: "\<not> is_active (fill x q) \<Longrightarrow> remaining_quantity (fill x q) \<le> 0"
  using fill_active[of x q] by (simp add: is_filled_def remaining_quantity_def del: fill_fields(9))

lemma market_loop_result:
  assumes "engine_inv e" "is_active ord"
  shows "\<exists>ord1 e1. market_loop e ord = (ord1, e1) \<and> engine_inv e1 \<and>
           (is_active ord1 \<or> remaining_quantity ord1 \<le> 0) \<and>
           \<not> (is_active ord1 \<and> can_match e1 ord1)"
proof -
  define P where "P = (\<lambda>(ord1::Order) e1. engine_inv e1 \<and>
     (is_active ord1 \<or> remaining_quantity ord1 \<le> 0))"
  have "\<exists>ord1 e1. P ord1 e1 \<and>
           (market_loop e ord = (ord1, e1) \<and> \<not> (is_active ord1 \<and> can_match e1 ord1) \<or>
            market_loop e ord = (ord1\<lparr>status := REJECTED\<rparr>, e1) \<and> is_active ord1 \<and>
              can_match e1 ord1 \<and> \<not> matched (fst (try_match e1 ord1)))"
  proof (rule market_loop_rule)
    show "P ord e" using assms by (simp add: P_def)
  next
    fix e0 ord0 r ord' e'
    assume a: "P ord0 e0" "try_match e0 ord0 = (r, ord', e')" "matched r"
    then have "engine_inv e'" by (auto simp: P_def intro: try_match_engine_inv)
    moreover from a(2,3) have "is_active ord' \<or> remaining_quantity ord' \<le> 0"
      by (rule try_match_matchedE) (use fill_inactive_remaining in blast)
    ultimately show "P ord' e'" by (simp add: P_def)
  qed
  then obtain ord1 e1 where r: "P ord1 e1"
    "market_loop e ord = (ord1, e1) \<and> \<not> (is_active ord1 \<and> can_match e1 ord1) \<or>
            market_loop e ord = (ord1\<lparr>status := REJECTED\<rparr>, e1) \<and> is_active ord1 \<and>
              can_match e1 ord1 \<and> \<not> matched (fst (try_match e1 ord1))" by blast
  from r have "market_loop e ord = (ord1, e1)" "\<not> (is_active ord1 \<and> can_match e1 ord1)"
    using can_match_matches[of e1 ord1] by (auto simp: P_def engine_inv_def)
  with r(1) show ?thesis by (auto simp: P_def)
qed

lemma match_market_order_status:
  "remaining_quantity (fst (match_market_order e ord)) > 0 \<Longrightarrow>
   status (fst (match_market_order e ord)) = REJECTED"
  by (auto simp: match_market_order_def remaining_quantity_def split: prod.splits if_splits)

lemma process_new_order_market:
  assumes "otype ord = MARKET"
  shows "fst (process_new_order e ord) =
           fst (match_market_order
             (e\<lparr>stats := (stats e)\<lparr>orders_processed := orders_processed (stats e) + 1\<rparr>\<rparr>) ord)"
    and "order_book (snd (process_new_order e ord)) =
           order_book (snd (market_loop
             (e\<lparr>stats := (stats e)\<lparr>orders_processed := orders_processed (stats e) + 1\<rparr>\<rparr>) ord))"
    and "trade_log (snd (process_new_order e ord)) =
           trade_log (snd (market_loop
             (e\<lparr>stats := (stats e)\<lparr>orders_processed := orders_processed (stats e) + 1\<rparr>\<rparr>) ord))"
  using assms
  by (auto simp: process_new_order_eq Let_def match_market_order_def split: prod.splits)

text \<open>
  C7.  For a MARKET order: whenever a remaining quantity is left at the end of processing,
  the order's final status is REJECTED.  Against an empty opposite side nothing is traded,
  the book is unchanged, and an order with a positive remaining quantity comes back REJECTED
  and otherwise as it was.  A market order is never inserted: the book's sequence counter,
  which every insertion advances, is unchanged, and on every state of the engine invariant
  the order's own side of the book is unchanged.  On such a state, an order that was active
  and ends with a remaining quantity has exhausted the opposite side.
\<close>

theorem market_order_rejected_never_rests:
  assumes "otype ord = MARKET"
  shows
    "(remaining_quantity (fst (process_new_order e ord)) > 0 \<longrightarrow>
        status (fst (process_new_order e ord)) = REJECTED) \<and>
     sequence_counter (order_book (snd (process_new_order e ord))) =
       sequence_counter (order_book e) \<and>
     (opposite (side ord) (order_book e) = [] \<longrightarrow>
        trade_log (snd (process_new_order e ord)) = trade_log e \<and>
        order_book (snd (process_new_order e ord)) = order_book e \<and>
        fst (process_new_order e ord) =
          (if remaining_quantity ord > 0 then ord\<lparr>status := REJECTED\<rparr> else ord)) \<and>
     (engine_inv e \<longrightarrow>
        own_side (side ord) (order_book (snd (process_new_order e ord))) =
          own_side (side ord) (order_book e) \<and>
        (is_active ord \<and> remaining_quantity (fst (process_new_order e ord)) > 0 \<longrightarrow>
           opposite (side ord) (order_book (snd (process_new_order e ord))) = []))"
proof -
  define e0 where "e0 = e\<lparr>stats := (stats e)\<lparr>orders_processed := orders_processed (stats e) + 1\<rparr>\<rparr>"
  note pm = process_new_order_market[OF assms, of e, folded e0_def]
  have b0: "order_book e0 = order_book e" "trade_log e0 = trade_log e" by (simp_all add: e0_def)
  have 1: "remaining_quantity (fst (process_new_order e ord)) > 0 \<longrightarrow>
        status (fst (process_new_order e ord)) = REJECTED"
    using match_market_order_status[of e0 ord] by (simp add: pm(1))
  have 2: "sequence_counter (order_book (snd (process_new_order e ord))) =
       sequence_counter (order_book e)"
    using market_loop_frame[of ord e0] by (simp add: pm(2) same_frame_def b0)
  have 3: "trade_log (snd (process_new_order e ord)) = trade_log e \<and>
        order_book (snd (process_new_order e ord)) = order_book e \<and>
        fst (process_new_order e ord) =
          (if remaining_quantity ord > 0 then ord\<lparr>status := REJECTED\<rparr> else ord)"
    if "opposite (side ord) (order_book e) = []"
  proof -
    from that assms have "\<not> can_match e0 ord" by (simp add: can_match_market b0)
    then have "market_loop e0 ord = (ord, e0)" by (simp add: market_loop_stop)
    then show ?thesis by (simp add: pm match_market_order_def b0)
  qed
  have 4: "own_side (side ord) (order_book (snd (process_new_order e ord))) =
          own_side (side ord) (order_book e) \<and>
        (is_active ord \<and> remaining_quantity (fst (process_new_order e ord)) > 0 \<longrightarrow>
           opposite (side ord) (order_book (snd (process_new_order e ord))) = [])"
    if inv: "engine_inv e"
  proof
    from inv have i0: "engine_inv e0" by (simp add: engine_inv_def b0)
    from market_loop_inv(3)[OF i0, of ord]
    show "own_side (side ord) (order_book (snd (process_new_order e ord))) =
          own_side (side ord) (order_book e)" by (simp add: pm(2) b0)
    show "is_active ord \<and> remaining_quantity (fst (process_new_order e ord)) > 0 \<longrightarrow>
           opposite (side ord) (order_book (snd (process_new_order e ord))) = []"
    proof
      assume a: "is_active ord \<and> remaining_quantity (fst (process_new_order e ord)) > 0"
      with market_loop_result[OF i0, of ord] obtain ord1 e1 where
        r: "market_loop e0 ord = (ord1, e1)" "is_active ord1 \<or> remaining_quantity ord1 \<le> 0"
        "\<not> (is_active ord1 \<and> can_match e1 ord1)" by blast
      from r(1) have "remaining_quantity (fst (match_market_order e0 ord)) = remaining_quantity ord1"
        by (simp add: match_market_order_def remaining_quantity_def)
      with a have "remaining_quantity ord1 > 0" by (simp add: pm(1))
      with r(2,3) have "\<not> can_match e1 ord1" by auto
      moreover from market_loop_frame[of ord e0] r(1) assms have "otype ord1 = MARKET" "side ord1 = side ord"
        by (simp_all add: same_frame_def)
      ultimately have "opposite (side ord) (order_book e1) = []"
        by (simp add: can_match_market)
      with r(1) show "opposite (side ord) (order_book (snd (process_new_order e ord))) = []"
        by (simp add: pm(2))
    qed
  qed
  from 1 2 3 4 show ?thesis by blast
qed

theorem market_order_witness:
  "status (fst (process_new_order (new_engine ''AAPL'') (new_order 1 ''AAPL'' BUY MARKET 0 50))) = REJECTED \<and>
   trade_log (snd (process_new_order (new_engine ''AAPL'') (new_order 1 ''AAPL'' BUY MARKET 0 50))) = [] \<and>
   order_book (snd (process_new_order (new_engine ''AAPL'') (new_order 1 ''AAPL'' BUY MARKET 0 50))) =
     new_book ''AAPL'' \<and>
   status (fst (process_new_order engine_C (new_order 2 ''AAPL'' BUY MARKET 0 150))) = REJECTED \<and>
   filled_quantity (fst (process_new_order engine_C (new_order 2 ''AAPL'' BUY MARKET 0 150))) = 100 \<and>
   bids (order_book (snd (process_new_order engine_C (new_order 2 ''AAPL'' BUY MARKET 0 150)))) = [] \<and>
   asks (order_book (snd (process_new_order engine_C (new_order 2 ''AAPL'' BUY MARKET 0 150)))) = []"
proof -
  let ?m1 = "new_order 1 ''AAPL'' BUY MARKET 0 50"
  let ?m2 = "new_order 2 ''AAPL'' BUY MARKET 0 150"
  have t1: "otype ?m1 = MARKET" and t2: "otype ?m2 = MARKET" by (simp_all add: new_order_def)
  note th1 = market_order_rejected_never_rests[OF t1, of "new_engine ''AAPL''"]
  note th2 = market_order_rejected_never_rests[OF t2, of engine_C]
  have o1: "opposite (side ?m1) (order_book (new_engine ''AAPL'')) = []"
    by (simp add: opposite_def new_engine_def new_book_def new_order_def)
  have r1: "remaining_quantity ?m1 > 0" by (simp add: new_order_def remaining_quantity_def)
  from th1 o1 r1 have a: "trade_log (snd (process_new_order (new_engine ''AAPL'') ?m1)) = trade_log (new_engine ''AAPL'')"
    "order_book (snd (process_new_order (new_engine ''AAPL'') ?m1)) = order_book (new_engine ''AAPL'')"
    "fst (process_new_order (new_engine ''AAPL'') ?m1) = ?m1\<lparr>status := REJECTED\<rparr>"
    by simp_all
  have i: "engine_inv engine_C"
    by (simp add: engine_inv_def engine_C_book book_ok_def side_ok_def level_ok_def level_weak_def
          resting_active_def book_orders_def no_cross_def
          new_order_def remaining_quantity_def is_active_def)
  have f: "filled_quantity (fst (process_new_order engine_C ?m2)) = 100"
    unfolding engine_C_def by code_simp
  then have r2: "remaining_quantity (fst (process_new_order engine_C ?m2)) > 0"
    by (simp add: remaining_quantity_def) code_simp
  have a2: "is_active ?m2" by (simp add: new_order_def is_active_def)
  have s2: "side ?m2 = BUY" by (simp add: new_order_def)
  from th2 r2 have b1: "status (fst (process_new_order engine_C ?m2)) = REJECTED" by blast
  from th2 i a2 r2 have "own_side (side ?m2) (order_book (snd (process_new_order engine_C ?m2))) =
          own_side (side ?m2) (order_book engine_C)"
    "opposite (side ?m2) (order_book (snd (process_new_order engine_C ?m2))) = []" by blast+
  then have b2: "bids (order_book (snd (process_new_order engine_C ?m2))) = []"
    "asks (order_book (snd (process_new_order engine_C ?m2))) = []"
    by (simp_all add: s2 own_side_def opposite_def engine_C_book)
  from a b1 f b2 show ?thesis by (simp add: new_engine_def)
qed

subsection \<open>Submitting a passive limit order and cancelling it\<close>

lemma level_add_remove:
  assumes "\<forall>x\<in>set (orders l). order_id x \<noteq> order_id ord"
  shows "find_order (level_add_order l ord) (order_id ord) = Some ord"
    and "level_remove_order (level_add_order l ord) (ord\<lparr>status := CANCELLED\<rparr>) = l"
proof -
  from assms have n: "find (\<lambda>x. order_id x = order_id ord) (orders l) = None"
    by (simp add: find_None_iff)
  then show f: "find_order (level_add_order l ord) (order_id ord) = Some ord"
    by (simp add: find_order_def level_add_order_def find_app)
  have "erase_first (order_id ord) (orders l @ [ord]) = orders l"
    using n by (simp add: erase_first_app erase_first_none)
  with f show "level_remove_order (level_add_order l ord) (ord\<lparr>status := CANCELLED\<rparr>) = l"
    by (simp add: level_remove_order_def level_add_order_def)
qed

lemma cancel_side_emplace:
  assumes "map_of sm k = None" "\<forall>x\<in>set (level_orders sm). order_id x \<noteq> order_id ord"
  shows "cancel_side (side_emplace k (level_add_order (new_level k) ord) sm) (order_id ord) =
           Some (ord\<lparr>status := CANCELLED\<rparr>, sm)"
  using assms
proof (induction sm)
  case Nil
  have "\<forall>x\<in>set (orders (new_level k)). order_id x \<noteq> order_id ord" by (simp add: new_level_def)
  from level_add_remove[OF this] show ?case
    by (simp add: Let_def level_empty_def new_level_def)
next
  case (Cons kl sm)
  obtain k' l' where kl: "kl = (k', l')" by (cases kl)
  from Cons.prems kl have ne: "k \<noteq> k'" and m: "map_of sm k = None"
    and f1: "\<forall>x\<in>set (orders l'). order_id x \<noteq> order_id ord"
    and f2: "\<forall>x\<in>set (level_orders sm). order_id x \<noteq> order_id ord"
    by (auto split: if_splits)
  have n0: "\<forall>x\<in>set (orders (new_level k)). order_id x \<noteq> order_id ord" by (simp add: new_level_def)
  show ?case
  proof (cases "k < k'")
    case True
    with kl level_add_remove[OF n0] show ?thesis
      by (simp add: Let_def level_empty_def new_level_def)
  next
    case False
    from f1 have "find_order l' (order_id ord) = None" by (simp add: find_order_None)
    with False ne kl Cons.IH[OF m f2] show ?thesis by simp
  qed
qed

lemma cancel_side_put:
  assumes "map_of sm k = Some l" "\<forall>x\<in>set (level_orders sm). order_id x \<noteq> order_id ord"
    "list_all (\<lambda>kl. orders (snd kl) \<noteq> []) sm"
  shows "cancel_side (side_put k (level_add_order l ord) sm) (order_id ord) =
           Some (ord\<lparr>status := CANCELLED\<rparr>, sm)"
  using assms
proof (induction sm)
  case Nil
  then show ?case by simp
next
  case (Cons kl sm)
  obtain k' l' where kl: "kl = (k', l')" by (cases kl)
  from Cons.prems kl have f1: "\<forall>x\<in>set (orders l'). order_id x \<noteq> order_id ord"
    and f2: "\<forall>x\<in>set (level_orders sm). order_id x \<noteq> order_id ord"
    and ne: "orders l' \<noteq> []" and r: "list_all (\<lambda>kl. orders (snd kl) \<noteq> []) sm"
    by auto
  show ?case
  proof (cases "k = k'")
    case True
    with Cons.prems(1) kl have "l' = l" by simp
    with True kl level_add_remove[OF f1] ne show ?thesis
      by (simp add: Let_def level_empty_def)
  next
    case False
    with Cons.prems(1) kl have m: "map_of sm k = Some l" by simp
    from f1 have "find_order l' (order_id ord) = None" by (simp add: find_order_None)
    with False kl Cons.IH[OF m f2 r] show ?thesis by simp
  qed
qed

lemma cancel_add_roundtrip:
  assumes "\<forall>x\<in>set (level_orders sm). order_id x \<noteq> order_id ord"
    "list_all (\<lambda>kl. orders (snd kl) \<noteq> []) sm"
  shows "cancel_side (add_to_side sm ord) (order_id ord) = Some (ord\<lparr>status := CANCELLED\<rparr>, sm)"
proof (cases "map_of sm (price ord)")
  case None
  from cancel_side_emplace[OF None assms(1)] None show ?thesis by (simp add: add_to_side_def)
next
  case (Some l)
  from cancel_side_put[OF Some assms] Some show ?thesis by (simp add: add_to_side_def)
qed

lemma book_ok_nonempty:
  "book_ok b \<Longrightarrow> list_all (\<lambda>kl. orders (snd kl) \<noteq> []) (bids b) \<and> list_all (\<lambda>kl. orders (snd kl) \<noteq> []) (asks b)"
  by (auto simp: book_ok_def side_ok_def level_ok_def list_all_iff)

lemma add_then_cancel_book:
  assumes "book_ok b" "symbol ord = book_symbol b"
    "\<forall>x\<in>set (book_orders b). order_id x \<noteq> order_id ord"
  shows "cancel_order (snd (snd (add_order b ord))) (order_id ord) =
           (Some (ord\<lparr>sequence_number := sequence_counter b + 1, status := CANCELLED\<rparr>),
            b\<lparr>sequence_counter := sequence_counter b + 1\<rparr>)"
proof -
  define ord1 where "ord1 = ord\<lparr>sequence_number := sequence_counter b + 1\<rparr>"
  have i1: "order_id ord1 = order_id ord" by (simp add: ord1_def)
  from assms(3) have fb: "\<forall>x\<in>set (level_orders (bids b)). order_id x \<noteq> order_id ord1"
    and fa: "\<forall>x\<in>set (level_orders (asks b)). order_id x \<noteq> order_id ord1"
    by (auto simp: book_orders_def i1)
  note ne = book_ok_nonempty[OF assms(1)]
  show ?thesis
  proof (cases "side ord = BUY")
    case True
    from cancel_add_roundtrip[OF fb] ne True show ?thesis
      by (simp_all add: add_order_sides[OF assms(2)] ord1_def[symmetric] cancel_order_def i1)
  next
    case False
    from fb have "cancel_side (bids b) (order_id ord1) = None" by (simp add: cancel_side_None)
    with cancel_add_roundtrip[OF fa] ne False show ?thesis
      by (simp_all add: add_order_sides[OF assms(2)] ord1_def[symmetric] cancel_order_def i1)
  qed
qed

lemma can_match_book: "order_book e1 = order_book e2 \<Longrightarrow> can_match e1 ord = can_match e2 ord"
  by (simp add: can_match_def)

text \<open>
  C8, as the code has it.  The claim says the book is back in its prior state.  The book's
  sequence counter is part of its state, and \<open>add_order\<close> advances it; the cancel does not
  take it back (\<open>add_then_cancel_counterexample\<close>).  What holds: for a well-formed
  book, a LIMIT order that is active, has a positive remaining quantity and the book's
  symbol, cannot match (it does not cross), and whose id is not resting in the book,
  processing the order and then a cancel of its id leaves both sides of the book (every
  level, its orders and its total) as they were, advances the sequence counter by one,
  adds one to \<open>orders_processed\<close> and one to \<open>orders_cancelled\<close>, and makes no trade.
\<close>

theorem add_then_cancel_restores_sides:
  assumes "book_ok (order_book e)" "otype ord = LIMIT" "\<not> can_match e ord"
    "is_active ord" "remaining_quantity ord > 0" "symbol ord = book_symbol (order_book e)"
    "\<forall>x\<in>set (book_orders (order_book e)). order_id x \<noteq> order_id ord"
  shows
    "order_book (run_events e [NEW_ORDER ord, CANCEL_ORDER (order_id ord)]) =
       (order_book e)\<lparr>sequence_counter := sequence_counter (order_book e) + 1\<rparr> \<and>
     bids (order_book (run_events e [NEW_ORDER ord, CANCEL_ORDER (order_id ord)])) =
       bids (order_book e) \<and>
     asks (order_book (run_events e [NEW_ORDER ord, CANCEL_ORDER (order_id ord)])) =
       asks (order_book e) \<and>
     stats (run_events e [NEW_ORDER ord, CANCEL_ORDER (order_id ord)]) =
       (stats e)\<lparr>orders_processed := orders_processed (stats e) + 1,
                 orders_cancelled := orders_cancelled (stats e) + 1\<rparr> \<and>
     trade_log (run_events e [NEW_ORDER ord, CANCEL_ORDER (order_id ord)]) = trade_log e"
proof -
  define e0 where "e0 = e\<lparr>stats := (stats e)\<lparr>orders_processed := orders_processed (stats e) + 1\<rparr>\<rparr>"
  define ord1 where "ord1 = ord\<lparr>sequence_number := sequence_counter (order_book e) + 1\<rparr>"
  define b1 where "b1 = snd (snd (add_order (order_book e) ord))"
  have b0: "order_book e0 = order_book e" by (simp add: e0_def)
  from assms(3) have "\<not> can_match e0 ord" using can_match_book[OF b0] by simp
  then have l: "limit_loop e0 ord = (ord, e0)" by (simp add: limit_loop_stop)
  have ao: "add_order (order_book e) ord = (True, ord1, b1)"
    by (simp add: b1_def add_order_sides[OF assms(6)] ord1_def)
  have ml: "match_limit_order e0 ord = (ord1, e0\<lparr>order_book := b1\<rparr>)"
    using l assms(4,5) ao by (simp add: match_limit_order_def b0)
  have pn: "snd (process_new_order e ord) =
      e0\<lparr>order_book := b1, order_update_log := order_update_log e0 @ [ord1]\<rparr>"
    using assms(2) ml by (simp add: process_new_order_eq Let_def e0_def[symmetric])
  have co: "cancel_order b1 (order_id ord) =
      (Some (ord\<lparr>sequence_number := sequence_counter (order_book e) + 1, status := CANCELLED\<rparr>),
       (order_book e)\<lparr>sequence_counter := sequence_counter (order_book e) + 1\<rparr>)"
    unfolding b1_def by (rule add_then_cancel_book[OF assms(1,6,7)])
  have "run_events e [NEW_ORDER ord, CANCEL_ORDER (order_id ord)] =
      process_cancel_order (snd (process_new_order e ord)) (order_id ord)"
    by (simp add: run_events_def)
  also have "\<dots> = e0\<lparr>order_book := (order_book e)\<lparr>sequence_counter := sequence_counter (order_book e) + 1\<rparr>,
        order_update_log := order_update_log e0 @ [ord1],
        stats := (stats e0)\<lparr>orders_cancelled := orders_cancelled (stats e0) + 1\<rparr>\<rparr>"
    unfolding pn using co by (simp add: process_cancel_order_def)
  finally show ?thesis by (simp add: e0_def)
qed

theorem add_then_cancel_counterexample:
  "sequence_counter (order_book (new_engine ''AAPL'')) = 0 \<and>
   sequence_counter (order_book (run_events (new_engine ''AAPL'')
     [NEW_ORDER (new_order 1 ''AAPL'' BUY LIMIT 15000 100), CANCEL_ORDER 1])) = 1 \<and>
   order_book (run_events (new_engine ''AAPL'')
     [NEW_ORDER (new_order 1 ''AAPL'' BUY LIMIT 15000 100), CANCEL_ORDER 1]) \<noteq>
   order_book (new_engine ''AAPL'')"
proof -
  have 0: "sequence_counter (order_book (new_engine ''AAPL'')) = 0"
    by (simp add: new_engine_def new_book_def)
  have 1: "sequence_counter (order_book (run_events (new_engine ''AAPL'')
     [NEW_ORDER (new_order 1 ''AAPL'' BUY LIMIT 15000 100), CANCEL_ORDER 1])) = 1"
    by code_simp
  have "order_book (run_events (new_engine ''AAPL'')
     [NEW_ORDER (new_order 1 ''AAPL'' BUY LIMIT 15000 100), CANCEL_ORDER 1]) \<noteq>
   order_book (new_engine ''AAPL'')"
  proof
    assume "order_book (run_events (new_engine ''AAPL'')
     [NEW_ORDER (new_order 1 ''AAPL'' BUY LIMIT 15000 100), CANCEL_ORDER 1]) =
       order_book (new_engine ''AAPL'')"
    then have "sequence_counter (order_book (run_events (new_engine ''AAPL'')
     [NEW_ORDER (new_order 1 ''AAPL'' BUY LIMIT 15000 100), CANCEL_ORDER 1])) =
       sequence_counter (order_book (new_engine ''AAPL''))" by simp
    with 0 1 show False by simp
  qed
  with 0 1 show ?thesis by blast
qed

theorem add_then_cancel_witness:
  "bids (order_book (run_events engine_C
      [NEW_ORDER (new_order 2 ''AAPL'' BUY LIMIT 15000 40), CANCEL_ORDER 2])) = [] \<and>
   asks (order_book (run_events engine_C
      [NEW_ORDER (new_order 2 ''AAPL'' BUY LIMIT 15000 40), CANCEL_ORDER 2])) =
     asks (order_book engine_C) \<and>
   sequence_counter (order_book (run_events engine_C
      [NEW_ORDER (new_order 2 ''AAPL'' BUY LIMIT 15000 40), CANCEL_ORDER 2])) = 2 \<and>
   stats (run_events engine_C
      [NEW_ORDER (new_order 2 ''AAPL'' BUY LIMIT 15000 40), CANCEL_ORDER 2]) =
     \<lparr>orders_processed = 2, trades_executed = 0, orders_cancelled = 1\<rparr>"
proof -
  let ?o = "new_order 2 ''AAPL'' BUY LIMIT 15000 40"
  have h1: "book_ok (order_book engine_C)"
    by (simp add: engine_C_book book_ok_def side_ok_def level_ok_def level_weak_def
          new_order_def remaining_quantity_def)
  have h2: "otype ?o = LIMIT" by (simp add: new_order_def)
  have h3: "\<not> can_match engine_C ?o"
    by (simp add: can_match_def engine_C_book best_ask_def new_order_def)
  have h4: "is_active ?o" by (simp add: new_order_def is_active_def)
  have h5: "remaining_quantity ?o > 0" by (simp add: new_order_def remaining_quantity_def)
  have h6: "symbol ?o = book_symbol (order_book engine_C)"
    by (simp add: engine_C_book new_order_def)
  have h7: "\<forall>x\<in>set (book_orders (order_book engine_C)). order_id x \<noteq> order_id ?o"
    by (simp add: engine_C_book book_orders_def new_order_def)
  have i: "order_id ?o = 2" by (simp add: new_order_def)
  have s: "stats engine_C = \<lparr>orders_processed = 1, trades_executed = 0, orders_cancelled = 0\<rparr>"
    unfolding engine_C_def by code_simp
  have b: "bids (order_book engine_C) = []" "sequence_counter (order_book engine_C) = 1"
    by (simp_all add: engine_C_book)
  note th = add_then_cancel_restores_sides[OF h1 h2 h3 h4 h5 h6 h7, unfolded i]
  from th s b show ?thesis by simp
qed

subsection \<open>Steps of a status\<close>


lemma status_step_refl [simp]: "status_step s s"
  by (simp add: status_step_def)




lemma mask_mod: "x AND (2 ^ k - 1) = x mod 2 ^ k" for x :: nat
proof -
  have "x AND mask k = x mod 2 ^ k"
    by (simp only: take_bit_eq_mask[symmetric] take_bit_eq_mod)
  then show ?thesis by (simp only: mask_eq_exp_minus_1)
qed

lemma mod_wrap: "x < 2 * n \<Longrightarrow> x mod n = (if x < n then x else x - n)" for x n :: nat
  by (auto simp: not_less le_mod_geq)

lemma queue_length_cases:
  assumes "queue_inv n q"
  shows "queue_length n q = (if head q \<le> tail q then tail q - head q else tail q + n - head q)"
  using assms by (auto simp: queue_length_def queue_inv_def mod_wrap)

lemma succ_mod: "x < n \<Longrightarrow> (x + 1) mod n = (if x + 1 = n then 0 else x + 1)" for x n :: nat
  by (auto simp: mod_wrap)

lemma index_inj:
  assumes "queue_inv n q" "j < queue_length n q"
  shows "(head q + j) mod n \<noteq> tail q"
  using assms
  by (auto simp: queue_length_cases queue_inv_def mod_wrap split: if_splits)

lemma index_last:
  assumes "queue_inv n q"
  shows "(head q + queue_length n q) mod n = tail q"
  using assms
  by (auto simp: queue_length_cases queue_inv_def mod_wrap split: if_splits)

lemma queue_length_less: "queue_inv n q \<Longrightarrow> queue_length n q < n"
  by (auto simp: queue_length_def queue_inv_def)

lemma length_queue_contents [simp]: "length (queue_contents n q) = queue_length n q"
  by (simp add: queue_contents_def)

lemma queue_full_iff:
  assumes "queue_inv n q"
  shows "(tail q + 1) mod n = head q \<longleftrightarrow> queue_length n q = n - 1"
  using assms
  by (auto simp: queue_length_cases queue_inv_def mod_wrap split: if_splits)

lemma queue_empty_iff:
  assumes "queue_inv n q"
  shows "head q = tail q \<longleftrightarrow> queue_length n q = 0"
  using assms
  by (auto simp: queue_length_cases queue_inv_def split: if_splits)

lemma push_step:
  fixes ev :: 'a and q :: "'a LockFreeQueue"
  assumes "queue_inv n q" "(tail q + 1) mod n \<noteq> head q"
  defines "q' \<equiv> q\<lparr>buffer := (buffer q)[tail q := ev], tail := (tail q + 1) mod n\<rparr>"
  shows "queue_inv n q'" and "queue_contents n q' = queue_contents n q @ [ev]"
proof -
  from assms(1) have n: "0 < n" by (auto simp: queue_inv_def)
  show inv': "queue_inv n q'"
    using assms(1) n by (simp add: q'_def queue_inv_def)
  have len: "queue_length n q' = Suc (queue_length n q)"
    using assms(1,2) inv'
    by (auto simp: queue_length_cases q'_def queue_inv_def mod_wrap split: if_splits)
  have old: "buffer q' ! ((head q' + j) mod n) = buffer q ! ((head q + j) mod n)"
    if "j < queue_length n q" for j
    using index_inj[OF assms(1) that] by (simp add: q'_def)
  have new: "buffer q' ! ((head q' + queue_length n q) mod n) = ev"
    using index_last[OF assms(1)] assms(1) by (simp add: q'_def queue_inv_def)
  have "queue_contents n q' =
      map (\<lambda>j. buffer q' ! ((head q' + j) mod n)) [0..<queue_length n q] @
      [buffer q' ! ((head q' + queue_length n q) mod n)]"
    by (simp add: queue_contents_def len)
  also have "map (\<lambda>j. buffer q' ! ((head q' + j) mod n)) [0..<queue_length n q] = queue_contents n q"
    unfolding queue_contents_def by (rule map_cong) (simp_all add: old)
  finally show "queue_contents n q' = queue_contents n q @ [ev]" by (simp add: new)
qed

lemma pop_step:
  assumes "queue_inv n q" "head q \<noteq> tail q"
  defines "q' \<equiv> q\<lparr>head := (head q + 1) mod n\<rparr>"
  shows "queue_inv n q'" and "queue_contents n q' = tl (queue_contents n q)"
    and "buffer q ! head q = hd (queue_contents n q)"
proof -
  from assms(1) have n: "0 < n" by (auto simp: queue_inv_def)
  show inv': "queue_inv n q'"
    using assms(1) n by (simp add: q'_def queue_inv_def)
  have pos: "0 < queue_length n q"
    using queue_empty_iff[OF assms(1)] assms(2) by simp
  have len: "queue_length n q = Suc (queue_length n q')"
    using assms(1,2) inv'
    by (auto simp: queue_length_cases q'_def queue_inv_def mod_wrap split: if_splits)
  have idx: "(head q' + j) mod n = (head q + Suc j) mod n" for j
    by (simp add: q'_def mod_add_left_eq)
  have "queue_contents n q = map (\<lambda>j. buffer q ! ((head q + j) mod n)) (0 # map Suc [0..<queue_length n q'])"
    unfolding queue_contents_def len by (simp add: upt_conv_Cons[of 0] map_Suc_upt del: upt_Suc)
  then have c: "queue_contents n q =
      buffer q ! (head q mod n) # map (\<lambda>j. buffer q ! ((head q + Suc j) mod n)) [0..<queue_length n q']"
    by (simp add: comp_def)
  have "queue_contents n q' = map (\<lambda>j. buffer q ! ((head q + Suc j) mod n)) [0..<queue_length n q']"
    unfolding queue_contents_def by (simp add: idx, simp add: q'_def)
  with c show "queue_contents n q' = tl (queue_contents n q)" by simp
  from c assms(1) show "buffer q ! head q = hd (queue_contents n q)"
    by (simp add: queue_inv_def)
qed

lemma pow2_accepted: "size_accepted (2 ^ k)"
  unfolding size_accepted_def mask_mod by simp

lemma accepted_pow2: "size_accepted n \<Longrightarrow> 0 < n \<Longrightarrow> \<exists>k. n = 2 ^ k"
proof (induction n rule: less_induct)
  case (less n)
  show ?case
  proof (cases "even n")
    case True
    then obtain y where y: "n = 2 * y" by (auto elim: evenE)
    with less.prems have y0: "0 < y" by simp
    have "(n - 1) div 2 = y - 1" using y y0 by simp
    moreover have "odd (n - 1)" using y y0 by simp
    ultimately have "n AND (n - 1) = 2 * (y AND (y - 1))"
      using y by (subst and_nat_rec) simp
    with less.prems(1) have "size_accepted y" by (simp add: size_accepted_def)
    moreover have "y < n" using y y0 by simp
    ultimately obtain k where "y = 2 ^ k" using less.IH y0 by blast
    with y have "n = 2 ^ Suc k" by simp
    then show ?thesis by blast
  next
    case False
    then obtain y where y: "n = 2 * y + 1" by (auto elim: oddE)
    then have "n AND (n - 1) = 2 * (y AND y)"
      by (subst and_nat_rec) simp
    with less.prems(1) have "y = 0" by (simp add: size_accepted_def)
    with y have "n = 2 ^ 0" by simp
    then show ?thesis by blast
  qed
qed

lemma size_accepted_iff: "size_accepted n \<longleftrightarrow> n = 0 \<or> (\<exists>k. n = 2 ^ k)"
  using accepted_pow2[of n] pow2_accepted by (auto simp: size_accepted_def)

lemma EventQueue_Size_accepted: "size_accepted EventQueue_Size \<and> 0 < EventQueue_Size"
proof -
  have "EventQueue_Size = 2 ^ 16" by (simp add: EventQueue_Size_def)
  then show ?thesis using pow2_accepted[of 16] by simp
qed

lemma new_queue_inv: "0 < n \<Longrightarrow> queue_inv n (new_queue n d) \<and> queue_contents n (new_queue n d) = []"
  by (simp add: queue_inv_def new_queue_def queue_contents_def queue_length_def)

text \<open>
  C9.  For a capacity parameter \<open>Size\<close> that the constructor accepts and a queue in a
  state the operations produce, \<open>Size\<close> is a power of two and the ring buffer is a FIFO
  queue of at most \<open>Size - 1\<close> events, its content being \<open>queue_contents\<close>.  \<open>push\<close> returns false exactly when
  \<open>(tail + 1) & (Size - 1)\<close> is \<open>head\<close>, which is when the queue holds \<open>Size - 1\<close>
  events, and then changes nothing; otherwise it writes the event to slot \<open>tail\<close>,
  advances \<open>tail\<close> and appends the event to the content.  \<open>pop\<close> returns false exactly
  when \<open>head\<close> is \<open>tail\<close>, which is when the content is empty, and then changes
  nothing; otherwise it returns the first, that is the oldest, event of the content,
  advances \<open>head\<close> and leaves the rest of the content.  So events leave in the order of
  their successful pushes.
\<close>

theorem ring_buffer_fifo:
  assumes "size_accepted Size" "queue_inv Size q"
  shows
    "(\<exists>k. Size = 2 ^ k) \<and>
     (\<not> fst (push Size q ev) \<longleftrightarrow> (tail q + 1) AND (Size - 1) = head q) \<and>
     (\<not> fst (push Size q ev) \<longleftrightarrow> length (queue_contents Size q) = Size - 1) \<and>
     (\<not> fst (push Size q ev) \<longrightarrow> snd (push Size q ev) = q) \<and>
     (fst (push Size q ev) \<longrightarrow>
        buffer (snd (push Size q ev)) = (buffer q)[tail q := ev] \<and>
        tail (snd (push Size q ev)) = (tail q + 1) AND (Size - 1) \<and>
        head (snd (push Size q ev)) = head q \<and>
        queue_inv Size (snd (push Size q ev)) \<and>
        queue_contents Size (snd (push Size q ev)) = queue_contents Size q @ [ev]) \<and>
     (fst (pop Size q) = None \<longleftrightarrow> head q = tail q) \<and>
     (fst (pop Size q) = None \<longleftrightarrow> queue_contents Size q = []) \<and>
     (fst (pop Size q) = None \<longrightarrow> snd (pop Size q) = q) \<and>
     (fst (pop Size q) \<noteq> None \<longrightarrow>
        fst (pop Size q) = Some (hd (queue_contents Size q)) \<and>
        head (snd (pop Size q)) = (head q + 1) AND (Size - 1) \<and>
        tail (snd (pop Size q)) = tail q \<and>
        buffer (snd (pop Size q)) = buffer q \<and>
        queue_inv Size (snd (pop Size q)) \<and>
        queue_contents Size (snd (pop Size q)) = tl (queue_contents Size q))"
proof -
  from assms(2) have "0 < Size" by (auto simp: queue_inv_def)
  with assms(1) obtain k where k: "Size = 2 ^ k" using accepted_pow2 by blast
  have m: "x AND (Size - 1) = x mod Size" for x
    unfolding k by (rule mask_mod)
  have m2: "x AND (Size - Suc 0) = x mod Size" for x
    using m[of x] by simp
  note inv = assms(2)
  have p1: "\<not> fst (push Size q ev) \<longleftrightarrow> (tail q + 1) AND (Size - 1) = head q"
    by (simp add: push_def Let_def)
  have p2: "\<not> fst (push Size q ev) \<longleftrightarrow> length (queue_contents Size q) = Size - 1"
    by (simp only: p1 m queue_full_iff[OF inv] length_queue_contents)
  have p3: "\<not> fst (push Size q ev) \<longrightarrow> snd (push Size q ev) = q"
    by (simp add: push_def Let_def)
  have p4: "buffer (snd (push Size q ev)) = (buffer q)[tail q := ev] \<and>
        tail (snd (push Size q ev)) = (tail q + 1) AND (Size - 1) \<and>
        head (snd (push Size q ev)) = head q \<and>
        queue_inv Size (snd (push Size q ev)) \<and>
        queue_contents Size (snd (push Size q ev)) = queue_contents Size q @ [ev]"
    if s: "fst (push Size q ev)"
  proof -
    from s have ne: "(tail q + 1) mod Size \<noteq> head q" using p1 by (simp add: m m2)
    then have e: "snd (push Size q ev) =
        q\<lparr>buffer := (buffer q)[tail q := ev], tail := (tail q + 1) mod Size\<rparr>"
      by (simp add: push_def Let_def m m2)
    from push_step[OF inv ne, of ev] show ?thesis by (simp add: e m m2)
  qed
  have o1: "fst (pop Size q) = None \<longleftrightarrow> head q = tail q"
    by (simp add: pop_def Let_def)
  have o2: "fst (pop Size q) = None \<longleftrightarrow> queue_contents Size q = []"
    using queue_empty_iff[OF inv] by (simp add: o1 flip: length_0_conv)
  have o3: "fst (pop Size q) = None \<longrightarrow> snd (pop Size q) = q"
    by (simp add: pop_def Let_def)
  have o4: "fst (pop Size q) = Some (hd (queue_contents Size q)) \<and>
        head (snd (pop Size q)) = (head q + 1) AND (Size - 1) \<and>
        tail (snd (pop Size q)) = tail q \<and>
        buffer (snd (pop Size q)) = buffer q \<and>
        queue_inv Size (snd (pop Size q)) \<and>
        queue_contents Size (snd (pop Size q)) = tl (queue_contents Size q)"
    if s: "fst (pop Size q) \<noteq> None"
  proof -
    from s have ne: "head q \<noteq> tail q" using o1 by simp
    then have e: "pop Size q = (Some (buffer q ! head q), q\<lparr>head := (head q + 1) mod Size\<rparr>)"
      by (simp add: pop_def Let_def m m2)
    from pop_step[OF inv ne] show ?thesis by (simp add: e m m2)
  qed
  from k have p0: "\<exists>k. Size = 2 ^ k" by blast
  from p0 p1 p2 p3 p4 o1 o2 o3 o4 show ?thesis by blast
qed

theorem ring_buffer_fifo_witness:
  "queue_inv 4 (new_queue 4 (0::nat)) \<and>
   fst (push 4 (new_queue 4 0) (10::nat)) \<and>
   queue_contents 4 (snd (push 4 (snd (push 4 (snd (push 4 (new_queue 4 0) (10::nat))) 20)) 30)) =
     [10, 20, 30] \<and>
   \<not> fst (push 4 (snd (push 4 (snd (push 4 (snd (push 4 (new_queue 4 0) (10::nat))) 20)) 30)) 40) \<and>
   fst (pop 4 (snd (push 4 (snd (push 4 (new_queue 4 0) (10::nat))) 20))) = Some 10 \<and>
   fst (pop 4 (snd (pop 4 (snd (push 4 (snd (push 4 (new_queue 4 0) (10::nat))) 20))))) = Some 20 \<and>
   fst (pop 4 (new_queue 4 (0::nat))) = None"
proof -
  have s: "size_accepted 4" by (simp add: size_accepted_def)
  have i: "queue_inv 4 (new_queue 4 (0::nat))"
    by (simp add: queue_inv_def new_queue_def)
  have c: "queue_contents 4 (new_queue 4 (0::nat)) = []"
    by (simp add: queue_contents_def new_queue_def queue_length_def)
  note t0 = ring_buffer_fifo[OF s i]
  from t0[of 10] c have p0: "fst (push 4 (new_queue 4 0) (10::nat))" by simp
  from t0 c have e0: "fst (pop 4 (new_queue 4 (0::nat))) = None" by simp
  have rest: "queue_contents 4 (snd (push 4 (snd (push 4 (snd (push 4 (new_queue 4 0) (10::nat))) 20)) 30)) =
     [10, 20, 30]"
    "\<not> fst (push 4 (snd (push 4 (snd (push 4 (snd (push 4 (new_queue 4 0) (10::nat))) 20)) 30)) 40)"
    "fst (pop 4 (snd (push 4 (snd (push 4 (new_queue 4 0) (10::nat))) 20))) = Some 10"
    "fst (pop 4 (snd (pop 4 (snd (push 4 (snd (push 4 (new_queue 4 0) (10::nat))) 20))))) = Some 20"
    by code_simp+
  from i p0 e0 rest show ?thesis by blast
qed

section \<open>The two embeddings agree\<close>

text \<open>
  On a state of the second embedding in which no address rests twice, and for an incoming
  object that does not rest in the book, every operation of the book and of the engine
  does what the operation of the first embedding does on the related state: the results
  are related again, no address rests twice afterwards, and the written object is the
  written order.  The totals of the levels are related up to the wrap-around, since
  \<open>wrap64\<close> commutes with the additions.
\<close>

lemma wrap_add_gen: "((x + c) mod m - c + y + c) mod m = (x + y + c) mod m" for x y c m :: int
proof -
  have "(x + c) mod m - c + y + c = (x + c) mod m + y" by simp
  moreover have "((x + c) mod m + y) mod m = (x + c + y) mod m" by (rule mod_add_left_eq)
  moreover have "x + c + y = x + y + c" by simp
  ultimately show ?thesis by simp
qed

lemma wrap64_add [simp]: "wrap64 (wrap64 x + y) = wrap64 (x + y)"
  unfolding wrap64_def by (simp only: wrap_add_gen)

lemma wrap64_diff [simp]: "wrap64 (wrap64 x - y) = wrap64 (x - y)"
  using wrap64_add[of x "- y"] by simp

lemma wrap64_zero [simp]: "wrap64 0 = 0"
  by (simp add: wrap64_def)


subsection \<open>Levels\<close>

lemma find_map_heap: "find P (map h xs) = map_option h (find (\<lambda>x. P (h x)) xs)"
  by (induction xs) auto

lemma erase_first_map: "erase_first i (map h xs) = map h (erase_first_p h i xs)"
  by (induction xs) auto

lemma level_rel_new: "level_rel h (new_level_p p) (new_level p)"
  by (simp add: level_rel_def new_level_p_def new_level_def)

lemma level_rel_add:
  "level_rel h pl l \<Longrightarrow> level_rel h (level_add_order_p h pl a) (level_add_order l (h a))"
  by (simp add: level_rel_def level_add_order_p_def level_add_order_def)

lemma level_rel_find:
  "level_rel h pl l \<Longrightarrow> find_order l i = map_option h (find_order_p h pl i)"
  by (simp add: level_rel_def find_order_def find_order_p_def find_map_heap)

lemma level_rel_remove:
  "level_rel h pl l \<Longrightarrow> order_id ord = order_id (h a) \<Longrightarrow>
   level_rel h (level_remove_order_p h pl a) (level_remove_order l ord)"
  by (auto simp: level_rel_def level_remove_order_p_def level_remove_order_def find_order_def
        find_order_p_def find_map_heap erase_first_map split: option.splits)

lemma level_rel_empty: "level_rel h pl l \<Longrightarrow> level_empty l = level_empty_p pl"
  by (simp add: level_rel_def level_empty_def level_empty_p_def)

lemma level_rel_heap:
  "level_rel h pl l \<Longrightarrow> (\<And>y. y \<in> set (orders_p pl) \<Longrightarrow> h' y = h y) \<Longrightarrow> level_rel h' pl l"
  by (simp add: level_rel_def)

subsection \<open>Sides\<close>

lemma side_rel_Nil [simp]: "side_rel h [] []"
  by (simp add: side_rel_def)

lemma side_rel_Nil1 [simp]: "side_rel h [] sm \<longleftrightarrow> sm = []"
  by (simp add: side_rel_def)

lemma side_rel_Nil2 [simp]: "side_rel h psm [] \<longleftrightarrow> psm = []"
  by (simp add: side_rel_def)

lemma side_rel_Cons [simp]:
  "side_rel h ((k, pl) # psm) ((k', l) # sm) \<longleftrightarrow> k = k' \<and> level_rel h pl l \<and> side_rel h psm sm"
  by (simp add: side_rel_def)

lemma side_rel_Cons1:
  "side_rel h ((k, pl) # psm) sm' \<longleftrightarrow> (\<exists>l sm. sm' = (k, l) # sm \<and> level_rel h pl l \<and> side_rel h psm sm)"
  by (cases sm') (auto simp: side_rel_def)

lemma side_rel_induct [consumes 1, case_names Nil Cons]:
  assumes "side_rel h psm sm"
    and "P [] []"
    and "\<And>k pl psm l sm. level_rel h pl l \<Longrightarrow> side_rel h psm sm \<Longrightarrow> P psm sm \<Longrightarrow>
           P ((k, pl) # psm) ((k, l) # sm)"
  shows "P psm sm"
  using assms(1) unfolding side_rel_def
proof (induction rule: list_all2_induct)
  case Nil
  show ?case by (rule assms(2))
next
  case (Cons x xs y ys)
  obtain k pl where x: "x = (k, pl)" by (cases x)
  obtain k' l where y: "y = (k', l)" by (cases y)
  from Cons x y show ?case using assms(3)[of pl l xs ys k] by (simp add: side_rel_def)
qed

lemma side_rel_keys: "side_rel h psm sm \<Longrightarrow> map fst psm = map fst sm"
  by (induction rule: side_rel_induct) simp_all

lemma side_rel_map_of_None: "side_rel h psm sm \<Longrightarrow> map_of psm k = None \<longleftrightarrow> map_of sm k = None"
  by (induction rule: side_rel_induct) simp_all

lemma side_rel_map_of_Some:
  "side_rel h psm sm \<Longrightarrow> map_of psm k = Some pl \<Longrightarrow> \<exists>l. map_of sm k = Some l \<and> level_rel h pl l"
  by (induction rule: side_rel_induct) (auto split: if_splits)

lemma side_rel_emplace:
  "side_rel h psm sm \<Longrightarrow> level_rel h pl l \<Longrightarrow> side_rel h (side_emplace_p k pl psm) (side_emplace k l sm)"
  by (induction rule: side_rel_induct) simp_all

lemma side_rel_put:
  "side_rel h psm sm \<Longrightarrow> level_rel h pl l \<Longrightarrow> side_rel h (side_put_p k pl psm) (side_put k l sm)"
  by (induction rule: side_rel_induct) simp_all

lemma side_rel_erase:
  "side_rel h psm sm \<Longrightarrow> side_rel h (side_erase_p k psm) (side_erase k sm)"
  by (induction rule: side_rel_induct) simp_all

lemma side_rel_heap:
  "side_rel h psm sm \<Longrightarrow> (\<And>y. y \<in> set (side_addrs psm) \<Longrightarrow> h' y = h y) \<Longrightarrow> side_rel h' psm sm"
proof (induction rule: side_rel_induct)
  case Nil
  show ?case by simp
next
  case (Cons k pl psm l sm)
  from Cons.prems have "level_rel h' pl l" by (intro level_rel_heap[OF Cons.hyps(1)]) simp
  moreover from Cons.prems have "side_rel h' psm sm" by (intro Cons.IH) simp
  ultimately show ?case by simp
qed

lemma side_rel_add:
  assumes "side_rel h psm sm"
  shows "side_rel h (add_to_side_p h psm a) (add_to_side sm (h a))"
proof (cases "map_of psm (price (h a))")
  case None
  with side_rel_map_of_None[OF assms, of "price (h a)"] have "map_of sm (price (h a)) = None" by simp
  with None assms show ?thesis
    by (simp add: add_to_side_p_def add_to_side_def side_rel_emplace level_rel_add level_rel_new)
next
  case (Some pl)
  from side_rel_map_of_Some[OF assms Some] obtain l where
    "map_of sm (price (h a)) = Some l" "level_rel h pl l" by blast
  with Some assms show ?thesis
    by (simp add: add_to_side_p_def add_to_side_def side_rel_put level_rel_add)
qed

lemma side_rel_remove:
  assumes "side_rel h psm sm" "order_id ord = order_id (h a)" "price ord = price (h a)"
  shows "side_rel h (snd (remove_from_side_p h psm a)) (snd (remove_from_side sm ord))"
proof (cases "map_of psm (price (h a))")
  case None
  with side_rel_map_of_None[OF assms(1), of "price (h a)"] have "map_of sm (price (h a)) = None" by simp
  with None assms show ?thesis
    by (simp add: remove_from_side_p_def remove_from_side_def)
next
  case (Some pl)
  from side_rel_map_of_Some[OF assms(1) Some] obtain l where
    l: "map_of sm (price (h a)) = Some l" "level_rel h pl l" by blast
  from level_rel_remove[OF l(2) assms(2)]
  have r: "level_rel h (level_remove_order_p h pl a) (level_remove_order l ord)" .
  from Some l r assms show ?thesis
    by (simp add: remove_from_side_p_def remove_from_side_def Let_def side_rel_put side_rel_erase
          level_rel_empty[OF r])
qed

subsection \<open>Books\<close>

lemma book_rel_remove:
  assumes "book_rel h pb b"
  shows "book_rel h (snd (remove_order_p h pb a)) (snd (remove_order b (h a)))"
  using assms side_rel_remove[of h "bids_p pb" "bids b" "h a" a]
    side_rel_remove[of h "asks_p pb" "asks b" "h a" a]
  by (auto simp: book_rel_def remove_order_p_def remove_order_def split: prod.splits)

lemma book_rel_heap:
  "book_rel h pb b \<Longrightarrow> (\<And>y. y \<in> set (book_addrs pb) \<Longrightarrow> h' y = h y) \<Longrightarrow> book_rel h' pb b"
  by (auto simp: book_rel_def book_addrs_def intro: side_rel_heap)

lemma book_rel_add:
  assumes "book_rel h pb b" "a \<notin> set (book_addrs pb)"
  shows "fst (add_order_p h pb a) = fst (add_order b (h a)) \<and>
         fst (snd (add_order_p h pb a)) = h(a := fst (snd (add_order b (h a)))) \<and>
         book_rel (fst (snd (add_order_p h pb a))) (snd (snd (add_order_p h pb a)))
           (snd (snd (add_order b (h a))))"
proof (cases "symbol (h a) \<noteq> book_symbol_p pb")
  case True
  with assms show ?thesis by (simp add: add_order_p_def add_order_def book_rel_def)
next
  case False
  define h1 where "h1 = h(a := (h a)\<lparr>sequence_number := sequence_counter_p pb + 1\<rparr>)"
  have r1: "book_rel h1 pb b"
    using assms by (intro book_rel_heap[OF assms(1)]) (auto simp: h1_def)
  have a1: "h1 a = (h a)\<lparr>sequence_number := sequence_counter b + 1\<rparr>"
    using assms(1) by (simp add: h1_def book_rel_def)
  from r1 have "side_rel h1 (add_to_side_p h1 (bids_p pb) a) (add_to_side (bids b) (h1 a))"
    "side_rel h1 (add_to_side_p h1 (asks_p pb) a) (add_to_side (asks b) (h1 a))"
    by (simp_all add: book_rel_def side_rel_add)
  with False r1 a1 assms(1) show ?thesis
    by (simp add: add_order_p_def add_order_def Let_def h1_def[symmetric] book_rel_def)
qed

subsection \<open>Addresses in the book\<close>

lemma notin_filter_count: "y \<notin> set xs \<longleftrightarrow> length (filter ((=) y) xs) = 0"
  by (auto simp: filter_empty_conv)

lemma distinct_filter_count: "distinct xs \<longleftrightarrow> (\<forall>y. length (filter ((=) y) xs) \<le> 1)"
proof (induction xs)
  case Nil
  show ?case by simp
next
  case (Cons x xs)
  show ?case
  proof
    assume d: "distinct (x # xs)"
    then have "length (filter ((=) x) xs) = 0" by (auto simp: filter_empty_conv)
    with d Cons show "\<forall>y. length (filter ((=) y) (x # xs)) \<le> 1" by auto
  next
    assume a: "\<forall>y. length (filter ((=) y) (x # xs)) \<le> 1"
    then have "length (filter ((=) x) (x # xs)) \<le> 1" by blast
    then have "x \<notin> set xs" by (auto simp: filter_empty_conv)
    moreover have "\<forall>y. length (filter ((=) y) xs) \<le> 1"
    proof
      fix y
      from a have "length (filter ((=) y) (x # xs)) \<le> 1" by blast
      then show "length (filter ((=) y) xs) \<le> 1" by (simp split: if_splits)
    qed
    ultimately show "distinct (x # xs)" using Cons by simp
  qed
qed

lemma count_le_distinct:
  assumes "\<And>P. length (filter P ys) \<le> length (filter P xs)"
  shows "distinct xs \<Longrightarrow> distinct ys" and "set ys \<subseteq> set xs"
proof -
  show "distinct ys" if "distinct xs"
    unfolding distinct_filter_count
  proof
    fix y
    from that have "length (filter ((=) y) xs) \<le> 1" by (simp add: distinct_filter_count)
    with assms[of "(=) y"] show "length (filter ((=) y) ys) \<le> 1" by simp
  qed
  show "set ys \<subseteq> set xs"
  proof
    fix y assume "y \<in> set ys"
    then have "0 < length (filter ((=) y) ys)" by (auto simp: filter_empty_conv)
    with assms[of "(=) y"] have "0 < length (filter ((=) y) xs)" by linarith
    then show "y \<in> set xs" by (auto simp: filter_empty_conv)
  qed
qed

lemma remove_order_p_book_filter:
  "length (filter P (book_addrs (snd (remove_order_p h b a)))) \<le> length (filter P (book_addrs b))"
  using remove_order_p_filter[of P BUY h b a] remove_order_p_filter[of P SELL h b a]
  by (simp add: book_addrs_def opposite_p_def)

lemma set_best_p_own:
  "opposite_p (other_side sd) (set_best_p sd b l) = opposite_p (other_side sd) b"
  by (auto simp: opposite_p_def other_side_def set_best_p_def set_best_ask_level_p_def
        set_best_bid_level_p_def split: list.splits)

lemma book_addrs_sides:
  "set (book_addrs b) = set (side_addrs (opposite_p sd b)) \<union> set (side_addrs (opposite_p (other_side sd) b))"
  "length (filter P (book_addrs b)) =
     length (filter P (side_addrs (opposite_p sd b))) +
     length (filter P (side_addrs (opposite_p (other_side sd) b)))"
  by (auto simp: book_addrs_def opposite_p_def other_side_def)

lemma set_best_p_book_addrs:
  assumes "get_best_p sd b = Some l" "orders_p l' = orders_p l"
  shows "length (filter P (book_addrs (set_best_p sd b l'))) = length (filter P (book_addrs b))"
  by (simp add: book_addrs_sides(2)[where sd = sd] set_best_p_addrs[OF assms] set_best_p_own)

lemma try_match_p_filter:
  "length (filter P (book_addrs (order_book_p (snd (try_match_p s a))))) \<le>
   length (filter P (book_addrs (order_book_p s)))"
proof -
  obtain r s' where t: "try_match_p s a = (r, s')" by (cases "try_match_p s a")
  show ?thesis
  proof (cases "matched_p r")
    case False
    with try_match_p_unmatched[OF t] t show ?thesis by simp
  next
    case True
    from t True show ?thesis
    proof (rule try_match_p_matchedE)
      fix l x xs mq
      assume gb: "get_best_p (side (objects s a)) (order_book_p s) = Some l"
        and s': "s' = after_match_p s a l x mq"
      define b1 where "b1 = set_best_p (side (objects s a)) (order_book_p s)
          (l\<lparr>total_quantity_p := wrap64 (total_quantity_p l - mq)\<rparr>)"
      have e1: "length (filter P (book_addrs b1)) = length (filter P (book_addrs (order_book_p s)))"
        unfolding b1_def by (rule set_best_p_book_addrs[OF gb]) simp
      have "length (filter P (book_addrs (order_book_p s'))) \<le> length (filter P (book_addrs b1))"
        using remove_order_p_book_filter[of P "heap_after_trade (objects s) a x mq" b1 x]
        by (simp add: s' after_match_p_def Let_def b1_def[symmetric])
      with e1 t show ?thesis by simp
    qed
  qed
qed

lemma try_match_p_addrs:
  assumes "try_match_p s a = (r, s')"
  shows "distinct (book_addrs (order_book_p s)) \<Longrightarrow> distinct (book_addrs (order_book_p s'))"
    and "set (book_addrs (order_book_p s')) \<subseteq> set (book_addrs (order_book_p s))"
  using count_le_distinct[of "book_addrs (order_book_p s')" "book_addrs (order_book_p s)"]
    try_match_p_filter[of _ s a] assms by simp_all

subsection \<open>The best level\<close>

lemma side_rel_append1:
  "side_rel h (pre @ (k, pl) # post) sm \<Longrightarrow>
   \<exists>pre' l post'. sm = pre' @ (k, l) # post' \<and> side_rel h pre pre' \<and> level_rel h pl l \<and>
      side_rel h post post' \<and> length pre' = length pre \<and> length post' = length post"
proof -
  let ?R = "\<lambda>x y. fst x = fst y \<and> level_rel h (snd x) (snd y)"
  assume "side_rel h (pre @ (k, pl) # post) sm"
  then have "list_all2 ?R (pre @ (k, pl) # post) sm" by (simp add: side_rel_def)
  then obtain us vs where a: "sm = us @ vs" "length us = length pre" "list_all2 ?R pre us"
    "list_all2 ?R ((k, pl) # post) vs"
    unfolding list_all2_append1 by blast
  from a(4) obtain z zs where b: "vs = z # zs" "?R (k, pl) z" "list_all2 ?R post zs"
    unfolding list_all2_Cons1 by blast
  obtain k' l where z: "z = (k', l)" by (cases z)
  from b(3) have "length zs = length post" by (simp add: list_all2_lengthD)
  with a b z show ?thesis by (auto simp: side_rel_def)
qed

lemma side_rel_append:
  "side_rel h a b \<Longrightarrow> side_rel h c d \<Longrightarrow> side_rel h (a @ c) (b @ d)"
  unfolding side_rel_def by (rule list_all2_appendI)

lemma get_best_p_split:
  assumes "get_best_p sd b = Some l"
  obtains pre k post where
    "opposite_p sd b = pre @ (k, l) # post"
    "sd = BUY \<Longrightarrow> pre = []" "sd \<noteq> BUY \<Longrightarrow> post = []"
    "\<And>l'. opposite_p sd (set_best_p sd b l') = pre @ (k, l') # post"
proof (cases "sd = BUY")
  case True
  with assms obtain k sm where a: "asks_p b = (k, l) # sm"
    by (cases "asks_p b") (auto simp: get_best_p_def get_best_ask_level_p_def split: if_splits)
  show thesis
    by (rule that[of "[]" k sm])
       (use True a in \<open>simp_all add: opposite_p_def set_best_p_def set_best_ask_level_p_def\<close>)
next
  case False
  with assms have ne: "bids_p b \<noteq> []" and l: "l = snd (last (bids_p b))"
    by (auto simp: get_best_p_def get_best_bid_level_p_def split: if_splits)
  from ne have sp: "butlast (bids_p b) @ [last (bids_p b)] = bids_p b" by simp
  show thesis
  proof (rule that[of "butlast (bids_p b)" "fst (last (bids_p b))" "[]"])
    show "opposite_p sd b = butlast (bids_p b) @ [(fst (last (bids_p b)), l)]"
      using False sp by (simp add: opposite_p_def l)
    show "sd = BUY \<Longrightarrow> butlast (bids_p b) = []" using False by simp
    show "[] = ([]::side_map_p)" by simp
    show "\<And>l'. opposite_p sd (set_best_p sd b l') = butlast (bids_p b) @ [(fst (last (bids_p b)), l')]"
      using False ne by (simp add: opposite_p_def set_best_p_def set_best_bid_level_p_def)
  qed
qed

lemma book_rel_opposite:
  "book_rel h pb b \<longleftrightarrow>
     book_symbol b = book_symbol_p pb \<and> sequence_counter b = sequence_counter_p pb \<and>
     side_rel h (opposite_p sd pb) (opposite sd b) \<and>
     side_rel h (opposite_p (other_side sd) pb) (opposite (other_side sd) b)"
  by (auto simp: book_rel_def opposite_p_def opposite_def other_side_def)

lemma set_best_own:
  "opposite (other_side sd) (set_best sd b l) = opposite (other_side sd) b"
  by (auto simp: opposite_def other_side_def set_best_def)

lemma get_best_rel:
  assumes "book_rel h pb b"
  shows "get_best_p sd pb = None \<longleftrightarrow> get_best sd b = None"
    and "get_best_p sd pb = Some pl \<Longrightarrow> \<exists>l. get_best sd b = Some l \<and> level_rel h pl l"
proof -
  from assms have r: "side_rel h (opposite_p sd pb) (opposite sd b)"
    by (simp add: book_rel_opposite[where sd = sd])
  then have len: "length (opposite_p sd pb) = length (opposite sd b)"
    by (auto simp: side_rel_def dest: list_all2_lengthD)
  have n: "get_best_p sd pb = None \<longleftrightarrow> opposite_p sd pb = []"
    "get_best sd b = None \<longleftrightarrow> opposite sd b = []"
    by (auto simp: get_best_p_def get_best_def opposite_p_def opposite_def
          get_best_ask_level_p_def get_best_bid_level_p_def get_best_ask_level_def
          get_best_bid_level_def)
  from len show "get_best_p sd pb = None \<longleftrightarrow> get_best sd b = None"
    unfolding n by auto
  assume s: "get_best_p sd pb = Some pl"
  from s show "\<exists>l. get_best sd b = Some l \<and> level_rel h pl l"
  proof (rule get_best_p_split)
    fix pre k post
    assume sp: "opposite_p sd pb = pre @ (k, pl) # post"
      "sd = BUY \<Longrightarrow> pre = []" "sd \<noteq> BUY \<Longrightarrow> post = []"
    from side_rel_append1[OF r[unfolded sp(1)]] obtain pre' l post' where
      v: "opposite sd b = pre' @ (k, l) # post'" "level_rel h pl l"
        "length pre' = length pre" "length post' = length post" by blast
    have "get_best sd b = Some l"
    proof (cases "sd = BUY")
      case True
      with sp(2) v show ?thesis
        by (simp add: get_best_def opposite_def get_best_ask_level_def)
    next
      case False
      with sp(3) v show ?thesis
        by (simp add: get_best_def opposite_def get_best_bid_level_def)
    qed
    with v(2) show ?thesis by blast
  qed
qed

lemma set_best_sim:
  assumes r: "book_rel h pb b" and gp: "get_best_p sd pb = Some pl" and gv: "get_best sd b = Some l"
    and lr: "level_rel h' pl' l'"
    and fr: "\<And>y. y \<in> set (book_addrs pb) \<Longrightarrow> y \<notin> set (orders_p pl) \<Longrightarrow> h' y = h y"
    and d: "distinct (book_addrs pb)"
  shows "book_rel h' (set_best_p sd pb pl') (set_best sd b l')"
  using gp
proof (rule get_best_p_split)
  fix pre k post
  assume sp: "opposite_p sd pb = pre @ (k, pl) # post"
    "sd = BUY \<Longrightarrow> pre = []" "sd \<noteq> BUY \<Longrightarrow> post = []"
    "\<And>l'. opposite_p sd (set_best_p sd pb l') = pre @ (k, l') # post"
  from gv show ?thesis
  proof (rule get_best_split)
    fix pre' k' post'
    assume sv: "opposite sd b = pre' @ (k', l) # post'"
      "sd = BUY \<Longrightarrow> pre' = []" "sd \<noteq> BUY \<Longrightarrow> post' = []"
      "\<And>l'. set_best sd b l' = with_opposite sd b (pre' @ (k', l') # post')"
    from r have ro: "side_rel h (opposite_p sd pb) (opposite sd b)"
      and rw: "side_rel h (opposite_p (other_side sd) pb) (opposite (other_side sd) b)"
      and fx: "book_symbol b = book_symbol_p pb" "sequence_counter b = sequence_counter_p pb"
      by (simp_all add: book_rel_opposite[where sd = sd])
    from side_rel_append1[OF ro[unfolded sp(1)]] obtain p2 l2 q2 where
      v: "opposite sd b = p2 @ (k, l2) # q2" "side_rel h pre p2" "side_rel h post q2"
        "length p2 = length pre" "length q2 = length post" by blast
    have same: "p2 = pre' \<and> k = k' \<and> q2 = post'"
    proof (cases "sd = BUY")
      case True
      with sp(2) sv(2) v(1,4) sv(1) show ?thesis by simp
    next
      case False
      with sp(3) sv(3) v(1,5) sv(1) show ?thesis by simp
    qed
    have dd: "distinct (side_addrs pre @ orders_p pl @ side_addrs post @
                side_addrs (opposite_p (other_side sd) pb))"
      using d sp(1)
      by (cases "sd = BUY") (auto simp: book_addrs_def opposite_p_def other_side_def)
    have sub: "set (side_addrs pre) \<subseteq> set (book_addrs pb)"
      "set (side_addrs post) \<subseteq> set (book_addrs pb)"
      "set (side_addrs (opposite_p (other_side sd) pb)) \<subseteq> set (book_addrs pb)"
      unfolding book_addrs_sides(1)[where sd = sd] sp(1) by auto
    have dj: "\<And>y. y \<in> set (side_addrs pre) \<Longrightarrow> y \<notin> set (orders_p pl)"
      "\<And>y. y \<in> set (side_addrs post) \<Longrightarrow> y \<notin> set (orders_p pl)"
      "\<And>y. y \<in> set (side_addrs (opposite_p (other_side sd) pb)) \<Longrightarrow> y \<notin> set (orders_p pl)"
      using dd by auto
    have 1: "side_rel h' pre pre'"
    proof (rule side_rel_heap)
      show "side_rel h pre pre'" using same v(2) by simp
      fix y assume "y \<in> set (side_addrs pre)"
      with sub(1) dj(1) show "h' y = h y" by (intro fr) auto
    qed
    have 2: "side_rel h' post post'"
    proof (rule side_rel_heap)
      show "side_rel h post post'" using same v(3) by simp
      fix y assume "y \<in> set (side_addrs post)"
      with sub(2) dj(2) show "h' y = h y" by (intro fr) auto
    qed
    have 3: "side_rel h' (opposite_p (other_side sd) pb) (opposite (other_side sd) b)"
    proof (rule side_rel_heap)
      show "side_rel h (opposite_p (other_side sd) pb) (opposite (other_side sd) b)" by (rule rw)
      fix y assume "y \<in> set (side_addrs (opposite_p (other_side sd) pb))"
      with sub(3) dj(3) show "h' y = h y" by (intro fr) auto
    qed
    have "side_rel h' (pre @ (k, pl') # post) (pre' @ (k', l') # post')"
      using 1 2 lr same by (intro side_rel_append) simp_all
    then have "side_rel h' (opposite_p sd (set_best_p sd pb pl')) (opposite sd (set_best sd b l'))"
      by (simp add: sp(4) sv(4))
    moreover have "side_rel h' (opposite_p (other_side sd) (set_best_p sd pb pl'))
        (opposite (other_side sd) (set_best sd b l'))"
      using 3 by (simp add: set_best_p_own set_best_own)
    moreover have "book_symbol (set_best sd b l') = book_symbol_p (set_best_p sd pb pl')"
      "sequence_counter (set_best sd b l') = sequence_counter_p (set_best_p sd pb pl')"
      using fx
      by (auto simp: set_best_p_def set_best_ask_level_p_def set_best_bid_level_p_def
            split: list.splits)
    ultimately show ?thesis by (simp add: book_rel_opposite[where sd = sd])
  qed
qed

subsection \<open>One match\<close>

lemma get_best_p_distinct:
  assumes "get_best_p sd b = Some l" "distinct (book_addrs b)"
  shows "distinct (orders_p l)"
  using assms(1)
proof (rule get_best_p_split)
  fix pre k post
  assume "opposite_p sd b = pre @ (k, l) # post"
  then have "side_addrs (opposite_p sd b) = side_addrs pre @ orders_p l @ side_addrs post" by simp
  moreover from assms(2) have "distinct (side_addrs (opposite_p sd b))"
    by (auto simp: book_addrs_def opposite_p_def)
  ultimately show ?thesis by simp
qed

lemma best_prices_rel:
  assumes "book_rel h pb b"
  shows "best_bid_p pb = best_bid b" and "best_ask_p pb = best_ask b"
proof -
  from assms have sr: "side_rel h (bids_p pb) (bids b)" "side_rel h (asks_p pb) (asks b)"
    by (simp_all add: book_rel_def)
  have k: "map fst (bids_p pb) = map fst (bids b)" "map fst (asks_p pb) = map fst (asks b)"
    using side_rel_keys[OF sr(1)] side_rel_keys[OF sr(2)] by simp_all
  from k(1) have e1: "bids_p pb = [] \<longleftrightarrow> bids b = []" by (metis map_is_Nil_conv)
  from k(2) have e2: "asks_p pb = [] \<longleftrightarrow> asks b = []" by (metis map_is_Nil_conv)
  have "bids_p pb \<noteq> [] \<Longrightarrow> fst (last (bids_p pb)) = fst (last (bids b))"
    using k(1) e1 by (metis last_map)
  with e1 show "best_bid_p pb = best_bid b" by (simp add: best_bid_p_def best_bid_def)
  have "asks_p pb \<noteq> [] \<Longrightarrow> fst (hd (asks_p pb)) = fst (hd (asks b))"
    using k(2) e2 by (metis hd_map)
  with e2 show "best_ask_p pb = best_ask b" by (simp add: best_ask_p_def best_ask_def)
qed

lemma can_match_sim: "engine_rel s e \<Longrightarrow> can_match_p s a = can_match e (objects s a)"
  using best_prices_rel[of "objects s" "order_book_p s" "order_book e"]
  by (simp add: engine_rel_def can_match_p_def can_match_def)

lemma try_match_sim:
  assumes er: "engine_rel s e" and d: "distinct (book_addrs (order_book_p s))"
    and fr: "a \<notin> set (book_addrs (order_book_p s))"
  shows "matched (fst (try_match e (objects s a))) = matched_p (fst (try_match_p s a)) \<and>
         fst (snd (try_match e (objects s a))) = objects (snd (try_match_p s a)) a \<and>
         engine_rel (snd (try_match_p s a)) (snd (snd (try_match e (objects s a))))"
proof -
  define h where "h = objects s"
  define sd where "sd = side (h a)"
  define pb where "pb = order_book_p s"
  define b where "b = order_book e"
  from er have br: "book_rel h pb b" by (simp add: engine_rel_def h_def pb_def b_def)
  show ?thesis
  proof (cases "get_best_p sd pb")
    case None
    with get_best_rel(1)[OF br, of sd] have "get_best sd b = None" by simp
    with None er show ?thesis
      by (simp add: try_match_eq try_match_p_eq no_match_def no_match_p_def sd_def h_def pb_def b_def)
  next
    case (Some pl)
    from get_best_rel(2)[OF br Some] obtain l where
      l: "get_best sd b = Some l" "level_rel h pl l" by blast
    show ?thesis
    proof (cases "orders_p pl")
      case Nil
      with l(2) have "orders l = []" by (simp add: level_rel_def)
      with Nil Some l(1) er show ?thesis
        by (simp add: try_match_eq try_match_p_eq no_match_def no_match_p_def sd_def h_def pb_def b_def)
    next
      case (Cons x xs)
      with l(2) have ol: "orders l = h x # map h xs" by (simp add: level_rel_def)
      have lb: "limit_blocks (h a) l = limit_blocks_p (h a) pl"
        using l(2) by (simp add: limit_blocks_def limit_blocks_p_def level_rel_def)
      show ?thesis
      proof (cases "limit_blocks_p (h a) pl \<or> \<not> is_active (h x)")
        case True
        with Cons ol lb Some l(1) er show ?thesis
          by (simp add: try_match_eq try_match_p_eq no_match_def no_match_p_def sd_def h_def pb_def b_def)
      next
        case False
        define mq where "mq = min (remaining_quantity (h a)) (remaining_quantity (h x))"
        define h' where "h' = heap_after_trade h a x mq"
        define pl' where "pl' = pl\<lparr>total_quantity_p := wrap64 (total_quantity_p pl - mq)\<rparr>"
        define l' where "l' = l\<lparr>orders := fill (h x) mq # map h xs, total_quantity := total_quantity l - mq\<rparr>"
        have xin: "x \<in> set (book_addrs pb)"
          using get_best_p_front[OF Some Cons] by (simp add: book_addrs_sides(1)[where sd = sd])
        with fr have ne: "a \<noteq> x" by (auto simp: pb_def)
        have ha: "h' a = fill (h a) mq" "h' x = fill (h x) mq"
          using ne by (simp_all add: h'_def heap_after_trade_def)
        have ho: "\<And>y. y \<noteq> a \<Longrightarrow> y \<noteq> x \<Longrightarrow> h' y = h y"
          using ne by (simp add: h'_def heap_after_trade_def)
        from get_best_p_distinct[OF Some] d Cons have dx: "x \<notin> set xs" by (simp add: pb_def)
        from fr have "a \<notin> set (side_addrs (opposite_p sd pb))"
          by (simp add: book_addrs_sides(1)[where sd = sd] pb_def)
        moreover have "set (orders_p pl) \<subseteq> set (side_addrs (opposite_p sd pb))"
          using Some by (rule get_best_p_split) auto
        ultimately have ax: "a \<notin> set xs" using Cons by auto
        have "map h' xs = map h xs"
          using dx ax by (intro map_cong refl ho) auto
        then have lr': "level_rel h' pl' l'"
          using l(2) Cons ha by (simp add: level_rel_def pl'_def l'_def)
        have b1: "book_rel h' (set_best_p sd pb pl') (set_best sd b l')"
        proof (rule set_best_sim[OF br Some l(1) lr'])
          fix y assume "y \<in> set (book_addrs pb)" "y \<notin> set (orders_p pl)"
          with fr Cons show "h' y = h y" by (intro ho) (auto simp: pb_def)
        next
          show "distinct (book_addrs pb)" using d by (simp add: pb_def)
        qed
        define b2p where "b2p = (if is_filled (h' x) then snd (remove_order_p h' (set_best_p sd pb pl') x)
            else set_best_p sd pb pl')"
        define b2 where "b2 = (if is_filled (fill (h x) mq) then snd (remove_order (set_best sd b l') (fill (h x) mq))
            else set_best sd b l')"
        have b2r: "book_rel h' b2p b2"
          using b1 book_rel_remove[OF b1, of x] ha(2) by (simp add: b2p_def b2_def)
        have tv: "try_match e (h a) =
            (\<lparr>matched = True, match_price = price (h x), match_quantity = mq,
              resting_order = Some (fill (h x) mq)\<rparr>,
             fill (h a) mq, after_trade e (trade_of e (h a) (h x) mq) b2)"
          using False lb l(1) ol
          by (simp add: try_match_eq sd_def[symmetric] b_def[symmetric] Let_def mq_def[symmetric]
                book_after_match_def b2_def l'_def)
        have tp: "try_match_p s a =
            (\<lparr>matched_p = True, match_price_p = price (h x), match_quantity_p = mq,
              resting_order_p = Some x\<rparr>,
             s\<lparr>objects := h', trade_id_counter_p := trade_id_counter_p s + 1,
               stats_p := (stats_p s)\<lparr>trades_executed := trades_executed (stats_p s) + 1\<rparr>,
               trade_log_p := trade_log_p s @ [trade_of_p s a x mq], order_book_p := b2p\<rparr>)"
          using False Some Cons
          by (simp add: try_match_p_eq h_def[symmetric] sd_def[symmetric] pb_def[symmetric] Let_def
                mq_def[symmetric] after_match_p_def h'_def[symmetric] b2p_def pl'_def)
        have tr: "trade_of e (h a) (h x) mq = trade_of_p s a x mq"
          using er by (simp add: trade_of_def trade_of_p_def engine_rel_def h_def)
        from er b2r ha(1) tr show ?thesis
          unfolding h_def[symmetric] tv tp
          by (simp add: engine_rel_def after_trade_def trade_of_p_def)
      qed
    qed
  qed
qed

lemma try_match_simE:
  assumes "engine_rel s e" "distinct (book_addrs (order_book_p s))"
    "a \<notin> set (book_addrs (order_book_p s))"
    "try_match_p s a = (rp, s')" "try_match e (objects s a) = (r, ord', e')"
  shows "matched r = matched_p rp" "ord' = objects s' a" "engine_rel s' e'"
    "distinct (book_addrs (order_book_p s'))" "a \<notin> set (book_addrs (order_book_p s'))"
  using try_match_sim[OF assms(1-3)] assms(4,5) try_match_p_addrs[OF assms(4)] assms(2,3)
  by auto

subsection \<open>The loops\<close>

lemma limit_loop_p_stop:
  "\<not> (is_active (objects s a) \<and> can_match_p s a) \<Longrightarrow> limit_loop_p s a = s"
  by (subst limit_loop_p.simps) auto

lemma limit_loop_p_step:
  "is_active (objects s a) \<Longrightarrow> can_match_p s a \<Longrightarrow> try_match_p s a = (r, s') \<Longrightarrow>
   limit_loop_p s a = (if matched_p r then limit_loop_p s' a else s')"
  by (subst limit_loop_p.simps) auto

lemma market_loop_p_stop:
  "\<not> (is_active (objects s a) \<and> can_match_p s a) \<Longrightarrow> market_loop_p s a = s"
  by (subst market_loop_p.simps) auto

lemma market_loop_p_step:
  "is_active (objects s a) \<Longrightarrow> can_match_p s a \<Longrightarrow> try_match_p s a = (r, s') \<Longrightarrow>
   market_loop_p s a =
     (if matched_p r then market_loop_p s' a
      else s'\<lparr>objects := (objects s')(a := (objects s' a)\<lparr>status := REJECTED\<rparr>)\<rparr>)"
  by (subst market_loop_p.simps) auto

lemma limit_loop_sim:
  assumes "engine_rel s e" "distinct (book_addrs (order_book_p s))"
    "a \<notin> set (book_addrs (order_book_p s))"
  shows "sim_post s a (limit_loop_p s a) (limit_loop e (objects s a))"
  using assms
proof (induction s a arbitrary: e rule: limit_loop_p.induct)
  case (1 s a)
  have cm: "can_match_p s a = can_match e (objects s a)" using "1.prems"(1) by (rule can_match_sim)
  show ?case
  proof (cases "is_active (objects s a) \<and> can_match_p s a")
    case False
    with cm "1.prems" show ?thesis
      by (simp add: limit_loop_p_stop limit_loop_stop sim_post_def)
  next
    case True
    obtain rp s' where tp: "try_match_p s a = (rp, s')" by (cases "try_match_p s a")
    obtain r ord' e' where tv: "try_match e (objects s a) = (r, ord', e')"
      by (cases "try_match e (objects s a)") auto
    note sim = try_match_simE[OF "1.prems" tp tv]
    show ?thesis
    proof (cases "matched_p rp")
      case False
      with True cm sim tp tv show ?thesis
        by (simp add: limit_loop_p_step[of s a rp s'] limit_loop_step[of "objects s a" e r ord' e']
              sim_post_def)
    next
      case m: True
      have nn: "\<not> \<not> matched_p rp" using m by simp
      from "1.IH"[OF True tp[symmetric] nn sim(3,4,5)]
      have "sim_post s' a (limit_loop_p s' a) (limit_loop e' (objects s' a))" .
      with True cm sim tp tv m show ?thesis
        by (simp add: limit_loop_p_step[of s a rp s'] limit_loop_step[of "objects s a" e r ord' e']
              sim_post_def)
    qed
  qed
qed

lemma engine_rel_heap:
  "engine_rel s e \<Longrightarrow> a \<notin> set (book_addrs (order_book_p s)) \<Longrightarrow>
   engine_rel (s\<lparr>objects := (objects s)(a := v)\<rparr>) e"
  by (auto simp: engine_rel_def intro: book_rel_heap)

lemma market_loop_sim:
  assumes "engine_rel s e" "distinct (book_addrs (order_book_p s))"
    "a \<notin> set (book_addrs (order_book_p s))"
  shows "sim_post s a (market_loop_p s a) (market_loop e (objects s a))"
  using assms
proof (induction s a arbitrary: e rule: market_loop_p.induct)
  case (1 s a)
  have cm: "can_match_p s a = can_match e (objects s a)" using "1.prems"(1) by (rule can_match_sim)
  show ?case
  proof (cases "is_active (objects s a) \<and> can_match_p s a")
    case False
    with cm "1.prems" show ?thesis
      by (simp add: market_loop_p_stop market_loop_stop sim_post_def)
  next
    case True
    obtain rp s' where tp: "try_match_p s a = (rp, s')" by (cases "try_match_p s a")
    obtain r ord' e' where tv: "try_match e (objects s a) = (r, ord', e')"
      by (cases "try_match e (objects s a)") auto
    note sim = try_match_simE[OF "1.prems" tp tv]
    show ?thesis
    proof (cases "matched_p rp")
      case False
      with True cm sim tp tv engine_rel_heap[OF sim(3,5)] show ?thesis
        by (simp add: market_loop_p_step[of s a rp s'] market_loop_step[of "objects s a" e r ord' e']
              sim_post_def)
    next
      case m: True
      have nn: "\<not> \<not> matched_p rp" using m by simp
      from "1.IH"[OF True tp[symmetric] nn sim(3,4,5)]
      have "sim_post s' a (market_loop_p s' a) (market_loop e' (objects s' a))" .
      with True cm sim tp tv m show ?thesis
        by (simp add: market_loop_p_step[of s a rp s'] market_loop_step[of "objects s a" e r ord' e']
              sim_post_def)
    qed
  qed
qed

subsection \<open>Adding an order\<close>

lemma side_emplace_p_count:
  "map_of sm k = None \<Longrightarrow>
   length (filter P (side_addrs (side_emplace_p k l sm))) =
     length (filter P (orders_p l)) + length (filter P (side_addrs sm))"
  by (induction sm) (auto split: if_splits)

lemma side_put_p_count:
  "map_of sm k = Some l \<Longrightarrow>
   length (filter P (side_addrs (side_put_p k l' sm))) + length (filter P (orders_p l)) =
     length (filter P (side_addrs sm)) + length (filter P (orders_p l'))"
  by (induction sm) (auto split: if_splits)

lemma add_to_side_p_count:
  "length (filter P (side_addrs (add_to_side_p h sm a))) =
     length (filter P (side_addrs sm)) + (if P a then 1 else 0)"
proof (cases "map_of sm (price (h a))")
  case None
  then show ?thesis
    by (simp add: add_to_side_p_def side_emplace_p_count level_add_order_p_def new_level_p_def)
next
  case (Some l)
  from side_put_p_count[OF Some, of P "level_add_order_p h l a"] Some show ?thesis
    by (simp add: add_to_side_p_def level_add_order_p_def)
qed

lemma add_order_p_count:
  "length (filter P (book_addrs (snd (snd (add_order_p h b a))))) \<le>
     length (filter P (book_addrs b)) + (if P a then 1 else 0)"
  by (simp add: add_order_p_def Let_def book_addrs_def add_to_side_p_count)

lemma add_order_p_distinct:
  assumes "distinct (book_addrs b)" "a \<notin> set (book_addrs b)"
  shows "distinct (book_addrs (snd (snd (add_order_p h b a))))"
  unfolding distinct_filter_count
proof
  fix y
  from assms(1) have 1: "length (filter ((=) y) (book_addrs b)) \<le> 1"
    by (simp add: distinct_filter_count)
  from assms(2) have 2: "length (filter ((=) a) (book_addrs b)) = 0"
    by (simp add: notin_filter_count)
  from add_order_p_count[of "(=) y" h b a] 1 2
  show "length (filter ((=) y) (book_addrs (snd (snd (add_order_p h b a))))) \<le> 1"
    by (cases "y = a") auto
qed

subsection \<open>A new order\<close>

lemma match_limit_order_sim:
  assumes "engine_rel s e" "distinct (book_addrs (order_book_p s))"
    "a \<notin> set (book_addrs (order_book_p s))"
  shows "sim_done a (match_limit_order_p s a) (match_limit_order e (objects s a))"
proof -
  define s1 where "s1 = limit_loop_p s a"
  obtain ord1 e1 where l: "limit_loop e (objects s a) = (ord1, e1)"
    by (cases "limit_loop e (objects s a)")
  from limit_loop_sim[OF assms] l have p: "engine_rel s1 e1" "objects s1 a = ord1"
    "distinct (book_addrs (order_book_p s1))" "a \<notin> set (book_addrs (order_book_p s1))"
    by (simp_all add: sim_post_def s1_def)
  show ?thesis
  proof (cases "is_active ord1 \<and> remaining_quantity ord1 > 0")
    case False
    with p l show ?thesis
      by (auto simp: match_limit_order_p_def match_limit_order_def Let_def s1_def[symmetric] sim_done_def)
  next
    case True
    from p(1) have br: "book_rel (objects s1) (order_book_p s1) (order_book e1)"
      by (simp add: engine_rel_def)
    obtain ok h' pb' where ap: "add_order_p (objects s1) (order_book_p s1) a = (ok, h', pb')"
      by (cases "add_order_p (objects s1) (order_book_p s1) a")
    obtain ok2 ord2 b' where av: "add_order (order_book e1) ord1 = (ok2, ord2, b')"
      by (cases "add_order (order_book e1) ord1")
    from book_rel_add[OF br p(4)] ap av p(2) have r: "h' = (objects s1)(a := ord2)" "book_rel h' pb' b'"
      by auto
    from add_order_p_distinct[OF p(3,4), of "objects s1"] ap have dd: "distinct (book_addrs pb')" by simp
    from True p l ap av r dd show ?thesis
      by (simp add: match_limit_order_p_def match_limit_order_def Let_def s1_def[symmetric]
            sim_done_def engine_rel_def)
  qed
qed

lemma match_market_order_sim:
  assumes "engine_rel s e" "distinct (book_addrs (order_book_p s))"
    "a \<notin> set (book_addrs (order_book_p s))"
  shows "sim_post s a (match_market_order_p s a) (match_market_order e (objects s a))"
proof -
  define s1 where "s1 = market_loop_p s a"
  obtain ord1 e1 where l: "market_loop e (objects s a) = (ord1, e1)"
    by (cases "market_loop e (objects s a)")
  from market_loop_sim[OF assms] l have p: "engine_rel s1 e1" "objects s1 a = ord1"
    "distinct (book_addrs (order_book_p s1))" "a \<notin> set (book_addrs (order_book_p s1))"
    by (simp_all add: sim_post_def s1_def)
  from p l engine_rel_heap[OF p(1,4)] show ?thesis
    by (simp add: match_market_order_p_def match_market_order_def Let_def s1_def[symmetric]
          sim_post_def)
qed

lemma process_new_order_sim:
  assumes "engine_rel s e" "distinct (book_addrs (order_book_p s))"
    "a \<notin> set (book_addrs (order_book_p s))"
  shows "sim_done a (process_new_order_p s a) (process_new_order e (objects s a))"
proof -
  define s0 where "s0 = s\<lparr>stats_p := (stats_p s)\<lparr>orders_processed := orders_processed (stats_p s) + 1\<rparr>\<rparr>"
  define e0 where "e0 = e\<lparr>stats := (stats e)\<lparr>orders_processed := orders_processed (stats e) + 1\<rparr>\<rparr>"
  have r0: "engine_rel s0 e0" "distinct (book_addrs (order_book_p s0))"
    "a \<notin> set (book_addrs (order_book_p s0))" and o0: "objects s0 = objects s"
    using assms by (simp_all add: s0_def e0_def engine_rel_def)
  have m: "sim_done a (match_market_order_p s0 a) (match_market_order e0 (objects s a))"
    using match_market_order_sim[OF r0] by (simp add: sim_post_def sim_done_def o0)
  have l: "sim_done a (match_limit_order_p s0 a) (match_limit_order e0 (objects s a))"
    using match_limit_order_sim[OF r0] by (simp add: o0)
  show ?thesis
  proof (cases "otype (objects s a) = MARKET")
    case True
    with m show ?thesis
      by (auto simp: process_new_order_p_def process_new_order_def Let_def s0_def[symmetric]
            e0_def[symmetric] o0 sim_done_def engine_rel_def split: prod.splits)
  next
    case False
    with l show ?thesis
      by (auto simp: process_new_order_p_def process_new_order_def Let_def s0_def[symmetric]
            e0_def[symmetric] o0 sim_done_def engine_rel_def split: prod.splits)
  qed
qed

subsection \<open>Cancel\<close>

lemma erase_first_p_cong:
  "(\<And>y. y \<in> set xs \<Longrightarrow> order_id (h' y) = order_id (h y)) \<Longrightarrow>
   erase_first_p h' i xs = erase_first_p h i xs"
  by (induction xs) auto

lemma find_id_cong:
  "(\<And>y. y \<in> set xs \<Longrightarrow> order_id (h' y) = order_id (h y)) \<Longrightarrow>
   find (\<lambda>y. order_id (h' y) = i) xs = find (\<lambda>y. order_id (h y) = i) xs"
  by (induction xs) auto

lemma find_erase_notin:
  "distinct xs \<Longrightarrow> find (\<lambda>y. order_id (h y) = i) xs = Some x \<Longrightarrow> x \<notin> set (erase_first_p h i xs)"
proof (induction xs)
  case Nil
  then show ?case by simp
next
  case (Cons z zs)
  show ?case
  proof (cases "order_id (h z) = i")
    case True
    with Cons.prems show ?thesis by simp
  next
    case False
    with Cons.prems have f: "find (\<lambda>y. order_id (h y) = i) zs = Some x" by simp
    then have "order_id (h x) = i" by (auto simp: find_Some_iff)
    with False have "x \<noteq> z" by auto
    with Cons.IH[OF _ f] Cons.prems(1) False show ?thesis by simp
  qed
qed

lemma erase_first_p_app:
  "erase_first_p h i (xs @ ys) =
     (if find (\<lambda>x. order_id (h x) = i) xs = None then xs @ erase_first_p h i ys
      else erase_first_p h i xs @ ys)"
  by (induction xs) auto

lemma erase_first_p_subset: "set (erase_first_p h i xs) \<subseteq> set xs"
  by (induction xs) auto

lemma cancel_level_step:
  assumes "find_order_p h l i = Some x"
  defines "h1 \<equiv> h(x := (h x)\<lparr>status := CANCELLED\<rparr>)"
  shows "level_remove_order_p h1 l x =
           l\<lparr>total_quantity_p := wrap64 (total_quantity_p l - remaining_quantity (h x)),
             orders_p := erase_first_p h i (orders_p l)\<rparr>"
proof -
  from assms(1) have ix: "order_id (h x) = i" by (auto simp: find_order_p_def find_Some_iff)
  have ids: "\<And>y. order_id (h1 y) = order_id (h y)" by (simp add: h1_def)
  have "find_order_p h1 l (order_id (h1 x)) = Some x"
    using assms(1) ix find_id_cong[of "orders_p l" h1 h i] ids
    by (simp add: find_order_p_def)
  moreover have "erase_first_p h1 (order_id (h1 x)) (orders_p l) = erase_first_p h i (orders_p l)"
    using erase_first_p_cong[of "orders_p l" h1 h i] ids ix by simp
  moreover have "remaining_quantity (h1 x) = remaining_quantity (h x)"
    by (simp add: h1_def remaining_quantity_def)
  ultimately show ?thesis by (simp add: level_remove_order_p_def)
qed

lemma cancel_side_p_None:
  "cancel_side_p h sm i = None \<longleftrightarrow> (\<forall>x\<in>set (side_addrs sm). order_id (h x) \<noteq> i)"
proof (induction sm)
  case Nil
  show ?case by simp
next
  case (Cons kl sm)
  obtain k l where kl: "kl = (k, l)" by (cases kl)
  show ?case
  proof (cases "find_order_p h l i")
    case None
    then have "\<forall>x\<in>set (orders_p l). order_id (h x) \<noteq> i"
      by (auto simp: find_order_p_def find_None_iff)
    with Cons kl None show ?thesis by (auto split: option.splits)
  next
    case (Some x)
    then have "x \<in> set (orders_p l) \<and> order_id (h x) = i"
      by (auto simp: find_order_p_def find_Some_iff)
    with kl Some show ?thesis by (auto simp: Let_def)
  qed
qed

lemma cancel_side_p_Some:
  "cancel_side_p h sm i = Some (h', sm') \<Longrightarrow>
   \<exists>x. find (\<lambda>y. order_id (h y) = i) (side_addrs sm) = Some x \<and>
       h' = h(x := (h x)\<lparr>status := CANCELLED\<rparr>) \<and>
       side_addrs sm' = erase_first_p h i (side_addrs sm)"
proof (induction sm arbitrary: sm')
  case Nil
  then show ?case by simp
next
  case (Cons kl sm)
  obtain k l where kl: "kl = (k, l)" by (cases kl)
  show ?case
  proof (cases "find_order_p h l i")
    case (Some x)
    define h1 where "h1 = h(x := (h x)\<lparr>status := CANCELLED\<rparr>)"
    note st = cancel_level_step[OF Some, folded h1_def]
    from Some have f: "find (\<lambda>y. order_id (h y) = i) (orders_p l) = Some x"
      by (simp add: find_order_p_def)
    from Cons.prems kl Some have r0: "h' = h1"
      "sm' = (if level_empty_p (level_remove_order_p h1 l x) then sm
              else (k, level_remove_order_p h1 l x) # sm)"
      by (auto simp: Let_def h1_def)
    from r0 have r: "h' = h(x := (h x)\<lparr>status := CANCELLED\<rparr>)"
      "sm' = (if erase_first_p h i (orders_p l) = [] then sm
              else (k, l\<lparr>total_quantity_p := wrap64 (total_quantity_p l - remaining_quantity (h x)),
                        orders_p := erase_first_p h i (orders_p l)\<rparr>) # sm)"
      unfolding st by (simp_all add: level_empty_p_def h1_def)
    from r(2) have "side_addrs sm' = erase_first_p h i (orders_p l) @ side_addrs sm" by simp
    with f r(1) kl show ?thesis by (simp add: find_app erase_first_p_app)
  next
    case None
    with Cons.prems kl obtain sm1 where c: "cancel_side_p h sm i = Some (h', sm1)" "sm' = (k, l) # sm1"
      by (auto split: option.splits)
    from None have f: "find (\<lambda>y. order_id (h y) = i) (orders_p l) = None"
      by (simp add: find_order_p_def)
    from Cons.IH[OF c(1)] f c(2) kl show ?thesis by (simp add: find_app erase_first_p_app)
  qed
qed

lemma cancel_side_sim:
  assumes "side_rel h psm sm" "distinct (side_addrs psm)" "cancel_side_p h psm i = Some (h', psm')"
  shows "\<exists>x sm'. find (\<lambda>y. order_id (h y) = i) (side_addrs psm) = Some x \<and>
           cancel_side sm i = Some ((h x)\<lparr>status := CANCELLED\<rparr>, sm') \<and> side_rel h' psm' sm'"
  using assms
proof (induction arbitrary: psm' rule: side_rel_induct)
  case Nil
  then show ?case by simp
next
  case (Cons k pl psm l sm)
  show ?case
  proof (cases "find_order_p h pl i")
    case (Some x)
    define h1 where "h1 = h(x := (h x)\<lparr>status := CANCELLED\<rparr>)"
    note st = cancel_level_step[OF Some, folded h1_def]
    from Some have f: "find (\<lambda>y. order_id (h y) = i) (orders_p pl) = Some x"
      by (simp add: find_order_p_def)
    then have xin: "x \<in> set (orders_p pl)" by (auto simp: find_Some_iff)
    from Cons.prems(2) Some have r0: "h' = h1"
      "psm' = (if level_empty_p (level_remove_order_p h1 pl x) then psm
              else (k, level_remove_order_p h1 pl x) # psm)"
      by (auto simp: Let_def h1_def)
    from r0 have r: "h' = h(x := (h x)\<lparr>status := CANCELLED\<rparr>)"
      "psm' = (if erase_first_p h i (orders_p pl) = [] then psm
              else (k, pl\<lparr>total_quantity_p := wrap64 (total_quantity_p pl - remaining_quantity (h x)),
                        orders_p := erase_first_p h i (orders_p pl)\<rparr>) # psm)"
      unfolding st by (simp_all add: level_empty_p_def h1_def)
    from Cons.hyps(1) Some have fv: "find_order l i = Some (h x)"
      by (simp add: level_rel_find)
    from Cons.hyps(1) have ol: "orders l = map h (orders_p pl)" by (simp add: level_rel_def)
    define l' where "l' = level_remove_order l ((h x)\<lparr>status := CANCELLED\<rparr>)"
    from fv have ix: "order_id (h x) = i" by (auto dest: find_order_Some)
    have l'eq: "l' = l\<lparr>total_quantity := total_quantity l - remaining_quantity (h x),
                       orders := map h (erase_first_p h i (orders_p pl))\<rparr>"
      using fv ix ol by (simp add: l'_def level_remove_order_def erase_first_map)
    have cv: "cancel_side ((k, l) # sm) i =
        Some ((h x)\<lparr>status := CANCELLED\<rparr>, if level_empty l' then sm else (k, l') # sm)"
      using fv by (simp add: Let_def l'_def)
    from Cons.prems(1) have d: "distinct (orders_p pl)" "\<And>y. y \<in> set (side_addrs psm) \<Longrightarrow> y \<notin> set (orders_p pl)"
      by auto
    have nx: "x \<notin> set (erase_first_p h i (orders_p pl))" using d(1) f by (rule find_erase_notin)
    have "map h' (erase_first_p h i (orders_p pl)) = map h (erase_first_p h i (orders_p pl))"
      using nx by (intro map_cong refl) (auto simp: r(1))
    then have lr: "level_rel h'
        (pl\<lparr>total_quantity_p := wrap64 (total_quantity_p pl - remaining_quantity (h x)),
            orders_p := erase_first_p h i (orders_p pl)\<rparr>) l'"
      using Cons.hyps(1) by (simp add: level_rel_def l'eq)
    have sr: "side_rel h' psm sm"
    proof (rule side_rel_heap[OF Cons.hyps(2)])
      fix y assume "y \<in> set (side_addrs psm)"
      with d(2) xin show "h' y = h y" by (auto simp: r(1))
    qed
    have "side_rel h' psm' (if level_empty l' then sm else (k, l') # sm)"
      using lr sr by (simp add: r(2) l'eq level_empty_def)
    with cv f show ?thesis by (simp add: find_app)
  next
    case None
    with Cons.prems(2) obtain psm1 where c: "cancel_side_p h psm i = Some (h', psm1)"
      "psm' = (k, pl) # psm1"
      by (auto split: option.splits)
    from None have f: "find (\<lambda>y. order_id (h y) = i) (orders_p pl) = None"
      by (simp add: find_order_p_def)
    from Cons.hyps(1) None have fv: "find_order l i = None" by (simp add: level_rel_find)
    from Cons.prems(1) have d: "distinct (side_addrs psm)"
      "\<And>y. y \<in> set (side_addrs psm) \<Longrightarrow> y \<notin> set (orders_p pl)" by auto
    from Cons.IH[OF d(1) c(1)] obtain x sm1 where
      i: "find (\<lambda>y. order_id (h y) = i) (side_addrs psm) = Some x"
      "cancel_side sm i = Some ((h x)\<lparr>status := CANCELLED\<rparr>, sm1)" "side_rel h' psm1 sm1" by blast
    from cancel_side_p_Some[OF c(1)] i(1) have h': "h' = h(x := (h x)\<lparr>status := CANCELLED\<rparr>)" by auto
    from i(1) have "x \<in> set (side_addrs psm)" by (auto simp: find_Some_iff)
    with d(2) have "x \<notin> set (orders_p pl)" by auto
    then have "level_rel h' pl l"
      by (intro level_rel_heap[OF Cons.hyps(1)]) (auto simp: h')
    with i c(2) f fv show ?thesis by (simp add: find_app)
  qed
qed

lemma cancel_side_sim_None:
  "side_rel h psm sm \<Longrightarrow> cancel_side_p h psm i = None \<longleftrightarrow> cancel_side sm i = None"
proof (induction rule: side_rel_induct)
  case Nil
  show ?case by simp
next
  case (Cons k pl psm l sm)
  from Cons.hyps(1) have "find_order l i = map_option h (find_order_p h pl i)"
    by (rule level_rel_find)
  with Cons.IH show ?case
    by (cases "find_order_p h pl i") (auto simp: Let_def split: option.splits)
qed

lemma cancel_order_p_False:
  "\<not> fst (cancel_order_p h pb i) \<longleftrightarrow> (\<forall>x\<in>set (book_addrs pb). order_id (h x) \<noteq> i)"
proof -
  have "\<not> fst (cancel_order_p h pb i) \<longleftrightarrow>
      cancel_side_p h (bids_p pb) i = None \<and> cancel_side_p h (asks_p pb) i = None"
    by (auto simp: cancel_order_p_def split: option.splits)
  then show ?thesis by (auto simp: cancel_side_p_None book_addrs_def)
qed

lemma cancel_order_p_unchanged:
  "\<not> fst (cancel_order_p h pb i) \<Longrightarrow> cancel_order_p h pb i = (False, h, pb)"
  by (auto simp: cancel_order_p_def split: option.splits)

lemma cancel_order_p_True:
  assumes "cancel_order_p h pb i = (True, h', pb')"
  shows "\<exists>x. find (\<lambda>y. order_id (h y) = i) (book_addrs pb) = Some x \<and>
           h' = h(x := (h x)\<lparr>status := CANCELLED\<rparr>) \<and>
           book_addrs pb' = erase_first_p h i (book_addrs pb) \<and>
           book_symbol_p pb' = book_symbol_p pb \<and> sequence_counter_p pb' = sequence_counter_p pb"
proof (cases "cancel_side_p h (bids_p pb) i")
  case (Some p)
  obtain h1 sm where p: "p = (h1, sm)" by (cases p)
  with Some assms have r: "h' = h1" "pb' = pb\<lparr>bids_p := sm\<rparr>" by (simp_all add: cancel_order_p_def)
  from cancel_side_p_Some[OF Some[unfolded p]] r show ?thesis
    by (auto simp: book_addrs_def find_app erase_first_p_app)
next
  case None
  with assms obtain sm where a: "cancel_side_p h (asks_p pb) i = Some (h', sm)" "pb' = pb\<lparr>asks_p := sm\<rparr>"
    by (auto simp: cancel_order_p_def split: option.splits)
  from None have n: "find (\<lambda>y. order_id (h y) = i) (side_addrs (bids_p pb)) = None"
    by (simp add: cancel_side_p_None find_None_iff)
  from cancel_side_p_Some[OF a(1)] a(2) n show ?thesis
    by (auto simp: book_addrs_def find_app erase_first_p_app)
qed

lemma cancel_order_p_filter:
  "length (filter P (book_addrs (snd (snd (cancel_order_p h pb i))))) \<le> length (filter P (book_addrs pb))"
proof (cases "fst (cancel_order_p h pb i)")
  case False
  then show ?thesis by (simp add: cancel_order_p_unchanged)
next
  case True
  then obtain h' pb' where c: "cancel_order_p h pb i = (True, h', pb')"
    by (cases "cancel_order_p h pb i") auto
  from cancel_order_p_True[OF c] c show ?thesis by (auto simp: erase_first_p_filter)
qed

lemma cancel_order_sim:
  assumes br: "book_rel h pb b" and d: "distinct (book_addrs pb)"
  shows "fst (cancel_order_p h pb i) = (fst (cancel_order b i) \<noteq> None) \<and>
         book_rel (fst (snd (cancel_order_p h pb i))) (snd (snd (cancel_order_p h pb i)))
           (snd (cancel_order b i))"
proof -
  from br have sb: "side_rel h (bids_p pb) (bids b)" and sa: "side_rel h (asks_p pb) (asks b)"
    and fx: "book_symbol b = book_symbol_p pb" "sequence_counter b = sequence_counter_p pb"
    by (simp_all add: book_rel_def)
  from d have db: "distinct (side_addrs (bids_p pb))" and da: "distinct (side_addrs (asks_p pb))"
    and dj: "\<And>y. y \<in> set (side_addrs (bids_p pb)) \<Longrightarrow> y \<notin> set (side_addrs (asks_p pb))"
    by (auto simp: book_addrs_def)
  show ?thesis
  proof (cases "cancel_side_p h (bids_p pb) i")
    case (Some p)
    obtain h' psm' where p: "p = (h', psm')" by (cases p)
    from cancel_side_sim[OF sb db Some[unfolded p]] obtain x sm' where
      x: "find (\<lambda>y. order_id (h y) = i) (side_addrs (bids_p pb)) = Some x"
      "cancel_side (bids b) i = Some ((h x)\<lparr>status := CANCELLED\<rparr>, sm')" "side_rel h' psm' sm'"
      by blast
    from cancel_side_p_Some[OF Some[unfolded p]] x(1) have h': "h' = h(x := (h x)\<lparr>status := CANCELLED\<rparr>)"
      by auto
    from x(1) have "x \<in> set (side_addrs (bids_p pb))" by (auto simp: find_Some_iff)
    with dj have "x \<notin> set (side_addrs (asks_p pb))" by auto
    then have "side_rel h' (asks_p pb) (asks b)"
      by (intro side_rel_heap[OF sa]) (auto simp: h')
    with Some p x fx show ?thesis
      by (simp add: cancel_order_p_def cancel_order_def book_rel_def)
  next
    case None
    with cancel_side_sim_None[OF sb, of i] have nv: "cancel_side (bids b) i = None" by simp
    show ?thesis
    proof (cases "cancel_side_p h (asks_p pb) i")
      case n2: None
      with cancel_side_sim_None[OF sa, of i] have "cancel_side (asks b) i = None" by simp
      with None nv n2 br show ?thesis by (simp add: cancel_order_p_def cancel_order_def)
    next
      case (Some p)
      obtain h' psm' where p: "p = (h', psm')" by (cases p)
      from cancel_side_sim[OF sa da Some[unfolded p]] obtain x sm' where
        x: "find (\<lambda>y. order_id (h y) = i) (side_addrs (asks_p pb)) = Some x"
        "cancel_side (asks b) i = Some ((h x)\<lparr>status := CANCELLED\<rparr>, sm')" "side_rel h' psm' sm'"
        by blast
      from cancel_side_p_Some[OF Some[unfolded p]] x(1) have h': "h' = h(x := (h x)\<lparr>status := CANCELLED\<rparr>)"
        by auto
      from x(1) have "x \<in> set (side_addrs (asks_p pb))" by (auto simp: find_Some_iff)
      with dj have "x \<notin> set (side_addrs (bids_p pb))" by auto
      then have "side_rel h' (bids_p pb) (bids b)"
        by (intro side_rel_heap[OF sb]) (auto simp: h')
      with None nv Some p x fx show ?thesis
        by (simp add: cancel_order_p_def cancel_order_def book_rel_def)
    qed
  qed
qed

lemma process_cancel_order_p_fields:
  "objects (process_cancel_order_p s i) = fst (snd (cancel_order_p (objects s) (order_book_p s) i))"
  "order_book_p (process_cancel_order_p s i) = snd (snd (cancel_order_p (objects s) (order_book_p s) i))"
  "engine_symbol_p (process_cancel_order_p s i) = engine_symbol_p s"
  "trade_id_counter_p (process_cancel_order_p s i) = trade_id_counter_p s"
  "trade_log_p (process_cancel_order_p s i) = trade_log_p s"
  "order_update_log_p (process_cancel_order_p s i) = order_update_log_p s"
  "stats_p (process_cancel_order_p s i) =
     (if fst (cancel_order_p (objects s) (order_book_p s) i)
      then (stats_p s)\<lparr>orders_cancelled := orders_cancelled (stats_p s) + 1\<rparr> else stats_p s)"
  by (auto simp: process_cancel_order_p_def split: prod.splits bool.splits)

lemma process_cancel_order_fields:
  "order_book (process_cancel_order e i) = snd (cancel_order (order_book e) i)"
  "engine_symbol (process_cancel_order e i) = engine_symbol e"
  "trade_id_counter (process_cancel_order e i) = trade_id_counter e"
  "trade_log (process_cancel_order e i) = trade_log e"
  "order_update_log (process_cancel_order e i) = order_update_log e"
  "stats (process_cancel_order e i) =
     (if fst (cancel_order (order_book e) i) \<noteq> None
      then (stats e)\<lparr>orders_cancelled := orders_cancelled (stats e) + 1\<rparr> else stats e)"
  by (auto simp: process_cancel_order_def split: prod.splits option.splits)

lemma process_cancel_order_sim:
  assumes "engine_rel s e" "distinct (book_addrs (order_book_p s))"
  shows "engine_rel (process_cancel_order_p s i) (process_cancel_order e i)"
    and "distinct (book_addrs (order_book_p (process_cancel_order_p s i)))"
    and "set (book_addrs (order_book_p (process_cancel_order_p s i))) \<subseteq> set (book_addrs (order_book_p s))"
proof -
  from assms(1) have br: "book_rel (objects s) (order_book_p s) (order_book e)"
    by (simp add: engine_rel_def)
  from cancel_order_sim[OF br assms(2), of i] assms(1)
  show "engine_rel (process_cancel_order_p s i) (process_cancel_order e i)"
    by (simp add: engine_rel_def process_cancel_order_p_fields process_cancel_order_fields)
  note c = count_le_distinct[of "book_addrs (order_book_p (process_cancel_order_p s i))"
      "book_addrs (order_book_p s)", unfolded process_cancel_order_p_fields,
      OF cancel_order_p_filter]
  from c(1)[OF assms(2)]
  show "distinct (book_addrs (order_book_p (process_cancel_order_p s i)))"
    by (simp add: process_cancel_order_p_fields)
  from c(2)
  show "set (book_addrs (order_book_p (process_cancel_order_p s i))) \<subseteq> set (book_addrs (order_book_p s))"
    by (simp add: process_cancel_order_p_fields)
qed

subsection \<open>Events\<close>

lemma process_event_sim:
  assumes "engine_rel s e" "distinct (book_addrs (order_book_p s))" "fresh_event s ev"
  shows "\<exists>ev'. engine_rel (process_event_p s ev) (process_event e ev') \<and>
           distinct (book_addrs (order_book_p (process_event_p s ev)))"
proof (cases ev)
  case (NEW_ORDER_p a)
  with assms(3) have f: "a \<notin> set (book_addrs (order_book_p s))" by simp
  from process_new_order_sim[OF assms(1,2) f] NEW_ORDER_p show ?thesis
    by (intro exI[of _ "NEW_ORDER (objects s a)"]) (simp add: sim_done_def)
next
  case (CANCEL_ORDER_p i)
  with process_cancel_order_sim[OF assms(1,2), of i] show ?thesis
    by (intro exI[of _ "CANCEL_ORDER i"]) simp
next
  case (REPLACE_ORDER_p i a)
  define s1 where "s1 = process_cancel_order_p s i"
  from REPLACE_ORDER_p assms(3) have f: "a \<notin> set (book_addrs (order_book_p s1))"
    by (simp add: s1_def)
  note c = process_cancel_order_sim[OF assms(1,2), of i, folded s1_def]
  from process_new_order_sim[OF c(1,2) f] REPLACE_ORDER_p show ?thesis
    by (intro exI[of _ "REPLACE_ORDER i (objects s1 a)"])
       (simp add: sim_done_def process_replace_order_p_def process_replace_order_def s1_def)
next
  case SHUTDOWN_p
  with assms show ?thesis by (intro exI[of _ SHUTDOWN]) simp
qed

section \<open>The invariant on shared objects\<close>

text \<open>
  A state related to a state of the first embedding whose book is well formed is that
  state read through the memory (\<open>book_rel_exact\<close>), so the invariants of the first
  embedding carry over: \<open>engine_inv_p\<close> holds of a fresh engine and is kept by every
  fresh event, and \<open>book_inv_p\<close> is kept by every mutation of the book.
\<close>

lemma side_rel_abs:
  "list_all (\<lambda>kl. total_quantity_p (snd kl) = wrap64 (level_sum h (snd kl))) psm \<Longrightarrow>
   side_rel h psm (abs_side h psm)"
  by (induction psm) (auto simp: abs_side_def abs_level_def level_rel_def)

lemma book_rel_abs: "totals_wrapped h pb \<Longrightarrow> book_rel h pb (abs_book h pb)"
  by (simp add: totals_wrapped_def book_rel_def abs_book_def side_rel_abs)

lemma side_rel_exact:
  assumes "side_rel h psm sm"
    "list_all (\<lambda>kl. total_quantity (snd kl) = sum_list (map remaining_quantity (orders (snd kl)))) sm"
  shows "abs_side h psm = sm \<and>
         list_all (\<lambda>kl. total_quantity_p (snd kl) = wrap64 (level_sum h (snd kl))) psm"
  using assms
proof (induction rule: side_rel_induct)
  case Nil
  show ?case by (simp add: abs_side_def)
next
  case (Cons k pl psm l sm)
  from Cons.hyps(1) Cons.prems have "abs_level h pl = l"
    "total_quantity_p pl = wrap64 (level_sum h pl)"
    by (simp_all add: level_rel_def abs_level_def level_sum_def comp_def)
  with Cons show ?case by (simp add: abs_side_def)
qed

lemma book_ok_exact:
  "book_ok b \<Longrightarrow>
   list_all (\<lambda>kl. total_quantity (snd kl) = sum_list (map remaining_quantity (orders (snd kl)))) (bids b) \<and>
   list_all (\<lambda>kl. total_quantity (snd kl) = sum_list (map remaining_quantity (orders (snd kl)))) (asks b)"
  by (auto simp: book_ok_def side_ok_def level_ok_def level_weak_def list_all_iff)

lemma book_rel_exact:
  assumes "book_rel h pb b" "book_ok b"
  shows "abs_book h pb = b" and "totals_wrapped h pb"
proof -
  from assms(1) have r: "side_rel h (bids_p pb) (bids b)" "side_rel h (asks_p pb) (asks b)"
    and fx: "book_symbol b = book_symbol_p pb" "sequence_counter b = sequence_counter_p pb"
    by (simp_all add: book_rel_def)
  note e = book_ok_exact[OF assms(2)]
  from side_rel_exact[OF r(1)] side_rel_exact[OF r(2)] e fx
  show "abs_book h pb = b" "totals_wrapped h pb"
    by (simp_all add: abs_book_def totals_wrapped_def)
qed


lemma engine_rel_abs: "totals_wrapped (objects s) (order_book_p s) \<Longrightarrow> engine_rel s (abs_engine s)"
  by (simp add: engine_rel_def abs_engine_def book_rel_abs)

lemma engine_inv_pD:
  assumes "engine_inv_p s"
  shows "engine_rel s (abs_engine s)" "engine_inv (abs_engine s)"
    "distinct (book_addrs (order_book_p s))"
proof -
  from assms show "engine_rel s (abs_engine s)"
    by (simp add: engine_inv_p_def book_inv_p_def engine_rel_abs)
  from assms show "engine_inv (abs_engine s)"
    by (simp add: engine_inv_p_def book_inv_p_def engine_inv_def abs_engine_def)
  from assms show "distinct (book_addrs (order_book_p s))"
    by (simp add: engine_inv_p_def book_inv_p_def)
qed

lemma engine_inv_pI:
  assumes "engine_rel s e" "engine_inv e" "distinct (book_addrs (order_book_p s))"
  shows "engine_inv_p s"
proof -
  from assms(1) have br: "book_rel (objects s) (order_book_p s) (order_book e)"
    by (simp add: engine_rel_def)
  from assms(2) have ok: "book_ok (order_book e)" by (simp add: engine_inv_def)
  from book_rel_exact[OF br ok] assms(2,3) show ?thesis
    by (simp add: engine_inv_p_def book_inv_p_def engine_inv_def)
qed

lemma engine_inv_p_event:
  assumes "engine_inv_p s" "fresh_event s ev"
  shows "engine_inv_p (process_event_p s ev)"
proof -
  note d = engine_inv_pD[OF assms(1)]
  from process_event_sim[OF d(1,3) assms(2)] obtain ev' where
    r: "engine_rel (process_event_p s ev) (process_event (abs_engine s) ev')"
    "distinct (book_addrs (order_book_p (process_event_p s ev)))" by blast
  from d(2) have "engine_inv (process_event (abs_engine s) ev')" by (rule process_event_inv)
  with r show ?thesis by (intro engine_inv_pI)
qed

lemma new_engine_p_inv: "engine_inv_p (new_engine_p h smb)"
proof (rule engine_inv_pI)
  show "engine_rel (new_engine_p h smb) (new_engine smb)"
    by (simp add: engine_rel_def new_engine_p_def new_engine_def book_rel_def new_book_p_def new_book_def)
  show "engine_inv (new_engine smb)" by (rule new_engine_inv)
  show "distinct (book_addrs (order_book_p (new_engine_p h smb)))"
    by (simp add: new_engine_p_def new_book_p_def book_addrs_def)
qed

lemma run_events_p_inv:
  "engine_inv_p s \<Longrightarrow> fresh_run s evs \<Longrightarrow> engine_inv_p (run_events_p s evs)"
  unfolding run_events_p_def
  by (induction evs arbitrary: s) (simp_all add: engine_inv_p_event)

lemma best_prices_abs:
  "best_bid (abs_book h pb) = best_bid_p pb" "best_ask (abs_book h pb) = best_ask_p pb"
  by (simp_all add: best_bid_def best_bid_p_def best_ask_def best_ask_p_def abs_book_def
        abs_side_def last_map hd_map)

lemma uncrossed_abs: "uncrossed_p pb = uncrossed (abs_book h pb)"
  by (simp add: uncrossed_p_def uncrossed_def best_prices_abs cong: option.case_cong)

lemma engine_inv_p_uncrossed: "engine_inv_p s \<Longrightarrow> uncrossed_p (order_book_p s)"
  by (simp add: engine_inv_p_def uncrossed_abs[of _ "objects s"] no_cross_uncrossed)


lemma book_inv_p_levels_sound:
  assumes "book_inv_p h pb"
  shows "levels_sound_p h pb"
proof -
  from assms have t: "totals_wrapped h pb" and ok: "book_ok (abs_book h pb)"
    by (simp_all add: book_inv_p_def)
  from book_ok_nonempty[OF ok] have "list_all (\<lambda>kl. orders_p (snd kl) \<noteq> []) (bids_p pb @ asks_p pb)"
    by (auto simp: abs_book_def abs_side_def abs_level_def list_all_iff)
  with t show ?thesis
    by (auto simp: levels_sound_p_def totals_wrapped_def list_all_iff level_empty_p_def)
qed










section \<open>The claims on shared objects\<close>

subsection \<open>The book is never left crossed\<close>

text \<open>
  C2.  The claim fails when an event carries an order object that is resting in the book.
  The object then rests twice; one fill exhausts both entries, \<open>remove_order_p\<close> erases
  one of them, and the other stays at the front of its level, no longer active.  The next
  \<open>try_match_p\<close> finds it and returns unmatched, the loop ends, and the remainder of the
  incoming order is inserted at a price that crosses (\<open>book_crossed_counterexample\<close>).
  Without such events the claim holds.  From a fresh engine, whatever the memory holds, if
  no event of the sequence carries an object that rests in the book when the event is
  processed (\<open>fresh_run\<close>), then after the sequence the best bid is below the best ask
  whenever both exist.  The step behind it: on every state with the invariant
  \<open>engine_inv_p\<close>, processing one such event of any kind keeps the invariant and
  leaves a book that is not crossed.
\<close>

theorem book_never_crossed:
  "(fresh_run (new_engine_p h smb) evs \<longrightarrow>
      uncrossed_p (order_book_p (run_events_p (new_engine_p h smb) evs))) \<and>
   (engine_inv_p s \<and> fresh_event s ev \<longrightarrow>
      engine_inv_p (process_event_p s ev) \<and> uncrossed_p (order_book_p (process_event_p s ev)))"
proof (intro conjI impI)
  assume "fresh_run (new_engine_p h smb) evs"
  with new_engine_p_inv have "engine_inv_p (run_events_p (new_engine_p h smb) evs)"
    by (rule run_events_p_inv)
  then show "uncrossed_p (order_book_p (run_events_p (new_engine_p h smb) evs))"
    by (rule engine_inv_p_uncrossed)
next
  assume a: "engine_inv_p s \<and> fresh_event s ev"
  then show i: "engine_inv_p (process_event_p s ev)" by (simp add: engine_inv_p_event)
  then show "uncrossed_p (order_book_p (process_event_p s ev))" by (rule engine_inv_p_uncrossed)
qed

theorem book_crossed_counterexample:
  "book_addrs (order_book_p (process_event_p (new_engine_p heap_A ''AAPL'') (NEW_ORDER_p 1))) = [1] \<and>
   book_addrs (order_book_p engine_twice) = [1, 1] \<and>
   best_bid_p (order_book_p (process_event_p engine_twice (NEW_ORDER_p 2))) = Some 15000 \<and>
   best_ask_p (order_book_p (process_event_p engine_twice (NEW_ORDER_p 2))) = Some 15000 \<and>
   \<not> uncrossed_p (order_book_p (process_event_p engine_twice (NEW_ORDER_p 2)))"
  unfolding engine_twice_def heap_A_def by code_simp

theorem book_never_crossed_witness:
  "fresh_run (new_engine_p heap_B ''AAPL'') [NEW_ORDER_p 1, NEW_ORDER_p 2, NEW_ORDER_p 3] \<and>
   uncrossed_p (order_book_p (run_events_p (new_engine_p heap_B ''AAPL'')
      [NEW_ORDER_p 1, NEW_ORDER_p 2, NEW_ORDER_p 3])) \<and>
   engine_inv_p engine_Bp \<and> fresh_event engine_Bp (NEW_ORDER_p 3) \<and>
   best_bid_p (order_book_p (process_event_p engine_Bp (NEW_ORDER_p 3))) = Some 15200 \<and>
   best_ask_p (order_book_p (process_event_p engine_Bp (NEW_ORDER_p 3))) = None \<and>
   uncrossed_p (order_book_p (process_event_p engine_Bp (NEW_ORDER_p 3)))"
proof -
  have h: "fresh_run (new_engine_p heap_B ''AAPL'') [NEW_ORDER_p 1, NEW_ORDER_p 2, NEW_ORDER_p 3]"
    "engine_inv_p engine_Bp" "fresh_event engine_Bp (NEW_ORDER_p 3)"
    unfolding engine_Bp_def heap_B_def by code_simp+
  have v: "best_bid_p (order_book_p (process_event_p engine_Bp (NEW_ORDER_p 3))) = Some 15200"
    "best_ask_p (order_book_p (process_event_p engine_Bp (NEW_ORDER_p 3))) = None"
    unfolding engine_Bp_def heap_B_def by code_simp+
  note th = book_never_crossed[of heap_B "''AAPL''"
      "[NEW_ORDER_p 1, NEW_ORDER_p 2, NEW_ORDER_p 3]" engine_Bp "NEW_ORDER_p 3"]
  from th h v show ?thesis by blast
qed

subsection \<open>Levels are never empty and their totals are exact\<close>




subsection \<open>Cancel\<close>

lemma level_orders_abs: "level_orders (abs_side h psm) = map h (side_addrs psm)"
  by (induction psm) (auto simp: abs_side_def abs_level_def)

lemma book_orders_abs: "book_orders (abs_book h pb) = map h (book_addrs pb)"
  by (simp add: book_orders_def abs_book_def level_orders_abs book_addrs_def)

lemma engine_inv_p_active:
  "engine_inv_p s \<Longrightarrow> x \<in> set (book_addrs (order_book_p s)) \<Longrightarrow> is_active (objects s x)"
  by (auto simp: engine_inv_p_def resting_active_def book_orders_abs list_all_iff)

lemma process_cancel_order_p_False:
  "\<not> fst (cancel_order_p (objects s) (order_book_p s) i) \<Longrightarrow> process_cancel_order_p s i = s"
  by (simp add: process_cancel_order_p_def cancel_order_p_unchanged)

lemma process_cancel_order_p_True:
  "fst (cancel_order_p (objects s) (order_book_p s) i) \<Longrightarrow>
   process_cancel_order_p s i =
     s\<lparr>objects := fst (snd (cancel_order_p (objects s) (order_book_p s) i)),
       order_book_p := snd (snd (cancel_order_p (objects s) (order_book_p s) i)),
       stats_p := (stats_p s)\<lparr>orders_cancelled := orders_cancelled (stats_p s) + 1\<rparr>\<rparr>"
  by (auto simp: process_cancel_order_p_def split: prod.splits)

text \<open>
  C6.  \<open>cancel_order_p\<close> has no test of its own for the order being active: it returns
  true exactly when an order with the id rests in the book.  When an order object rests
  twice, a filled order can rest in the book, and a cancel of its id returns true, writes
  CANCELLED over FILLED and counts as a cancellation; and a cancel of an object that rests
  twice leaves its second entry in the book (\<open>cancel_counterexample\<close>).  On the states
  with the invariant \<open>engine_inv_p\<close>, which are all the states reached from a fresh
  engine by events that carry no object resting in the book, every resting order is active
  and the claim holds: the cancel returns true exactly when an active order with the id
  rests in the book.  When it returns false, memory, book and engine, statistics
  included, are unchanged.  When it returns true, the order written is the first with the
  id in search order (bids from the lowest price, then asks), it was active and is now
  CANCELLED, nothing else in memory changed, the book holds the former entries without it,
  no level is left empty, the invariant is kept, and \<open>orders_cancelled\<close> goes up by
  one.
\<close>

theorem cancel_contract:
  "(fresh_run (new_engine_p h0 smb) evs \<longrightarrow> engine_inv_p (run_events_p (new_engine_p h0 smb) evs)) \<and>
   (engine_inv_p s \<longrightarrow>
     (fst (cancel_order_p (objects s) (order_book_p s) i) \<longleftrightarrow>
        (\<exists>x\<in>set (book_addrs (order_book_p s)). order_id (objects s x) = i \<and> is_active (objects s x))) \<and>
     (\<not> fst (cancel_order_p (objects s) (order_book_p s) i) \<longrightarrow>
        cancel_order_p (objects s) (order_book_p s) i = (False, objects s, order_book_p s) \<and>
        process_cancel_order_p s i = s) \<and>
     (fst (cancel_order_p (objects s) (order_book_p s) i) \<longrightarrow>
        (\<exists>x. find (\<lambda>y. order_id (objects s y) = i) (book_addrs (order_book_p s)) = Some x \<and>
           is_active (objects s x) \<and>
           objects (process_cancel_order_p s i) = (objects s)(x := (objects s x)\<lparr>status := CANCELLED\<rparr>) \<and>
           book_addrs (order_book_p (process_cancel_order_p s i)) =
             erase_first_p (objects s) i (book_addrs (order_book_p s)) \<and>
           x \<notin> set (book_addrs (order_book_p (process_cancel_order_p s i)))) \<and>
        levels_sound_p (objects (process_cancel_order_p s i)) (order_book_p (process_cancel_order_p s i)) \<and>
        engine_inv_p (process_cancel_order_p s i) \<and>
        process_cancel_order_p s i =
          s\<lparr>objects := fst (snd (cancel_order_p (objects s) (order_book_p s) i)),
            order_book_p := snd (snd (cancel_order_p (objects s) (order_book_p s) i)),
            stats_p := (stats_p s)\<lparr>orders_cancelled := orders_cancelled (stats_p s) + 1\<rparr>\<rparr>))"
proof (intro conjI impI)
  assume "fresh_run (new_engine_p h0 smb) evs"
  with new_engine_p_inv show "engine_inv_p (run_events_p (new_engine_p h0 smb) evs)"
    by (rule run_events_p_inv)
next
  assume inv: "engine_inv_p s"
  have "fst (cancel_order_p (objects s) (order_book_p s) i) \<longleftrightarrow>
      (\<exists>x\<in>set (book_addrs (order_book_p s)). order_id (objects s x) = i)"
    using cancel_order_p_False[of "objects s" "order_book_p s" i] by auto
  also have "\<dots> \<longleftrightarrow> (\<exists>x\<in>set (book_addrs (order_book_p s)). order_id (objects s x) = i \<and>
      is_active (objects s x))"
    using engine_inv_p_active[OF inv] by auto
  finally show "fst (cancel_order_p (objects s) (order_book_p s) i) \<longleftrightarrow>
      (\<exists>x\<in>set (book_addrs (order_book_p s)). order_id (objects s x) = i \<and> is_active (objects s x))" .
next
  assume n: "\<not> fst (cancel_order_p (objects s) (order_book_p s) i)"
  then show "cancel_order_p (objects s) (order_book_p s) i = (False, objects s, order_book_p s)"
    by (rule cancel_order_p_unchanged)
  from n show "process_cancel_order_p s i = s" by (rule process_cancel_order_p_False)
next
  assume inv: "engine_inv_p s"
  assume t: "fst (cancel_order_p (objects s) (order_book_p s) i)"
  then obtain h' pb' where c: "cancel_order_p (objects s) (order_book_p s) i = (True, h', pb')"
    by (cases "cancel_order_p (objects s) (order_book_p s) i") auto
  from t show pe: "process_cancel_order_p s i =
          s\<lparr>objects := fst (snd (cancel_order_p (objects s) (order_book_p s) i)),
            order_book_p := snd (snd (cancel_order_p (objects s) (order_book_p s) i)),
            stats_p := (stats_p s)\<lparr>orders_cancelled := orders_cancelled (stats_p s) + 1\<rparr>\<rparr>"
    by (rule process_cancel_order_p_True)
  have "fresh_event s (CANCEL_ORDER_p i)" by simp
  with inv have "engine_inv_p (process_event_p s (CANCEL_ORDER_p i))" by (rule engine_inv_p_event)
  then show inv': "engine_inv_p (process_cancel_order_p s i)" by simp
  then show "levels_sound_p (objects (process_cancel_order_p s i)) (order_book_p (process_cancel_order_p s i))"
    by (simp add: engine_inv_p_def book_inv_p_levels_sound)
  from cancel_order_p_True[OF c] obtain x where
    x: "find (\<lambda>y. order_id (objects s y) = i) (book_addrs (order_book_p s)) = Some x"
    "h' = (objects s)(x := (objects s x)\<lparr>status := CANCELLED\<rparr>)"
    "book_addrs pb' = erase_first_p (objects s) i (book_addrs (order_book_p s))" by blast
  from x(1) have "x \<in> set (book_addrs (order_book_p s))" by (auto simp: find_Some_iff)
  with inv have ax: "is_active (objects s x)" by (rule engine_inv_p_active)
  from inv have d: "distinct (book_addrs (order_book_p s))" by (rule engine_inv_pD(3))
  from find_erase_notin[OF d x(1)] x(3) have nx: "x \<notin> set (book_addrs pb')" by simp
  from x ax nx c
  show "\<exists>x. find (\<lambda>y. order_id (objects s y) = i) (book_addrs (order_book_p s)) = Some x \<and>
           is_active (objects s x) \<and>
           objects (process_cancel_order_p s i) = (objects s)(x := (objects s x)\<lparr>status := CANCELLED\<rparr>) \<and>
           book_addrs (order_book_p (process_cancel_order_p s i)) =
             erase_first_p (objects s) i (book_addrs (order_book_p s)) \<and>
           x \<notin> set (book_addrs (order_book_p (process_cancel_order_p s i)))"
    by (intro exI[of _ x]) (simp add: process_cancel_order_p_fields)
qed

theorem cancel_counterexample:
  "book_addrs (order_book_p (process_event_p engine_twice (NEW_ORDER_p 2))) = [1, 2] \<and>
   order_id (objects (process_event_p engine_twice (NEW_ORDER_p 2)) 1) = 1 \<and>
   order_id (objects (process_event_p engine_twice (NEW_ORDER_p 2)) 2) = 2 \<and>
   status (objects (process_event_p engine_twice (NEW_ORDER_p 2)) 1) = FILLED \<and>
   fst (cancel_order_p (objects (process_event_p engine_twice (NEW_ORDER_p 2)))
          (order_book_p (process_event_p engine_twice (NEW_ORDER_p 2))) 1) \<and>
   status (objects (process_cancel_order_p (process_event_p engine_twice (NEW_ORDER_p 2)) 1) 1) =
     CANCELLED \<and>
   orders_cancelled (stats_p (process_event_p engine_twice (NEW_ORDER_p 2))) = 0 \<and>
   orders_cancelled (stats_p (process_cancel_order_p
     (process_event_p engine_twice (NEW_ORDER_p 2)) 1)) = 1 \<and>
   book_addrs (order_book_p (process_cancel_order_p engine_twice 1)) = [1] \<and>
   status (objects (process_cancel_order_p engine_twice 1) 1) = CANCELLED"
  unfolding engine_twice_def heap_A_def by code_simp

theorem cancel_contract_witness:
  "fresh_run (new_engine_p heap_B ''AAPL'') [NEW_ORDER_p 1, NEW_ORDER_p 2] \<and>
   engine_inv_p engine_Bp \<and>
   fst (cancel_order_p (objects engine_Bp) (order_book_p engine_Bp) 2) \<and>
   status (objects (process_cancel_order_p engine_Bp 2) 2) = CANCELLED \<and>
   book_addrs (order_book_p engine_Bp) = [2, 1] \<and>
   book_addrs (order_book_p (process_cancel_order_p engine_Bp 2)) = [1] \<and>
   bids_p (order_book_p (process_cancel_order_p engine_Bp 2)) = [] \<and>
   orders_cancelled (stats_p (process_cancel_order_p engine_Bp 2)) = 1 \<and>
   \<not> fst (cancel_order_p (objects engine_Bp) (order_book_p engine_Bp) 9) \<and>
   process_cancel_order_p engine_Bp 9 = engine_Bp \<and>
   engine_inv_p (process_cancel_order_p engine_Bp 2) \<and>
   process_cancel_order_p (process_cancel_order_p engine_Bp 2) 2 = process_cancel_order_p engine_Bp 2"
proof -
  have fr: "fresh_run (new_engine_p heap_B ''AAPL'') [NEW_ORDER_p 1, NEW_ORDER_p 2]"
    unfolding heap_B_def by code_simp
  note t0 = cancel_contract[where ?h0.0 = heap_B and smb = "''AAPL''"
      and evs = "[NEW_ORDER_p 1, NEW_ORDER_p 2]" and s = engine_Bp and i = 2]
  from t0 fr have inv: "engine_inv_p engine_Bp" unfolding engine_Bp_def by blast
  note t2 = cancel_contract[where s = engine_Bp and i = 2]
  note t9 = cancel_contract[where s = engine_Bp and i = 9]
  have v: "book_addrs (order_book_p engine_Bp) = [2, 1]"
    "orders_cancelled (stats_p engine_Bp) = 0"
    unfolding engine_Bp_def heap_B_def by code_simp+
  have n9: "\<not> (\<exists>x\<in>set (book_addrs (order_book_p engine_Bp)). order_id (objects engine_Bp x) = 9 \<and>
      is_active (objects engine_Bp x))"
    unfolding engine_Bp_def heap_B_def by code_simp
  from t9 inv n9 have r9: "\<not> fst (cancel_order_p (objects engine_Bp) (order_book_p engine_Bp) 9)"
    by blast
  with t9 inv have p9: "process_cancel_order_p engine_Bp 9 = engine_Bp" by blast
  have y2: "\<exists>x\<in>set (book_addrs (order_book_p engine_Bp)). order_id (objects engine_Bp x) = 2 \<and>
      is_active (objects engine_Bp x)"
    unfolding engine_Bp_def heap_B_def by code_simp
  from t2 inv y2 have r2: "fst (cancel_order_p (objects engine_Bp) (order_book_p engine_Bp) 2)"
    by blast
  with t2 inv have inv2: "engine_inv_p (process_cancel_order_p engine_Bp 2)"
    and pc: "process_cancel_order_p engine_Bp 2 =
          engine_Bp\<lparr>objects := fst (snd (cancel_order_p (objects engine_Bp) (order_book_p engine_Bp) 2)),
            order_book_p := snd (snd (cancel_order_p (objects engine_Bp) (order_book_p engine_Bp) 2)),
            stats_p := (stats_p engine_Bp)\<lparr>orders_cancelled := orders_cancelled (stats_p engine_Bp) + 1\<rparr>\<rparr>"
    by blast+
  from pc v(2) have oc: "orders_cancelled (stats_p (process_cancel_order_p engine_Bp 2)) = 1"
    by simp
  have w: "status (objects (process_cancel_order_p engine_Bp 2) 2) = CANCELLED"
    "book_addrs (order_book_p (process_cancel_order_p engine_Bp 2)) = [1]"
    "bids_p (order_book_p (process_cancel_order_p engine_Bp 2)) = []"
    unfolding engine_Bp_def heap_B_def by code_simp+
  have "\<not> (\<exists>x\<in>set (book_addrs (order_book_p (process_cancel_order_p engine_Bp 2))).
      order_id (objects (process_cancel_order_p engine_Bp 2) x) = 2 \<and>
      is_active (objects (process_cancel_order_p engine_Bp 2) x))"
    unfolding engine_Bp_def heap_B_def by code_simp
  with cancel_contract[where s = "process_cancel_order_p engine_Bp 2" and i = 2] inv2
  have again: "process_cancel_order_p (process_cancel_order_p engine_Bp 2) 2 =
      process_cancel_order_p engine_Bp 2" by blast
  from fr inv r2 w v(1) oc r9 p9 inv2 again show ?thesis by simp
qed

subsection \<open>Status transitions\<close>



lemma status_mono_refl [simp]: "status_mono h h"
  by (simp add: status_mono_def)






















end
